(* ===== verification/Prelude.thy ===== *)
theory Prelude
  imports Main "HOL-Library.Word"
begin

text \<open>
  Shared vocabulary of the development: the machine types of the C sources, buffers read and
  written at an offset, little-endian integers in a buffer, and the generic lemmas on lists and
  on sorted lists that the component theories use.

  A C buffer is a list of bytes. \<open>read_at\<close> and \<open>write_at\<close> are \<^verbatim>\<open>memcpy\<close> from and to an offset,
  \<open>memmove\<close> moves inside one buffer (reading everything before it writes) and \<open>zrealloc\<close>
  changes the size of a buffer; the bytes it appends are indeterminate in C and are zeroes here.
  Allocation never fails: \<^verbatim>\<open>zmalloc\<close> of \<^verbatim>\<open>zmalloc.c\<close> aborts the process when it does.
\<close>

unbundle bit_operations_syntax

type_synonym byte = "8 word"
type_synonym u32 = "32 word"
type_synonym u64 = "64 word"

named_theorems buf_simps \<open>reading back what was written to a buffer\<close>
named_theorems le_simps \<open>little-endian integers\<close>

section \<open>Ranges of the signed C types\<close>

definition INT16_MIN :: int where "INT16_MIN = - (2 ^ 15)"
definition INT16_MAX :: int where "INT16_MAX = 2 ^ 15 - 1"
definition INT32_MIN :: int where "INT32_MIN = - (2 ^ 31)"
definition INT32_MAX :: int where "INT32_MAX = 2 ^ 31 - 1"
definition INT64_MIN :: int where "INT64_MIN = - (2 ^ 63)"
definition INT64_MAX :: int where "INT64_MAX = 2 ^ 63 - 1"

lemmas int_ranges =
  INT16_MIN_def INT16_MAX_def INT32_MIN_def INT32_MAX_def INT64_MIN_def INT64_MAX_def

text \<open>A value of type \<^verbatim>\<open>int64_t\<close> or \<^verbatim>\<open>long long\<close>.\<close>

definition is_int64 :: "int \<Rightarrow> bool" where
  "is_int64 v \<longleftrightarrow> INT64_MIN \<le> v \<and> v \<le> INT64_MAX"

text \<open>The signed reading of an unsigned value of \<open>b\<close> bits (two's complement).\<close>

definition as_signed :: "nat \<Rightarrow> int \<Rightarrow> int" where
  "as_signed b u = (if u < 2 ^ (b - 1) then u else u - 2 ^ b)"

lemma as_signed_mod:
  assumes "0 < b" "- (2 ^ (b - 1)) \<le> v" "v < 2 ^ (b - 1)"
  shows "as_signed b (v mod 2 ^ b) = v"
proof -
  obtain k where b: "b = Suc k" using assms(1) gr0_implies_Suc by blast
  show ?thesis
  proof (cases "0 \<le> v")
    case True
    then have "v mod 2 ^ b = v" using assms(3) b by simp
    then show ?thesis using assms(3) by (simp add: as_signed_def)
  next
    case False
    have "v mod 2 ^ b = (v + 2 ^ b) mod 2 ^ b" by simp
    also have "\<dots> = v + 2 ^ b"
      by (rule mod_pos_pos_trivial) (use assms False b in auto)
    finally show ?thesis using assms(2) b by (simp add: as_signed_def)
  qed
qed

section \<open>Buffers\<close>

definition read_at :: "nat \<Rightarrow> nat \<Rightarrow> 'a list \<Rightarrow> 'a list" where
  "read_at off n buf = take n (drop off buf)"

definition write_at :: "nat \<Rightarrow> 'a list \<Rightarrow> 'a list \<Rightarrow> 'a list" where
  "write_at off bs buf = take off buf @ bs @ drop (off + length bs) buf"

definition memmove :: "nat \<Rightarrow> nat \<Rightarrow> nat \<Rightarrow> 'a list \<Rightarrow> 'a list" where
  "memmove dst src n buf = write_at dst (read_at src n buf) buf"

definition zrealloc :: "nat \<Rightarrow> byte list \<Rightarrow> byte list" where
  "zrealloc n buf = take n buf @ replicate (n - length buf) 0"

lemma length_read_at [buf_simps]: "off + n \<le> length buf \<Longrightarrow> length (read_at off n buf) = n"
  by (simp add: read_at_def)

lemma length_write_at [buf_simps]:
  "off + length bs \<le> length buf \<Longrightarrow> length (write_at off bs buf) = length buf"
  by (simp add: write_at_def)

lemma length_memmove [buf_simps]:
  "src + n \<le> length buf \<Longrightarrow> dst + n \<le> length buf \<Longrightarrow> length (memmove dst src n buf) = length buf"
  by (simp add: memmove_def buf_simps)

lemma length_zrealloc [buf_simps]: "length (zrealloc n buf) = n"
  by (simp add: zrealloc_def)

lemma nth_read_at: "off + n \<le> length buf \<Longrightarrow> i < n \<Longrightarrow> read_at off n buf ! i = buf ! (off + i)"
  by (simp add: read_at_def)

lemma nth_write_at:
  "off + length bs \<le> length buf \<Longrightarrow> i < length buf \<Longrightarrow>
   write_at off bs buf ! i =
     (if off \<le> i \<and> i < off + length bs then bs ! (i - off) else buf ! i)"
  by (auto simp: write_at_def nth_append)

lemma read_write_same [buf_simps]:
  "off + length bs \<le> length buf \<Longrightarrow> n = length bs \<Longrightarrow> read_at off n (write_at off bs buf) = bs"
  by (simp add: read_at_def write_at_def)

lemma read_write_other [buf_simps]:
  assumes "off + length bs \<le> length buf" "o' + n \<le> length buf"
    and "o' + n \<le> off \<or> off + length bs \<le> o'"
  shows "read_at o' n (write_at off bs buf) = read_at o' n buf"
proof (rule nth_equalityI)
  show "length (read_at o' n (write_at off bs buf)) = length (read_at o' n buf)"
    using assms by (simp add: buf_simps)
next
  fix i assume "i < length (read_at o' n (write_at off bs buf))"
  with assms have i: "i < n" by (simp add: buf_simps)
  with assms show "read_at o' n (write_at off bs buf) ! i = read_at o' n buf ! i"
    by (auto simp: nth_read_at nth_write_at buf_simps)
qed

lemma read_read_at: "i + m \<le> n \<Longrightarrow> read_at i m (read_at off n buf) = read_at (off + i) m buf"
  by (simp add: read_at_def drop_take add.commute min_def)

lemma read_memmove [buf_simps]:
  assumes "src + n \<le> length buf" "dst + n \<le> length buf"
    and "dst \<le> o'" "o' + m \<le> dst + n"
  shows "read_at o' m (memmove dst src n buf) = read_at (src + (o' - dst)) m buf"
proof -
  let ?w = "read_at src n buf"
  have "read_at o' m (memmove dst src n buf) = read_at (o' - dst) m (read_at dst n (memmove dst src n buf))"
    using assms by (simp add: read_read_at)
  also have "read_at dst n (memmove dst src n buf) = ?w"
    using assms by (simp add: memmove_def buf_simps)
  also have "read_at (o' - dst) m ?w = read_at (src + (o' - dst)) m buf"
    using assms by (simp add: read_read_at)
  finally show ?thesis .
qed

lemma read_memmove_other [buf_simps]:
  assumes "src + n \<le> length buf" "dst + n \<le> length buf" "o' + m \<le> length buf"
    and "o' + m \<le> dst \<or> dst + n \<le> o'"
  shows "read_at o' m (memmove dst src n buf) = read_at o' m buf"
  using assms by (simp add: memmove_def buf_simps)

lemma read_zrealloc [buf_simps]:
  "off + m \<le> length buf \<Longrightarrow> off + m \<le> n \<Longrightarrow> read_at off m (zrealloc n buf) = read_at off m buf"
  by (simp add: read_at_def zrealloc_def drop_take min_def)

section \<open>Little-endian integers\<close>

primrec put_le :: "nat \<Rightarrow> int \<Rightarrow> byte list" where
  "put_le 0 v = []"
| "put_le (Suc n) v = word_of_int v # put_le n (v div 256)"

primrec get_le :: "byte list \<Rightarrow> int" where
  "get_le [] = 0"
| "get_le (b # bs) = uint b + 256 * get_le bs"

lemma length_put_le [simp, le_simps]: "length (put_le n v) = n"
  by (induction n arbitrary: v) auto

lemma get_put_le [le_simps]: "get_le (put_le n v) = v mod 256 ^ n"
proof (induction n arbitrary: v)
  case 0
  then show ?case by simp
next
  case (Suc n)
  have "get_le (put_le (Suc n) v) = v mod 256 + 256 * ((v div 256) mod 256 ^ n)"
    by (simp add: Suc uint_word_of_int)
  also have "\<dots> = v mod (256 * 256 ^ n)" by (simp add: zmod_zmult2_eq)
  finally show ?case by simp
qed

lemma get_le_bounds: "0 \<le> get_le bs \<and> get_le bs < 256 ^ length bs"
proof (induction bs)
  case Nil
  then show ?case by simp
next
  case (Cons b bs)
  have "uint b < 256" using uint_lt2p [of b] by simp
  moreover have "get_le bs + 1 \<le> 256 ^ length bs" using Cons by linarith
  then have "256 * (get_le bs + 1) \<le> 256 * 256 ^ length bs" by (rule mult_left_mono) simp
  ultimately show ?case using Cons by simp
qed

lemma put_get_le [le_simps]: "n = length bs \<Longrightarrow> put_le n (get_le bs) = bs"
proof (induction bs arbitrary: n)
  case Nil
  then show ?case by simp
next
  case (Cons b bs)
  have b: "0 \<le> uint b" "uint b < 256" using uint_lt2p [of b] by auto
  then have "(uint b + 256 * get_le bs) div 256 = get_le bs" by simp
  moreover have "(word_of_int (uint b + 256 * get_le bs) :: byte) = b"
  proof -
    have "(256 :: byte) = 0" by simp
    then have "256 * w = 0" for w :: byte by (simp only: mult_zero_left)
    then show ?thesis by simp
  qed
  ultimately show ?case using Cons by simp
qed

text \<open>A signed integer of \<open>n\<close> bytes survives being stored and read back.\<close>

lemma signed_get_put_le [le_simps]:
  assumes "0 < n" "- (2 ^ (8 * n - 1)) \<le> v" "v < 2 ^ (8 * n - 1)"
  shows "as_signed (8 * n) (get_le (put_le n v)) = v"
proof -
  have "(256::int) ^ n = 2 ^ (8 * n)" by (simp add: power_mult)
  then show ?thesis using as_signed_mod [of "8 * n" v] assms by (simp add: get_put_le)
qed

section \<open>Words\<close>

lemma unat_lt_2_64 [simp]: "unat (v :: u64) < 18446744073709551616"
proof -
  have "unat v < 2 ^ LENGTH(64)" by (rule unsigned_less)
  moreover have "(2::nat) ^ LENGTH(64) = 18446744073709551616" by simp
  ultimately show ?thesis by metis
qed

lemma unat_ucast_8_64 [simp]: "unat (ucast (b :: byte) :: u64) = unat b"
proof -
  have "unat b < 2 ^ LENGTH(8)" by (rule unsigned_less)
  moreover have "(2::nat) ^ LENGTH(8) < 2 ^ 64" by simp
  ultimately have "unat b < 2 ^ 64" by (rule less_trans)
  then show ?thesis by (simp add: unsigned_ucast_eq take_bit_nat_eq_self)
qed

lemma sint_of_int64: "is_int64 k \<Longrightarrow> sint (word_of_int k :: u64) = k"
  by (simp add: is_int64_def int_ranges signed_of_int signed_take_bit_int_eq_self)

lemma unat_add_1_32: "unat (w :: u32) + 1 < 2 ^ 32 \<Longrightarrow> unat (w + 1) = unat w + 1"
  by (simp add: unat_word_ariths)

lemma sint_small_32: "unat (w :: u32) < 2 ^ 31 \<Longrightarrow> sint w = int (unat w)"
proof -
  assume "unat w < 2 ^ 31"
  then have "uint w < 2 ^ 31" by (metis nat_less_numeral_power_cancel_iff unat_eq_nat_uint)
  moreover have "- (2 ^ 31) \<le> uint w" by (rule order_trans [OF _ uint_ge_0]) simp
  ultimately have "signed_take_bit 31 (uint w) = uint w" by (intro signed_take_bit_int_eq_self)
  then show ?thesis by (simp add: sint_uint)
qed

section \<open>Strictly sorted lists\<close>

abbreviation ssorted :: "'a::linorder list \<Rightarrow> bool" where
  "ssorted xs \<equiv> sorted_wrt (<) xs"

lemma ssorted_distinct: "ssorted xs \<Longrightarrow> distinct xs"
  by (simp add: strict_sorted_iff)

lemma ssorted_insert:
  assumes "ssorted xs" "k \<le> length xs"
    and "\<And>i. i < k \<Longrightarrow> xs ! i < v" and "\<And>i. k \<le> i \<Longrightarrow> i < length xs \<Longrightarrow> v < xs ! i"
  shows "ssorted (take k xs @ v # drop k xs)"
proof -
  have "\<forall>x \<in> set (take k xs). x < v"
    using assms(2,3) by (auto simp: in_set_conv_nth)
  moreover have "\<forall>y \<in> set (drop k xs). v < y"
    using assms(2,4) by (auto simp: in_set_conv_nth)
  moreover have "ssorted (take k xs)" "ssorted (drop k xs)"
    using assms(1) by (simp_all add: sorted_wrt_take sorted_wrt_drop)
  ultimately show ?thesis
    by (fastforce simp: sorted_wrt_append)
qed

lemma ssorted_remove: "ssorted xs \<Longrightarrow> ssorted (take k xs @ drop (Suc k) xs)"
proof -
  assume s: "ssorted xs"
  have "ssorted (take k xs @ drop k xs)" using s by simp
  then have "\<forall>x \<in> set (take k xs). \<forall>y \<in> set (drop (Suc k) xs). x < y"
    using set_drop_subset_set_drop [of k "Suc k" xs] unfolding sorted_wrt_append by auto
  then show ?thesis using s by (simp add: sorted_wrt_append sorted_wrt_take sorted_wrt_drop)
qed

lemma nth_insert_at:
  assumes "k \<le> length xs" "i \<le> length xs"
  shows "(take k xs @ v # drop k xs) ! i = (if i < k then xs ! i else if i = k then v else xs ! (i - 1))"
proof (cases "k < i")
  case True
  then have "k + (i - k - 1) = i - 1" by simp
  then show ?thesis using assms True by (simp add: nth_append nth_Cons')
qed (use assms in \<open>auto simp: nth_append\<close>)

lemma nth_remove_at:
  assumes "k < length xs" "i < length xs - 1"
  shows "(take k xs @ drop (Suc k) xs) ! i = (if i < k then xs ! i else xs ! (i + 1))"
  using assms by (auto simp: nth_append)

lemma set_insert_at: "set (take k xs @ v # drop k xs) = insert v (set xs)"
proof -
  have "set (take k xs) \<union> set (drop k xs) = set xs"
    by (metis append_take_drop_id set_append)
  then show ?thesis by auto
qed

lemma set_remove_at:
  assumes "distinct xs" "k < length xs"
  shows "set (take k xs @ drop (Suc k) xs) = set xs - {xs ! k}"
proof -
  have eq: "xs = take k xs @ xs ! k # drop (Suc k) xs" using assms(2) by (rule id_take_nth_drop)
  have "xs ! k \<notin> set (take k xs @ drop (Suc k) xs)"
    using assms(1) by (subst (asm) eq) auto
  then show ?thesis by (subst (3) eq) auto
qed

end
