(* ===== verification/Refinement.thy ===== *)
theory Refinement
  imports Main
begin

text \<open>
  Simulation of an abstract machine by a concrete one, over sequences of calls. A step takes a
  state and a call and returns the new state and a reply. The capacity bounds a weight of the
  abstract state (its number of elements), which a call raises by at most one: it is how the
  limits of the machine integers in the concrete states enter.
\<close>

fun run_ops :: "('s \<Rightarrow> 'o \<Rightarrow> 's \<times> 'r) \<Rightarrow> 's \<Rightarrow> 'o list \<Rightarrow> 's \<times> 'r list" where
  "run_ops step s [] = (s, [])"
| "run_ops step s (x # xs) =
     (case step s x of (s', r) \<Rightarrow> (case run_ops step s' xs of (s'', rs) \<Rightarrow> (s'', r # rs)))"

locale machine_refinement =
  fixes step :: "'s \<Rightarrow> 'o \<Rightarrow> 's \<times> 'r"
    and spec :: "'a \<Rightarrow> 'o \<Rightarrow> 'a \<times> 'r"
    and inv :: "'s \<Rightarrow> bool"
    and abs :: "'s \<Rightarrow> 'a"
    and valid_op :: "'o \<Rightarrow> bool"
    and weight :: "'a \<Rightarrow> nat"
    and cap :: nat
  assumes step_refines: "inv s \<Longrightarrow> valid_op x \<Longrightarrow> weight (abs s) < cap \<Longrightarrow>
      inv (fst (step s x)) \<and> (abs (fst (step s x)), snd (step s x)) = spec (abs s) x"
    and weight_step: "inv s \<Longrightarrow> weight (fst (spec (abs s) x)) \<le> Suc (weight (abs s))"
begin

text \<open>Every run simulates the abstract one, as long as it stays below the capacity.\<close>

lemma run_refines:
  assumes "inv s" "\<forall>x \<in> set xs. valid_op x" "weight (abs s) + length xs \<le> cap"
  shows "inv (fst (run_ops step s xs)) \<and>
    (abs (fst (run_ops step s xs)), snd (run_ops step s xs)) = run_ops spec (abs s) xs"
  using assms
proof (induction xs arbitrary: s)
  case Nil
  then show ?case by simp
next
  case (Cons x xs)
  obtain s' r where s': "step s x = (s', r)" by fastforce
  have ref: "inv s'" "spec (abs s) x = (abs s', r)"
    using step_refines [of s x] Cons.prems s' by auto
  have "weight (abs s') \<le> Suc (weight (abs s))"
    using weight_step [OF Cons.prems(1), of x] ref(2) by simp
  then have IH: "inv (fst (run_ops step s' xs)) \<and>
      (abs (fst (run_ops step s' xs)), snd (run_ops step s' xs)) = run_ops spec (abs s') xs"
    using Cons.IH [OF ref(1)] Cons.prems by simp
  obtain a b where ab: "run_ops step s' xs = (a, b)" by fastforce
  with IH have "run_ops spec (abs s') xs = (abs a, b)" by simp
  with ab IH show ?case by (simp add: s' ref(2))
qed

end

end
