(* ===== verification/Set_Interface.thy ===== *)
theory Set_Interface
  imports Refinement
begin

text \<open>
  The contract of a mutable set with \<^verbatim>\<open>add\<close>, \<^verbatim>\<open>remove\<close>, \<^verbatim>\<open>member\<close> and \<^verbatim>\<open>size\<close>, as the integer set,
  the hash table and the set object provide it. Every operation returns the new state, since a
  lookup in a hash table may do a step of rehashing. \<open>valid\<close> says which values can be stored and
  \<open>cap\<close> how many of them: below \<open>cap\<close> elements an addition is always accepted.

  The contract makes the implementation an instance of \<open>machine_refinement\<close>: any sequence of calls
  answers exactly as the mathematical set does.
\<close>

datatype 'a set_op = Add 'a | Remove 'a | Member 'a

fun op_arg :: "'a set_op \<Rightarrow> 'a" where
  "op_arg (Add x) = x"
| "op_arg (Remove x) = x"
| "op_arg (Member x) = x"

text \<open>The abstract machine: a set, and the reply of every call.\<close>

fun set_spec :: "'a set \<Rightarrow> 'a set_op \<Rightarrow> 'a set \<times> bool" where
  "set_spec A (Add x) = (insert x A, x \<notin> A)"
| "set_spec A (Remove x) = (A - {x}, x \<in> A)"
| "set_spec A (Member x) = (A, x \<in> A)"

text \<open>The concrete machine, from the three operations of an implementation.\<close>

fun set_exec :: "('s \<Rightarrow> 'a \<Rightarrow> 's \<times> bool) \<Rightarrow> ('s \<Rightarrow> 'a \<Rightarrow> 's \<times> bool) \<Rightarrow> ('s \<Rightarrow> 'a \<Rightarrow> 's \<times> bool) \<Rightarrow>
    's \<Rightarrow> 'a set_op \<Rightarrow> 's \<times> bool" where
  "set_exec ad rm mb s (Add x) = ad s x"
| "set_exec ad rm mb s (Remove x) = rm s x"
| "set_exec ad rm mb s (Member x) = mb s x"

locale set_impl =
  fixes new :: 's
    and ad :: "'s \<Rightarrow> 'a \<Rightarrow> 's \<times> bool"
    and rm :: "'s \<Rightarrow> 'a \<Rightarrow> 's \<times> bool"
    and mb :: "'s \<Rightarrow> 'a \<Rightarrow> 's \<times> bool"
    and size_of :: "'s \<Rightarrow> nat"
    and inv :: "'s \<Rightarrow> bool"
    and abs :: "'s \<Rightarrow> 'a set"
    and valid :: "'a \<Rightarrow> bool"
    and cap :: nat
  assumes inv_new: "inv new"
    and abs_new: "abs new = {}"
    and finite_abs: "inv s \<Longrightarrow> finite (abs s)"
    and add_correct: "inv s \<Longrightarrow> valid x \<Longrightarrow> card (abs s) < cap \<Longrightarrow>
      inv (fst (ad s x)) \<and> abs (fst (ad s x)) = insert x (abs s) \<and> snd (ad s x) = (x \<notin> abs s)"
    and remove_correct: "inv s \<Longrightarrow> valid x \<Longrightarrow>
      inv (fst (rm s x)) \<and> abs (fst (rm s x)) = abs s - {x} \<and> snd (rm s x) = (x \<in> abs s)"
    and member_correct: "inv s \<Longrightarrow> valid x \<Longrightarrow>
      inv (fst (mb s x)) \<and> abs (fst (mb s x)) = abs s \<and> snd (mb s x) = (x \<in> abs s)"
    and size_correct: "inv s \<Longrightarrow> size_of s = card (abs s)"
begin

lemma exec_refines:
  assumes "inv s" "valid (op_arg o1)" "card (abs s) < cap"
  shows "inv (fst (set_exec ad rm mb s o1)) \<and>
    (abs (fst (set_exec ad rm mb s o1)), snd (set_exec ad rm mb s o1)) = set_spec (abs s) o1"
  using assms add_correct remove_correct member_correct by (cases o1) simp_all

lemma card_spec: "finite A \<Longrightarrow> card (fst (set_spec A o1)) \<le> Suc (card A)"
  by (cases o1) (simp_all add: card_insert_if card_Diff1_le le_SucI)

end

sublocale set_impl \<subseteq> runs: machine_refinement "set_exec ad rm mb" set_spec inv abs "\<lambda>x. valid (op_arg x)" card cap
  by unfold_locales (simp_all add: exec_refines finite_abs card_spec)

context set_impl
begin

text \<open>The case of a fresh set.\<close>

lemma run_new_refines:
  assumes "\<forall>x \<in> set xs. valid (op_arg x)" "length xs \<le> cap"
  shows "snd (run_ops (set_exec ad rm mb) new xs) = snd (run_ops set_spec {} xs)"
    and "abs (fst (run_ops (set_exec ad rm mb) new xs)) = fst (run_ops set_spec {} xs)"
  using runs.run_refines [OF inv_new assms(1)] assms(2) by (simp_all add: abs_new prod_eq_iff)

end

end
