(* ===== verification/Intset.thy ===== *)
theory Intset
  imports Prelude Set_Interface "HOL-Library.While_Combinator"
begin

text \<open>
  The integer set of \<^verbatim>\<open>intset.c\<close>: a strictly sorted array of 16, 32 or 64 bit integers in one
  byte buffer, all of the width that the largest needs. The record has the three fields of
  \<^verbatim>\<open>struct intset\<close>; \<open>contents\<close> is the flexible array member. The sources go through
  \<^verbatim>\<open>intrev32ifbe\<close> and \<^verbatim>\<open>memrev64ifbe\<close>, which make the layout little-endian on every host, so the
  model reads and writes little-endian bytes.

  \<^verbatim>\<open>int64_t\<close> values are integers in the range \<open>is_int64\<close>. A store truncates to the width of the
  encoding (\<open>put_le\<close>), and a load sign-extends (\<open>as_signed\<close>). Positions are natural
  numbers. \<open>length\<close> and the byte counts keep their 32 bits, and so does the midpoint of the
  binary search.
\<close>

section \<open>Model of intset.c\<close>

record intset =
  encoding :: u32
  len :: u32
  contents :: "byte list"

definition INTSET_ENC_INT16 :: nat where "INTSET_ENC_INT16 = 2"
definition INTSET_ENC_INT32 :: nat where "INTSET_ENC_INT32 = 4"
definition INTSET_ENC_INT64 :: nat where "INTSET_ENC_INT64 = 8"

lemmas intset_encs = INTSET_ENC_INT16_def INTSET_ENC_INT32_def INTSET_ENC_INT64_def

abbreviation enc :: "intset \<Rightarrow> nat" where "enc is \<equiv> unat (encoding is)"
abbreviation slen :: "intset \<Rightarrow> nat" where "slen is \<equiv> unat (len is)"

definition intsetValueEncoding :: "int \<Rightarrow> nat" where
  "intsetValueEncoding v =
     (if v < INT32_MIN \<or> v > INT32_MAX then INTSET_ENC_INT64
      else if v < INT16_MIN \<or> v > INT16_MAX then INTSET_ENC_INT32
      else INTSET_ENC_INT16)"

definition intsetGetEncoded :: "intset \<Rightarrow> nat \<Rightarrow> nat \<Rightarrow> int" where
  "intsetGetEncoded is pos e =
     (if e = INTSET_ENC_INT64 then as_signed 64 (get_le (read_at (8 * pos) 8 (contents is)))
      else if e = INTSET_ENC_INT32 then as_signed 32 (get_le (read_at (4 * pos) 4 (contents is)))
      else as_signed 16 (get_le (read_at (2 * pos) 2 (contents is))))"

definition intsetGetAt :: "intset \<Rightarrow> nat \<Rightarrow> int" where
  "intsetGetAt is pos = intsetGetEncoded is pos (enc is)"

definition intsetSet :: "intset \<Rightarrow> nat \<Rightarrow> int \<Rightarrow> intset" where
  "intsetSet is pos v =
     (if enc is = INTSET_ENC_INT64 then is\<lparr>contents := write_at (8 * pos) (put_le 8 v) (contents is)\<rparr>
      else if enc is = INTSET_ENC_INT32 then is\<lparr>contents := write_at (4 * pos) (put_le 4 v) (contents is)\<rparr>
      else is\<lparr>contents := write_at (2 * pos) (put_le 2 v) (contents is)\<rparr>)"

definition intsetNew :: intset where
  "intsetNew = \<lparr>encoding = of_nat INTSET_ENC_INT16, len = 0, contents = []\<rparr>"

text \<open>\<^verbatim>\<open>intsetResize\<close>: its assertion holds because 64-bit sizes cannot overflow here.\<close>

definition intsetResize :: "intset \<Rightarrow> u32 \<Rightarrow> intset" where
  "intsetResize is l = is\<lparr>contents := zrealloc (unat l * enc is) (contents is)\<rparr>"

text \<open>
  The loop of \<^verbatim>\<open>intsetSearch\<close> over its locals \<open>min\<close>, \<open>max\<close>, \<open>mid\<close> and \<open>cur\<close>; \<open>brk\<close> is set by
  the \<^verbatim>\<open>break\<close>. The midpoint is computed in unsigned 32-bit arithmetic and shifted right.
\<close>

record search_state =
  mn :: int
  mx :: int
  mid :: int
  cur :: int
  brk :: bool

definition intsetSearch_mid :: "int \<Rightarrow> int \<Rightarrow> int" where
  "intsetSearch_mid a b = sint (drop_bit 1 (word_of_int a + word_of_int b :: u32))"

definition intsetSearch_body :: "intset \<Rightarrow> int \<Rightarrow> search_state \<Rightarrow> search_state" where
  "intsetSearch_body is value s =
     (let md = intsetSearch_mid (mn s) (mx s);
          cr = intsetGetAt is (nat md);
          s' = s\<lparr>mid := md, cur := cr\<rparr>
      in if value > cr then s'\<lparr>mn := md + 1\<rparr>
         else if value < cr then s'\<lparr>mx := md - 1\<rparr>
         else s'\<lparr>brk := True\<rparr>)"

definition intsetSearch_loop :: "intset \<Rightarrow> int \<Rightarrow> search_state \<Rightarrow> search_state" where
  "intsetSearch_loop is value s = while (\<lambda>s. mx s \<ge> mn s \<and> \<not> brk s) (intsetSearch_body is value) s"

text \<open>\<^verbatim>\<open>intsetSearch\<close> returns whether the value was found and the position it stores in \<^verbatim>\<open>*pos\<close>.\<close>

definition intsetSearch :: "intset \<Rightarrow> int \<Rightarrow> bool \<times> nat" where
  "intsetSearch is value =
     (let mx0 = sint (len is - 1) in
      if len is = 0 then (False, 0)
      else if value > intsetGetAt is (nat mx0) then (False, slen is)
      else if value < intsetGetAt is 0 then (False, 0)
      else
        (let s = intsetSearch_loop is value \<lparr>mn = 0, mx = mx0, mid = - 1, cur = - 1, brk = False\<rparr>
         in if value = cur s then (True, nat (mid s)) else (False, nat (mn s))))"

text \<open>
  The loop of \<^verbatim>\<open>intsetUpgradeAndAdd\<close>, from the last element down to the first, reading with the
  old encoding and writing with the new one.
\<close>

primrec intsetUpgrade_loop :: "intset \<Rightarrow> nat \<Rightarrow> nat \<Rightarrow> nat \<Rightarrow> intset" where
  "intsetUpgrade_loop is curenc prepend 0 = is"
| "intsetUpgrade_loop is curenc prepend (Suc l) =
     intsetUpgrade_loop (intsetSet is (l + prepend) (intsetGetEncoded is l curenc)) curenc prepend l"

definition intsetUpgradeAndAdd :: "intset \<Rightarrow> int \<Rightarrow> intset" where
  "intsetUpgradeAndAdd is value =
     (let curenc = enc is;
          newenc = intsetValueEncoding value;
          l = slen is;
          prepend = (if value < 0 then 1 else 0);
          is1 = is\<lparr>encoding := of_nat newenc\<rparr>;
          is2 = intsetResize is1 (len is1 + 1);
          is3 = intsetUpgrade_loop is2 curenc prepend l;
          is4 = (if prepend = 1 then intsetSet is3 0 value else intsetSet is3 (slen is3) value)
      in is4\<lparr>len := len is4 + 1\<rparr>)"

definition intsetMoveTail :: "intset \<Rightarrow> u32 \<Rightarrow> u32 \<Rightarrow> intset" where
  "intsetMoveTail is from to =
     (let n = len is - from;
          e = enc is;
          w = (if e = INTSET_ENC_INT64 then 8 else if e = INTSET_ENC_INT32 then 4 else 2 :: nat);
          bytes = n * of_nat w
      in is\<lparr>contents := memmove (w * unat to) (w * unat from) (unat bytes) (contents is)\<rparr>)"

definition intsetAdd :: "intset \<Rightarrow> int \<Rightarrow> intset \<times> bool" where
  "intsetAdd is value =
     (let valenc = intsetValueEncoding value in
      if valenc > enc is then (intsetUpgradeAndAdd is value, True)
      else
        (case intsetSearch is value of
           (True, pos) \<Rightarrow> (is, False)
         | (False, pos) \<Rightarrow>
             (let is1 = intsetResize is (len is + 1);
                  is2 = (if pos < slen is1 then intsetMoveTail is1 (of_nat pos) (of_nat pos + 1) else is1);
                  is3 = intsetSet is2 pos value
              in (is3\<lparr>len := len is3 + 1\<rparr>, True))))"

definition intsetRemove :: "intset \<Rightarrow> int \<Rightarrow> intset \<times> bool" where
  "intsetRemove is value =
     (let valenc = intsetValueEncoding value in
      if valenc \<le> enc is then
        (case intsetSearch is value of
           (True, pos) \<Rightarrow>
             (let l = len is;
                  is1 = (if pos < unat (l - 1) then intsetMoveTail is (of_nat pos + 1) (of_nat pos) else is);
                  is2 = intsetResize is1 (l - 1)
              in (is2\<lparr>len := l - 1\<rparr>, True))
         | (False, pos) \<Rightarrow> (is, False))
      else (is, False))"

definition intsetFind :: "intset \<Rightarrow> int \<Rightarrow> bool" where
  "intsetFind is value = (intsetValueEncoding value \<le> enc is \<and> fst (intsetSearch is value))"

text \<open>\<^verbatim>\<open>intsetRandom\<close>: \<^verbatim>\<open>rand()\<close> is an argument; the assertion on an empty set is \<open>None\<close>.\<close>

definition intsetRandom :: "intset \<Rightarrow> nat \<Rightarrow> int option" where
  "intsetRandom is rnd = (if slen is = 0 then None else Some (intsetGetAt is (rnd mod slen is)))"

definition intsetGet :: "intset \<Rightarrow> u32 \<Rightarrow> int option" where
  "intsetGet is pos = (if pos < len is then Some (intsetGetAt is (unat pos)) else None)"

definition intsetLen :: "intset \<Rightarrow> u32" where
  "intsetLen is = len is"

definition intsetBlobLen :: "intset \<Rightarrow> nat" where
  "intsetBlobLen is = 8 + slen is * enc is"

text \<open>
  \<^verbatim>\<open>intsetValidateIntegrity\<close> looks at a raw buffer: the header of two little-endian 32-bit
  fields, then the contents. \<open>intset_of_blob\<close> is the cast of the buffer to \<^verbatim>\<open>intset *\<close>.
\<close>

definition intset_of_blob :: "byte list \<Rightarrow> intset" where
  "intset_of_blob p =
     \<lparr>encoding = word_of_int (get_le (read_at 0 4 p)), len = word_of_int (get_le (read_at 4 4 p)),
      contents = drop 8 p\<rparr>"

definition intset_to_blob :: "intset \<Rightarrow> byte list" where
  "intset_to_blob is = put_le 4 (uint (encoding is)) @ put_le 4 (uint (len is)) @ contents is"

fun intset_records_ok :: "intset \<Rightarrow> nat \<Rightarrow> nat \<Rightarrow> int \<Rightarrow> bool" where
  "intset_records_ok is i 0 prev = True"
| "intset_records_ok is i (Suc n) prev =
     (let cr = intsetGetAt is i in
      if cr \<le> prev then False else intset_records_ok is (Suc i) n cr)"

definition intsetValidateIntegrity :: "byte list \<Rightarrow> bool \<Rightarrow> bool" where
  "intsetValidateIntegrity p deep =
     (if length p < 8 then False
      else
        (let is = intset_of_blob p; e = enc is; count = slen is in
         if e \<noteq> INTSET_ENC_INT64 \<and> e \<noteq> INTSET_ENC_INT32 \<and> e \<noteq> INTSET_ENC_INT16 then False
         else if 8 + count * e \<noteq> length p then False
         else if count = 0 then False
         else if \<not> deep then True
         else intset_records_ok is 1 (count - 1) (intsetGetAt is 0)))"

section \<open>Invariant and abstraction\<close>

definition enc_ok :: "nat \<Rightarrow> bool" where
  "enc_ok e \<longleftrightarrow> e = 2 \<or> e = 4 \<or> e = 8"

definition fits :: "nat \<Rightarrow> int \<Rightarrow> bool" where
  "fits e v \<longleftrightarrow> - (2 ^ (8 * e - 1)) \<le> v \<and> v < 2 ^ (8 * e - 1)"

text \<open>The elements in array order.\<close>

definition elems :: "intset \<Rightarrow> int list" where
  "elems is = map (intsetGetAt is) [0..<slen is]"

text \<open>
  The bound on the length is the one that \<open>intsetMoveTail\<close> needs: its byte count has 32 bits, and
  an element may have 8 bytes.
\<close>

definition intset_ok :: "intset \<Rightarrow> bool" where
  "intset_ok is \<longleftrightarrow>
     enc_ok (enc is) \<and> length (contents is) = enc is * slen is \<and> slen is < 2 ^ 29 \<and> ssorted (elems is)"

definition intset_room :: "intset \<Rightarrow> bool" where
  "intset_room is \<longleftrightarrow> slen is + 1 < 2 ^ 29"

lemma length_elems [simp]: "length (elems is) = slen is"
  by (simp add: elems_def)

lemma nth_elems [simp]: "i < slen is \<Longrightarrow> elems is ! i = intsetGetAt is i"
  by (simp add: elems_def)

lemma intset_okD:
  assumes "intset_ok is"
  shows "enc_ok (enc is)" "length (contents is) = enc is * slen is" "slen is < 2 ^ 29"
    "ssorted (elems is)"
  using assms by (simp_all add: intset_ok_def)

section \<open>Loads and stores\<close>

declare of_nat_unat [simp del]

lemma intsetGetEncoded_eq:
  "enc_ok e \<Longrightarrow> intsetGetEncoded is pos e = as_signed (8 * e) (get_le (read_at (e * pos) e (contents is)))"
  by (auto simp: enc_ok_def intsetGetEncoded_def intset_encs)

lemma intsetGetAt_eq:
  "enc_ok (enc is) \<Longrightarrow>
   intsetGetAt is pos = as_signed (8 * enc is) (get_le (read_at (enc is * pos) (enc is) (contents is)))"
  by (simp add: intsetGetAt_def intsetGetEncoded_eq)

lemma intsetSet_eq:
  "enc_ok (enc is) \<Longrightarrow>
   intsetSet is pos v = is\<lparr>contents := write_at (enc is * pos) (put_le (enc is) v) (contents is)\<rparr>"
  by (auto simp: enc_ok_def intsetSet_def intset_encs)

lemma intsetSet_fields [simp]:
  "encoding (intsetSet is pos v) = encoding is" "len (intsetSet is pos v) = len is"
  by (simp_all add: intsetSet_def)

lemma slot_within: "i < (c::nat) \<Longrightarrow> e * i + e \<le> e * c"
proof -
  assume "i < c"
  then have "e * Suc i \<le> e * c" by (intro mult_le_mono) auto
  then show ?thesis by simp
qed

lemma length_intsetSet [simp]:
  assumes "enc_ok (enc is)" "length (contents is) = enc is * c" "pos < c"
  shows "length (contents (intsetSet is pos v)) = enc is * c"
  using assms slot_within [of pos c "enc is"] by (simp add: intsetSet_eq buf_simps)

lemma as_signed_fits:
  assumes "enc_ok e" "length bs = e"
  shows "fits e (as_signed (8 * e) (get_le bs))"
  using assms get_le_bounds [of bs] by (auto simp: enc_ok_def fits_def as_signed_def)

lemma intsetGetEncoded_fits:
  assumes "enc_ok e" "e * pos + e \<le> length (contents is)"
  shows "fits e (intsetGetEncoded is pos e)"
  using assms by (simp add: intsetGetEncoded_eq as_signed_fits length_read_at)

lemma intsetGetAt_fits:
  assumes "enc_ok (enc is)" "length (contents is) = enc is * c" "pos < c"
  shows "fits (enc is) (intsetGetAt is pos)"
  using assms slot_within [of pos c "enc is"] by (simp add: intsetGetAt_def intsetGetEncoded_fits)

lemma get_set_same:
  assumes "enc_ok (enc is)" "length (contents is) = enc is * c" "pos < c" "fits (enc is) v"
  shows "intsetGetAt (intsetSet is pos v) pos = v"
proof -
  have "0 < enc is" using assms(1) by (auto simp: enc_ok_def)
  then show ?thesis
    using assms slot_within [of pos c "enc is"] signed_get_put_le [of "enc is" v]
    by (simp add: intsetGetAt_eq intsetSet_eq read_write_same fits_def)
qed

lemma slot_disjoint: "i \<noteq> j \<Longrightarrow> e * i + e \<le> e * j \<or> e * j + e \<le> e * (i::nat)"
  using slot_within [of i j e] slot_within [of j i e] by (cases i j rule: linorder_cases) auto

lemma get_set_other:
  assumes "enc_ok (enc is)" "length (contents is) = enc is * c" "pos < c" "i < c" "i \<noteq> pos"
  shows "intsetGetAt (intsetSet is pos v) i = intsetGetAt is i"
proof -
  have "read_at (enc is * i) (enc is) (write_at (enc is * pos) (put_le (enc is) v) (contents is))
      = read_at (enc is * i) (enc is) (contents is)"
    using slot_within [of pos c "enc is"] slot_within [of i c "enc is"]
      slot_disjoint [of i pos "enc is"] assms
    by (intro read_write_other) auto
  then show ?thesis using assms(1) by (simp add: intsetGetAt_eq intsetSet_eq)
qed

section \<open>Binary search\<close>

text \<open>The overflow-safe midpoint: in the unsigned sum of two non-negative \<^verbatim>\<open>int\<close>s nothing is lost.\<close>

lemma intsetSearch_mid_eq:
  assumes "0 \<le> a" "a \<le> b" "b < 2 ^ 31"
  shows "intsetSearch_mid a b = (a + b) div 2"
proof -
  let ?w = "word_of_int a + word_of_int b :: u32"
  have s: "uint ?w = a + b"
    using assms by (simp add: uint_word_ariths uint_word_of_int)
  have u: "unat (drop_bit 1 ?w) = nat ((a + b) div 2)"
  proof -
    have "unat ?w = nat (a + b)" using s by (simp only: unat_eq_nat_uint)
    then have "drop_bit 1 (unat ?w) = nat ((a + b) div 2)"
      using assms by (simp add: drop_bit_eq_div nat_div_distrib)
    then show ?thesis by (simp only: unat_drop_bit_eq)
  qed
  then have "unat (drop_bit 1 ?w) < 2 ^ 31" using assms by simp
  with u show ?thesis
    unfolding intsetSearch_mid_def using assms by (simp add: sint_small_32)
qed

lemma sint_len_minus_1:
  assumes "0 < slen is" "slen is < 2 ^ 29"
  shows "sint (len is - 1) = int (slen is) - 1"
proof -
  have "unat (len is - 1) = slen is - 1" using assms(1) by (intro unat_minus_one) auto
  then show ?thesis using assms sint_small_32 [of "len is - 1"] by simp
qed

text \<open>
  What is known of the loop at any time: the value lies strictly between the elements left of
  \<open>mn\<close> and those right of \<open>mx\<close>.
\<close>

definition search_inv :: "intset \<Rightarrow> int \<Rightarrow> search_state \<Rightarrow> bool" where
  "search_inv is v s \<longleftrightarrow>
     0 \<le> mn s \<and> mn s \<le> int (slen is) \<and> - 1 \<le> mx s \<and> mx s < int (slen is) \<and>
     (\<forall>i < nat (mn s). elems is ! i < v) \<and>
     (\<forall>i. mx s < int i \<and> i < slen is \<longrightarrow> v < elems is ! i) \<and>
     (if brk s then cur s = v \<and> 0 \<le> mid s \<and> mid s < int (slen is) \<and> elems is ! nat (mid s) = v
      else mn s \<le> mx s + 1 \<and> (cur s = v \<longrightarrow> mn s = 0 \<and> mx s = int (slen is) - 1))"

lemma search_inv_right:
  assumes "search_inv is v s" "\<not> brk s" "mn s \<le> m" "m \<le> mx s" "\<forall>i < nat (m + 1). elems is ! i < v" "c \<noteq> v"
  shows "search_inv is v (s\<lparr>mid := m, cur := c, mn := m + 1\<rparr>)"
  using assms unfolding search_inv_def by simp

lemma search_inv_left:
  assumes "search_inv is v s" "\<not> brk s" "mn s \<le> m" "m \<le> mx s"
    "\<forall>i. m - 1 < int i \<and> i < slen is \<longrightarrow> v < elems is ! i" "c \<noteq> v"
  shows "search_inv is v (s\<lparr>mid := m, cur := c, mx := m - 1\<rparr>)"
  using assms unfolding search_inv_def by simp

lemma search_inv_found:
  assumes "search_inv is v s" "\<not> brk s" "mn s \<le> m" "m \<le> mx s" "elems is ! nat m = v"
  shows "search_inv is v (s\<lparr>mid := m, cur := v, brk := True\<rparr>)"
  using assms unfolding search_inv_def by simp

lemma search_inv_body:
  assumes ok: "intset_ok is" and inv: "search_inv is v s" and guard: "mn s \<le> mx s" "\<not> brk s"
  defines "s' \<equiv> intsetSearch_body is v s"
  shows "search_inv is v s' \<and> (brk s' \<or> mx s' - mn s' < mx s - mn s)"
proof -
  define m where "m = (mn s + mx s) div 2"
  have b: "0 \<le> mn s" "mx s < int (slen is)" "slen is < 2 ^ 29"
    using inv intset_okD [OF ok] by (auto simp: search_inv_def)
  then have m: "intsetSearch_mid (mn s) (mx s) = m"
    unfolding m_def using guard by (intro intsetSearch_mid_eq) auto
  have r: "mn s \<le> m" "m \<le> mx s" using guard by (auto simp: m_def)
  then have mi: "nat m < slen is" using b by linarith
  have sorted: "elems is ! i < elems is ! j" if "i < j" "j < slen is" for i j
    using that by (intro sorted_wrt_nth_less [OF intset_okD(4) [OF ok]]) auto
  consider (less) "elems is ! nat m < v" | (equal) "elems is ! nat m = v" | (greater) "v < elems is ! nat m"
    by linarith
  then show ?thesis
  proof cases
    case less
    have "elems is ! i < v" if "i < nat (m + 1)" for i
    proof (cases "i = nat m")
      case False
      then have "i < nat m" using that by linarith
      then show ?thesis using less sorted [of i "nat m"] mi by simp
    qed (use less in simp)
    moreover have "s' = s\<lparr>mid := m, cur := elems is ! nat m, mn := m + 1\<rparr>"
      using less mi by (simp add: s'_def intsetSearch_body_def m Let_def)
    ultimately show ?thesis
      using search_inv_right [OF inv guard(2) r, of "elems is ! nat m"] less r by simp
  next
    case equal
    then have "s' = s\<lparr>mid := m, cur := v, brk := True\<rparr>"
      using mi by (simp add: s'_def intsetSearch_body_def m Let_def)
    then show ?thesis using search_inv_found [OF inv guard(2) r equal] by simp
  next
    case greater
    have "v < elems is ! i" if "m - 1 < int i" "i < slen is" for i
    proof (cases "i = nat m")
      case False
      then have "nat m < i" using that by linarith
      then show ?thesis using greater sorted [of "nat m" i] that by simp
    qed (use greater in simp)
    moreover have "s' = s\<lparr>mid := m, cur := elems is ! nat m, mx := m - 1\<rparr>"
      using greater mi by (simp add: s'_def intsetSearch_body_def m Let_def)
    ultimately show ?thesis
      using search_inv_left [OF inv guard(2) r, of "elems is ! nat m"] greater r by simp
  qed
qed

lemma intsetSearch_loop_spec:
  assumes ok: "intset_ok is" and "search_inv is v s"
  defines "s' \<equiv> intsetSearch_loop is v s"
  shows "search_inv is v s' \<and> \<not> (mn s' \<le> mx s' \<and> \<not> brk s')"
  unfolding s'_def intsetSearch_loop_def
proof (rule while_rule [where P = "search_inv is v"
      and r = "measure (\<lambda>s. if brk s then 0 else nat (mx s - mn s + 2))"])
  show "wf (measure (\<lambda>s. if brk s then 0 else nat (mx s - mn s + 2)))" by simp
next
  fix s assume s: "search_inv is v s" "mn s \<le> mx s \<and> \<not> brk s"
  then have "brk (intsetSearch_body is v s) \<or>
      mx (intsetSearch_body is v s) - mn (intsetSearch_body is v s) < mx s - mn s"
    using search_inv_body [OF ok s(1)] by blast
  then show "(intsetSearch_body is v s, s) \<in> measure (\<lambda>s. if brk s then 0 else nat (mx s - mn s + 2))"
    using s by auto
qed (use assms(2) search_inv_body [OF ok] in auto)

text \<open>
  The contract of \<^verbatim>\<open>intsetSearch\<close>, found or not: the position of the value, or the position at
  which it keeps the array sorted.
\<close>

definition search_result :: "intset \<Rightarrow> int \<Rightarrow> bool \<times> nat \<Rightarrow> bool" where
  "search_result is v r \<longleftrightarrow>
     (if fst r then snd r < slen is \<and> elems is ! snd r = v
      else snd r \<le> slen is \<and> (\<forall>i < snd r. elems is ! i < v) \<and>
           (\<forall>i. snd r \<le> i \<and> i < slen is \<longrightarrow> v < elems is ! i))"

lemma intsetSearch_spec:
  assumes ok: "intset_ok is"
  shows "search_result is v (intsetSearch is v)"
proof (cases "len is = 0")
  case True
  then show ?thesis by (simp add: intsetSearch_def search_result_def)
next
  case False
  then have pos: "0 < slen is" by (simp add: unat_gt_0)
  have mx0: "sint (len is - 1) = int (slen is) - 1"
    using pos intset_okD(3) [OF ok] by (rule sint_len_minus_1)
  have sorted: "elems is ! i < elems is ! j" if "i < j" "j < slen is" for i j
    using that by (intro sorted_wrt_nth_less [OF intset_okD(4) [OF ok]]) auto
  let ?s0 = "\<lparr>mn = 0, mx = int (slen is) - 1, mid = - 1, cur = - 1, brk = False\<rparr>"
  consider (above) "intsetGetAt is (slen is - 1) < v" | (below) "\<not> intsetGetAt is (slen is - 1) < v" "v < intsetGetAt is 0"
    | (inside) "\<not> intsetGetAt is (slen is - 1) < v" "\<not> v < intsetGetAt is 0" by blast
  then show ?thesis
  proof cases
    case above
    have "elems is ! i < v" if "i < slen is" for i
    proof (cases "i = slen is - 1")
      case False
      then have "i < slen is - 1" using that by linarith
      then show ?thesis using above sorted [of i "slen is - 1"] pos by simp
    qed (use above that in simp)
    with above False show ?thesis
      by (simp add: intsetSearch_def search_result_def mx0 nat_diff_distrib')
  next
    case below
    have "v < elems is ! i" if "i < slen is" for i
      using below sorted [of 0 i] that by (cases "i = 0") auto
    with below False show ?thesis
      by (simp add: intsetSearch_def search_result_def mx0 nat_diff_distrib')
  next
    case inside
    define s where "s = intsetSearch_loop is v ?s0"
    have "search_inv is v ?s0" by (simp add: search_inv_def)
    from intsetSearch_loop_spec [OF ok this, folded s_def]
    have inv: "search_inv is v s" and stop: "mx s < mn s \<or> brk s" by (blast, force)
    have r: "intsetSearch is v = (if v = cur s then (True, nat (mid s)) else (False, nat (mn s)))"
      using inside False by (simp add: intsetSearch_def mx0 nat_diff_distrib' Let_def s_def)
    show ?thesis
    proof (cases "brk s")
      case True
      then have "cur s = v" "nat (mid s) < slen is" "elems is ! nat (mid s) = v"
        using inv by (simp_all add: search_inv_def nat_less_iff)
      then show ?thesis by (simp add: r search_result_def)
    next
      case False
      then have mn: "mn s = mx s + 1" using inv stop by (simp add: search_inv_def)
      then have "cur s \<noteq> v" using inv False pos by (auto simp: search_inv_def)
      moreover have "v < elems is ! i" if "nat (mn s) \<le> i" "i < slen is" for i
        using that inv mn by (auto simp: search_inv_def)
      ultimately show ?thesis using inv by (auto simp: r search_result_def search_inv_def)
    qed
  qed
qed

section \<open>Insertion and removal\<close>

lemma valenc_ok: "enc_ok (intsetValueEncoding v)"
  by (simp add: intsetValueEncoding_def enc_ok_def intset_encs)

lemma valenc_le_iff:
  assumes "enc_ok e" "is_int64 v"
  shows "intsetValueEncoding v \<le> e \<longleftrightarrow> fits e v"
  using assms
  by (auto simp: intsetValueEncoding_def enc_ok_def intset_encs fits_def is_int64_def int_ranges)

lemma valenc_fits: "is_int64 v \<Longrightarrow> fits (intsetValueEncoding v) v"
  using valenc_le_iff [OF valenc_ok] by blast

lemma valenc_u32 [simp]: "unat (of_nat (intsetValueEncoding v) :: u32) = intsetValueEncoding v"
  by (simp add: intsetValueEncoding_def intset_encs)

lemma elems_eqI:
  "slen is = length xs \<Longrightarrow> (\<And>i. i < length xs \<Longrightarrow> intsetGetAt is i = xs ! i) \<Longrightarrow> elems is = xs"
  by (rule nth_equalityI) auto

lemma intsetGetAt_cong:
  "encoding is' = encoding is \<Longrightarrow> contents is' = contents is \<Longrightarrow> intsetGetAt is' = intsetGetAt is"
  by (rule ext) (simp add: intsetGetAt_def intsetGetEncoded_def)

lemma intsetGetAt_len [simp]: "intsetGetAt (is\<lparr>len := l\<rparr>) = intsetGetAt is"
  by (rule intsetGetAt_cong) simp_all

lemma intsetResize_fields [simp]:
  "encoding (intsetResize is l) = encoding is" "len (intsetResize is l) = len is"
  "length (contents (intsetResize is l)) = unat l * enc is"
  by (simp_all add: intsetResize_def buf_simps)

lemma get_resize:
  assumes "enc_ok (enc is)" "length (contents is) = enc is * c" "i < c" "i < unat l"
  shows "intsetGetAt (intsetResize is l) i = intsetGetAt is i"
  using assms slot_within [of i c "enc is"] slot_within [of i "unat l" "enc is"]
  by (simp add: intsetGetAt_eq) (simp add: intsetResize_def read_zrealloc mult.commute)

lemma intsetMoveTail_fields [simp]:
  "encoding (intsetMoveTail is from to) = encoding is" "len (intsetMoveTail is from to) = len is"
  by (simp_all add: intsetMoveTail_def Let_def)

text \<open>The byte count is kept in 32 bits: of a tail that is too long only a part is moved.\<close>

definition moved :: "intset \<Rightarrow> u32 \<Rightarrow> nat" where
  "moved is from = (slen is - unat from) mod (2 ^ 32 div enc is)"

lemma intsetMoveTail_wrap:
  assumes "enc_ok (enc is)" "unat from \<le> slen is"
  shows "intsetMoveTail is from to =
    is\<lparr>contents := memmove (enc is * unat to) (enc is * unat from) (enc is * moved is from) (contents is)\<rparr>"
proof -
  have d: "unat (len is - from) = slen is - unat from"
    using assms(2) by (simp add: unat_sub word_le_nat_alt)
  have "unat ((len is - from) * of_nat w) = w * ((slen is - unat from) mod (2 ^ 32 div w))" if "w \<in> {2, 4, 8}" for w
  proof -
    have "unat (of_nat w :: u32) = w" using that by (auto simp: unat_of_nat)
    then have "unat ((len is - from) * of_nat w) = (w * (slen is - unat from)) mod 2 ^ 32"
      by (simp add: unat_word_ariths d mult.commute)
    moreover have "w * (2 ^ 32 div w) = 2 ^ 32" using that by auto
    ultimately show ?thesis by (simp only: mult_mod_right)
  qed
  then show ?thesis using assms(1)
    by (auto simp: intsetMoveTail_def enc_ok_def intset_encs Let_def moved_def)
qed

lemma moved_small: "enc_ok (enc is) \<Longrightarrow> slen is < 2 ^ 29 \<Longrightarrow> moved is from = slen is - unat from"
  by (auto simp: moved_def enc_ok_def intset_encs)

lemma intsetMoveTail_eq:
  assumes "enc_ok (enc is)" "unat from \<le> slen is" "slen is < 2 ^ 29"
  shows "intsetMoveTail is from to =
    is\<lparr>contents := memmove (enc is * unat to) (enc is * unat from) (enc is * (slen is - unat from)) (contents is)\<rparr>"
  using intsetMoveTail_wrap [OF assms(1,2)] moved_small [OF assms(1,3)] by simp

lemma length_moveTail [simp]:
  assumes "enc_ok (enc is)" "length (contents is) = enc is * c" "slen is \<le> c" "slen is < 2 ^ 29"
    and "unat from \<le> slen is" "unat to + (slen is - unat from) \<le> c"
  shows "length (contents (intsetMoveTail is from to)) = enc is * c"
proof -
  have "enc is * unat from + enc is * (slen is - unat from) \<le> enc is * c"
    "enc is * unat to + enc is * (slen is - unat from) \<le> enc is * c"
    using assms by (simp_all flip: distrib_left)
  then show ?thesis using assms by (simp add: intsetMoveTail_eq buf_simps)
qed

lemma get_moved:
  assumes "enc_ok (enc is)" "length (contents is) = enc is * c" "slen is \<le> c"
    and "unat from \<le> slen is" "unat to + (slen is - unat from) \<le> c" "i < c"
  shows "intsetGetAt (intsetMoveTail is from to) i =
    (if unat to \<le> i \<and> i < unat to + moved is from
     then intsetGetAt is (unat from + (i - unat to)) else intsetGetAt is i)"
proof -
  let ?e = "enc is" and ?n = "moved is from"
  let ?mv = "memmove (?e * unat to) (?e * unat from) (?e * ?n) (contents is)"
  have "?n \<le> slen is - unat from" by (simp add: moved_def)
  then have n: "unat from + ?n \<le> c" "unat to + ?n \<le> c" using assms by simp_all
  have bounds: "?e * unat from + ?e * ?n \<le> length (contents is)" "?e * unat to + ?e * ?n \<le> length (contents is)"
    "?e * i + ?e \<le> length (contents is)"
    using assms n slot_within [of i c ?e] by (simp_all flip: distrib_left)
  have "read_at (?e * i) ?e ?mv =
      read_at (?e * (if unat to \<le> i \<and> i < unat to + ?n then unat from + (i - unat to) else i)) ?e (contents is)"
  proof (cases "unat to \<le> i \<and> i < unat to + ?n")
    case True
    then have "?e * i + ?e \<le> ?e * unat to + ?e * ?n"
      using slot_within [of i "unat to + ?n" ?e] by (simp add: distrib_left)
    moreover have "?e * unat from + (?e * i - ?e * unat to) = ?e * (unat from + (i - unat to))"
      by (simp add: distrib_left right_diff_distrib')
    ultimately show ?thesis
      using True read_memmove [OF bounds(1,2), of "?e * i" ?e] by simp
  next
    case False
    then have "?e * i + ?e \<le> ?e * unat to \<or> ?e * unat to + ?e * ?n \<le> ?e * i"
      using slot_within [of i "unat to" ?e] mult_le_mono [of ?e ?e "unat to + ?n" i]
      by (auto simp: distrib_left)
    with False show ?thesis using read_memmove_other [OF bounds(1,2,3)] by auto
  qed
  then show ?thesis
    using assms(1,4) by (simp add: intsetGetAt_eq intsetMoveTail_wrap)
qed

lemma get_moveTail:
  assumes "enc_ok (enc is)" "length (contents is) = enc is * c" "slen is \<le> c" "slen is < 2 ^ 29"
    and "unat from \<le> slen is" "unat to + (slen is - unat from) \<le> c" "i < c"
  shows "intsetGetAt (intsetMoveTail is from to) i =
    (if unat to \<le> i \<and> i < unat to + (slen is - unat from)
     then intsetGetAt is (unat from + (i - unat to)) else intsetGetAt is i)"
  using get_moved [OF assms(1-3,5-7)] moved_small [OF assms(1,4)] by simp

text \<open>Insertion without a change of encoding: the tail moves up by one slot.\<close>

lemma intsetAdd_insert:
  assumes ok: "intset_ok is" and room: "intset_room is" and v: "fits (enc is) v" "intsetValueEncoding v \<le> enc is"
    and srch: "intsetSearch is v = (False, pos)"
  defines "is' \<equiv> fst (intsetAdd is v)"
  shows "encoding is' = encoding is \<and> length (contents is') = enc is * slen is' \<and>
    elems is' = take pos (elems is) @ v # drop pos (elems is)"
proof -
  let ?e = "enc is" and ?l = "slen is"
  note okD = intset_okD [OF ok]
  have pos: "pos \<le> ?l" using intsetSearch_spec [OF ok, of v] srch by (simp add: search_result_def)
  have l1: "unat (len is + 1) = ?l + 1" using room by (intro unat_add_1_32) (simp add: intset_room_def)
  have p: "unat (of_nat pos :: u32) = pos" using pos okD(3) by (simp add: unat_of_nat)
  have p1: "unat (of_nat pos + 1 :: u32) = pos + 1"
    using p pos okD(3) unat_add_1_32 [of "of_nat pos"] by simp
  define is1 where "is1 = intsetResize is (len is + 1)"
  define is2 where "is2 = (if pos < slen is1 then intsetMoveTail is1 (of_nat pos) (of_nat pos + 1) else is1)"
  have f1: "encoding is1 = encoding is" "len is1 = len is" "length (contents is1) = ?e * (?l + 1)"
    by (simp_all add: is1_def l1 mult.commute)
  have g1: "intsetGetAt is1 i = elems is ! i" if "i < ?l" for i
    using that get_resize [OF okD(1,2), of i "len is + 1"] l1 by (simp add: is1_def)
  have f2: "encoding is2 = encoding is" "len is2 = len is" "length (contents is2) = ?e * (?l + 1)"
    using length_moveTail [of is1 "?l + 1" "of_nat pos" "of_nat pos + 1"] okD f1 p p1
    by (auto simp: is2_def)
  have g2: "intsetGetAt is2 i = (if i < pos then elems is ! i else elems is ! (i - 1))"
    if "i < ?l + 1" "i \<noteq> pos" for i
    using get_moveTail [of is1 "?l + 1" "of_nat pos" "of_nat pos + 1" i] okD f1 p p1 g1 that pos
    by (auto simp: is2_def)
  have is': "is' = (intsetSet is2 pos v)\<lparr>len := len is + 1\<rparr>"
    using v(2) srch f2(2) by (simp add: is'_def intsetAdd_def Let_def is1_def is2_def)
  have g: "intsetGetAt is' i = (take pos (elems is) @ v # drop pos (elems is)) ! i" if i: "i < ?l + 1" for i
  proof (cases "i = pos")
    case True
    then have "intsetGetAt is' i = v"
      using get_set_same [of is2 "?l + 1" pos v] f2 okD(1) v(1) pos by (simp add: is')
    then show ?thesis using True pos by (simp add: nth_append)
  next
    case False
    then have "intsetGetAt is' i = intsetGetAt is2 i"
      using get_set_other [of is2 "?l + 1" pos i v] f2 okD(1) pos i by (simp add: is')
    also have "\<dots> = (if i < pos then elems is ! i else elems is ! (i - 1))" using g2 i False by simp
    also have "\<dots> = (take pos (elems is) @ v # drop pos (elems is)) ! i"
      using False pos i by (subst nth_insert_at) auto
    finally show ?thesis .
  qed
  have "elems is' = take pos (elems is) @ v # drop pos (elems is)"
    using g pos l1 by (intro elems_eqI) (simp_all add: is')
  moreover have "length (contents is') = ?e * slen is'"
    using length_intsetSet [of is2 "?l + 1" pos v] f2 okD(1) pos l1 by (simp add: is')
  ultimately show ?thesis using f2 by (simp add: is')
qed

text \<open>
  The upgrade loop: element \<open>i\<close> is read in the old encoding and lands, unchanged, in slot
  \<open>i + prepend\<close> of the new one. Going from the back, no unread element is overwritten.
\<close>

lemma intsetUpgrade_loop_spec:
  assumes "enc_ok ce" "enc_ok (enc is)" "ce \<le> enc is" "length (contents is) = enc is * c" "l + pre \<le> c"
    and "\<forall>i < l. fits (enc is) (intsetGetEncoded is i ce)"
  shows "encoding (intsetUpgrade_loop is ce pre l) = encoding is \<and>
    len (intsetUpgrade_loop is ce pre l) = len is \<and>
    length (contents (intsetUpgrade_loop is ce pre l)) = enc is * c \<and>
    (\<forall>i < l. intsetGetAt (intsetUpgrade_loop is ce pre l) (i + pre) = intsetGetEncoded is i ce) \<and>
    (\<forall>j. l + pre \<le> j \<and> j < c \<longrightarrow> intsetGetAt (intsetUpgrade_loop is ce pre l) j = intsetGetAt is j)"
  using assms
proof (induction l arbitrary: "is")
  case 0
  then show ?case by simp
next
  case (Suc l)
  let ?e = "enc is" and ?v = "intsetGetEncoded is l ce"
  let ?s = "intsetSet is (l + pre) ?v"
  have slot: "l + pre < c" using Suc.prems(5) by simp
  have unread: "intsetGetEncoded ?s i ce = intsetGetEncoded is i ce" if "i < l" for i
  proof -
    have "ce * i + ce \<le> ?e * (l + pre)"
      using slot_within [OF that, of ce] mult_le_mono [OF Suc.prems(3), of l "l + pre"] by simp
    then show ?thesis using slot_within [OF slot, of ?e] slot_within [OF that, of ce] Suc.prems
      by (simp add: intsetGetEncoded_eq intsetSet_eq read_write_other)
  qed
  have same: "intsetGetAt ?s (l + pre) = ?v"
    using Suc.prems slot by (intro get_set_same) auto
  have other: "intsetGetAt ?s j = intsetGetAt is j" if "Suc l + pre \<le> j" "j < c" for j
    using Suc.prems slot that by (intro get_set_other) auto
  have len: "length (contents ?s) = ?e * c" using Suc.prems slot by simp
  have "\<forall>i < l. fits ?e (intsetGetEncoded ?s i ce)" using Suc.prems(6) unread by simp
  note IH = Suc.IH [of ?s, simplified, OF Suc.prems(1-3) len _ this]
  have "intsetGetAt (intsetUpgrade_loop ?s ce pre l) (i + pre) = intsetGetEncoded is i ce" if "i < Suc l" for i
    using IH slot same unread that by (cases "i = l") auto
  then show ?case using IH slot other by simp
qed

lemma intsetUpgradeAndAdd_spec:
  assumes ok: "intset_ok is" and room: "intset_room is" and v: "is_int64 v" "enc is < intsetValueEncoding v"
  defines "is' \<equiv> intsetUpgradeAndAdd is v"
  shows "enc is' = intsetValueEncoding v \<and> length (contents is') = enc is' * slen is' \<and>
    elems is' = (if v < 0 then v # elems is else elems is @ [v])"
proof -
  let ?l = "slen is" and ?ne = "intsetValueEncoding v"
  let ?pre = "if v < 0 then 1 else 0 :: nat"
  note okD = intset_okD [OF ok]
  have l1: "unat (len is + 1) = ?l + 1" using room by (intro unat_add_1_32) (simp add: intset_room_def)
  define is2 where "is2 = intsetResize (is\<lparr>encoding := of_nat ?ne\<rparr>) (len is + 1)"
  define is3 where "is3 = intsetUpgrade_loop is2 (enc is) ?pre ?l"
  have f2: "enc is2 = ?ne" "len is2 = len is" "length (contents is2) = ?ne * (?l + 1)"
    by (simp_all add: is2_def l1 mult.commute)
  have old: "intsetGetEncoded is2 i (enc is) = elems is ! i" if "i < ?l" for i
  proof -
    have "enc is * i + enc is \<le> enc is * ?l" "enc is * ?l \<le> ?ne * (?l + 1)"
      using slot_within [OF that] mult_le_mono [OF less_imp_le [OF v(2)], of ?l "?l + 1"] by auto
    then show ?thesis using okD(1,2) that l1
      by (simp add: is2_def intsetResize_def intsetGetAt_eq intsetGetEncoded_eq read_zrealloc mult.commute)
  qed
  have old_fits: "fits ?ne (elems is ! i)" if "i < ?l" for i
  proof -
    have "fits (enc is) (elems is ! i)" using that okD intsetGetAt_fits by simp
    then show ?thesis using okD(1) valenc_ok [of v] v(2) by (auto simp: fits_def enc_ok_def)
  qed
  have L: "encoding is3 = encoding is2 \<and> len is3 = len is2 \<and> length (contents is3) = ?ne * (?l + 1) \<and>
      (\<forall>i < ?l. intsetGetAt is3 (i + ?pre) = elems is ! i)"
    using intsetUpgrade_loop_spec [of "enc is" is2 "?l + 1" ?l ?pre] okD(1) valenc_ok [of v] f2 old old_fits v(2)
    by (simp add: is3_def)
  let ?p = "if v < 0 then 0 else ?l"
  have "is' = (intsetSet is3 (if v < 0 then 0 else slen is3) v)\<lparr>len := len is3 + 1\<rparr>"
    by (cases "v < 0") (simp_all add: is'_def intsetUpgradeAndAdd_def Let_def is2_def is3_def)
  then have is': "is' = (intsetSet is3 ?p v)\<lparr>len := len is + 1\<rparr>"
    using L f2(2) by presburger
  have e3: "enc is3 = ?ne" using L f2 by simp
  have at: "intsetGetAt is' ?p = v"
    using get_set_same [of is3 "?l + 1" ?p v] L e3 valenc_ok [of v] valenc_fits [OF v(1)] by (simp add: is')
  have rest: "intsetGetAt is' (i + ?pre) = elems is ! i" if "i < ?l" for i
    using get_set_other [of is3 "?l + 1" ?p "i + ?pre" v] L e3 valenc_ok [of v] that by (simp add: is')
  have "elems is' = (if v < 0 then v # elems is else elems is @ [v])"
  proof (cases "v < 0")
    case True
    then have "elems is' = v # elems is"
      using at rest l1 by (intro elems_eqI) (simp_all add: is' nth_Cons split: nat.split)
    then show ?thesis using True by simp
  next
    case False
    then have "elems is' = elems is @ [v]"
      using at rest l1 by (intro elems_eqI) (auto simp: is' nth_append less_Suc_eq)
    then show ?thesis using False by simp
  qed
  moreover have "length (contents is') = ?ne * slen is'"
    using length_intsetSet [of is3 "?l + 1" ?p v] L e3 valenc_ok [of v] l1 by (simp add: is')
  ultimately show ?thesis using e3 by (simp add: is')
qed

lemma intset_okI:
  "enc_ok (enc is) \<Longrightarrow> length (contents is) = enc is * slen is \<Longrightarrow> length (elems is) < 2 ^ 29 \<Longrightarrow>
   ssorted (elems is) \<Longrightarrow> intset_ok is"
  by (simp add: intset_ok_def)

lemma intsetSearch_cases:
  assumes "intset_ok is"
  obtains (found) pos where "intsetSearch is v = (True, pos)" "pos < slen is" "elems is ! pos = v" "v \<in> set (elems is)"
  | (missing) pos where "intsetSearch is v = (False, pos)" "pos \<le> slen is" "v \<notin> set (elems is)"
      "\<And>i. i < pos \<Longrightarrow> elems is ! i < v" "\<And>i. pos \<le> i \<Longrightarrow> i < slen is \<Longrightarrow> v < elems is ! i"
proof (cases "intsetSearch is v")
  case (Pair b pos)
  have r: "search_result is v (b, pos)" using intsetSearch_spec [OF assms, of v] Pair by simp
  show thesis
  proof (cases b)
    case True
    then show thesis using r Pair found [of pos] nth_mem [of pos "elems is"]
      by (auto simp: search_result_def)
  next
    case False
    then have lr: "pos \<le> slen is" "\<And>i. i < pos \<Longrightarrow> elems is ! i < v"
        "\<And>i. pos \<le> i \<Longrightarrow> i < slen is \<Longrightarrow> v < elems is ! i"
      using r by (auto simp: search_result_def)
    have "v \<notin> set (elems is)"
    proof
      assume "v \<in> set (elems is)"
      then obtain i where i: "i < slen is" "elems is ! i = v" unfolding in_set_conv_nth by auto
      then show False using lr(2,3) [of i] by (cases "i < pos") auto
    qed
    then show thesis using Pair False lr by (intro missing [of pos]) simp_all
  qed
qed

lemma elems_fit:
  assumes "intset_ok is" "x \<in> set (elems is)"
  shows "fits (enc is) x"
proof -
  obtain i where "i < slen is" "intsetGetAt is i = x"
    using assms(2) unfolding in_set_conv_nth by auto
  then show ?thesis using intsetGetAt_fits [OF intset_okD(1,2) [OF assms(1)]] by blast
qed

lemma not_fits_outside:
  assumes "\<not> fits e v" "fits e x"
  shows "if v < 0 then v < x else x < v"
proof -
  have "(0::int) < 2 ^ (8 * e - 1)" by simp
  with assms show ?thesis unfolding fits_def by (cases "v < 0") auto
qed

lemma intsetAdd_correct:
  assumes ok: "intset_ok is" and v: "is_int64 v" and room: "intset_room is"
  shows "intset_ok (fst (intsetAdd is v)) \<and> set (elems (fst (intsetAdd is v))) = insert v (set (elems is)) \<and>
    snd (intsetAdd is v) = (v \<notin> set (elems is))"
proof (cases "intsetValueEncoding v \<le> enc is")
  case False
  let ?is' = "intsetUpgradeAndAdd is v"
  have add: "intsetAdd is v = (?is', True)" using False by (simp add: intsetAdd_def)
  have nf: "\<not> fits (enc is) v" using False valenc_le_iff [OF intset_okD(1) [OF ok] v] by simp
  have out: "v < 0 \<Longrightarrow> \<forall>x \<in> set (elems is). v < x" "\<not> v < 0 \<Longrightarrow> \<forall>x \<in> set (elems is). x < v"
    using not_fits_outside [OF nf elems_fit [OF ok]] by (auto split: if_splits)
  have U: "enc ?is' = intsetValueEncoding v" "length (contents ?is') = enc ?is' * slen ?is'"
    "elems ?is' = (if v < 0 then v # elems is else elems is @ [v])"
    using intsetUpgradeAndAdd_spec [OF ok room v] False by auto
  have "ssorted (elems ?is')"
    unfolding U(3) using out intset_okD(4) [OF ok] by (cases "v < 0") (simp_all add: sorted_wrt_append)
  moreover have "length (elems ?is') < 2 ^ 29"
    using room unfolding U(3) intset_room_def by (cases "v < 0") simp_all
  ultimately have "intset_ok ?is'" using U valenc_ok [of v] by (intro intset_okI) simp_all
  moreover have "v \<notin> set (elems is)" using out by blast
  ultimately show ?thesis using U(3) by (auto simp: add)
next
  case True
  have f: "fits (enc is) v" using True valenc_le_iff [OF intset_okD(1) [OF ok] v] by simp
  show ?thesis
    using ok
  proof (cases rule: intsetSearch_cases [of "is" v])
    case (found pos)
    then show ?thesis using ok True by (auto simp: intsetAdd_def)
  next
    case (missing pos)
    let ?is' = "fst (intsetAdd is v)"
    have I: "encoding ?is' = encoding is" "length (contents ?is') = enc is * slen ?is'"
      "elems ?is' = take pos (elems is) @ v # drop pos (elems is)"
      using intsetAdd_insert [OF ok room f True missing(1)] by auto
    have "ssorted (elems ?is')"
      unfolding I(3) using missing intset_okD(4) [OF ok] by (intro ssorted_insert) auto
    moreover have "length (elems ?is') < 2 ^ 29"
      using room missing(2) unfolding I(3) by (simp add: intset_room_def)
    ultimately have "intset_ok ?is'" using I intset_okD(1) [OF ok] by (intro intset_okI) simp_all
    moreover have "snd (intsetAdd is v)" using missing(1) True by (simp add: intsetAdd_def Let_def)
    ultimately show ?thesis using missing(3) by (simp add: I(3) set_insert_at del: set_append)
  qed
qed

text \<open>Removal: the tail moves down over the removed slot.\<close>

lemma intsetRemove_delete:
  assumes ok: "intset_ok is" and v: "intsetValueEncoding v \<le> enc is"
    and srch: "intsetSearch is v = (True, pos)"
  defines "is' \<equiv> fst (intsetRemove is v)"
  shows "encoding is' = encoding is \<and> length (contents is') = enc is * slen is' \<and>
    elems is' = take pos (elems is) @ drop (Suc pos) (elems is)"
proof -
  let ?e = "enc is" and ?l = "slen is"
  note okD = intset_okD [OF ok]
  have pos: "pos < ?l" using intsetSearch_spec [OF ok, of v] srch by (simp add: search_result_def)
  then have l1: "unat (len is - 1) = ?l - 1" by (intro unat_minus_one) auto
  have p: "unat (of_nat pos :: u32) = pos" using pos okD(3) by (simp add: unat_of_nat)
  have p1: "unat (of_nat pos + 1 :: u32) = pos + 1"
    using p pos okD(3) unat_add_1_32 [of "of_nat pos"] by simp
  define is1 where "is1 = (if pos < unat (len is - 1) then intsetMoveTail is (of_nat pos + 1) (of_nat pos) else is)"
  have f1: "encoding is1 = encoding is" "len is1 = len is" "length (contents is1) = ?e * ?l"
    using length_moveTail [OF okD(1,2) _ okD(3), of "of_nat pos + 1" "of_nat pos"] okD(2) p p1 pos
    by (auto simp: is1_def)
  have g1: "intsetGetAt is1 i = (if i < pos then elems is ! i else elems is ! (i + 1))" if "i < ?l - 1" for i
    using get_moveTail [OF okD(1,2) _ okD(3), of "of_nat pos + 1" "of_nat pos" i] p p1 pos that l1
    by (auto simp: is1_def)
  have is': "is' = (intsetResize is1 (len is - 1))\<lparr>len := len is - 1\<rparr>"
    using v srch by (simp add: is'_def intsetRemove_def Let_def is1_def)
  have "intsetGetAt is' i = (take pos (elems is) @ drop (Suc pos) (elems is)) ! i" if "i < ?l - 1" for i
    using get_resize [of is1 ?l i "len is - 1"] f1 okD(1) g1 [OF that] that l1 pos
    by (subst nth_remove_at) (auto simp: is')
  then have "elems is' = take pos (elems is) @ drop (Suc pos) (elems is)"
    using pos l1 by (intro elems_eqI) (auto simp: is')
  then show ?thesis using f1 l1 by (simp add: is' mult.commute)
qed

lemma intsetRemove_correct:
  assumes ok: "intset_ok is" and v: "is_int64 v"
  shows "intset_ok (fst (intsetRemove is v)) \<and> set (elems (fst (intsetRemove is v))) = set (elems is) - {v} \<and>
    snd (intsetRemove is v) = (v \<in> set (elems is))"
proof (cases "intsetValueEncoding v \<le> enc is")
  case False
  then have "\<not> fits (enc is) v" using valenc_le_iff [OF intset_okD(1) [OF ok] v] by simp
  then have "v \<notin> set (elems is)" using elems_fit [OF ok] by blast
  then show ?thesis using ok False by (simp add: intsetRemove_def)
next
  case True
  show ?thesis
    using ok
  proof (cases rule: intsetSearch_cases [of "is" v])
    case (found pos)
    let ?is' = "fst (intsetRemove is v)"
    have R: "encoding ?is' = encoding is" "length (contents ?is') = enc is * slen ?is'"
      "elems ?is' = take pos (elems is) @ drop (Suc pos) (elems is)"
      using intsetRemove_delete [OF ok True found(1)] by auto
    have "ssorted (elems ?is')" unfolding R(3) using intset_okD(4) [OF ok] by (rule ssorted_remove)
    moreover have "length (elems ?is') < 2 ^ 29"
      using intset_okD(3) [OF ok] found(2) unfolding R(3) by simp
    ultimately have "intset_ok ?is'" using R intset_okD(1) [OF ok] by (intro intset_okI) simp_all
    moreover have "snd (intsetRemove is v)" using found(1) True by (simp add: intsetRemove_def Let_def)
    moreover have "set (elems ?is') = set (elems is) - {v}"
      unfolding R(3) using ssorted_distinct [OF intset_okD(4) [OF ok]] found(2,3) set_remove_at by fastforce
    ultimately show ?thesis using found(4) by simp
  next
    case (missing pos)
    then show ?thesis using ok True by (simp add: intsetRemove_def)
  qed
qed

lemma intsetFind_correct:
  assumes ok: "intset_ok is" and v: "is_int64 v"
  shows "intsetFind is v = (v \<in> set (elems is))"
proof (cases "intsetValueEncoding v \<le> enc is")
  case False
  then have "\<not> fits (enc is) v" using valenc_le_iff [OF intset_okD(1) [OF ok] v] by simp
  then have "v \<notin> set (elems is)" using elems_fit [OF ok] by blast
  then show ?thesis using False by (simp add: intsetFind_def)
next
  case True
  from ok show ?thesis
    by (cases rule: intsetSearch_cases [of "is" v]) (use True in \<open>simp_all add: intsetFind_def\<close>)
qed

lemma intset_ok_new: "intset_ok intsetNew" "elems intsetNew = []"
  by (simp_all add: intset_ok_def intsetNew_def enc_ok_def elems_def intset_encs)

lemma card_elems: "intset_ok is \<Longrightarrow> card (set (elems is)) = slen is"
  using distinct_card [OF ssorted_distinct [OF intset_okD(4)]] by simp

section \<open>The integer set as a set\<close>

interpretation ints: set_impl intsetNew intsetAdd intsetRemove "\<lambda>is v. (is, intsetFind is v)"
  "\<lambda>is. unat (intsetLen is)" intset_ok "\<lambda>is. set (elems is)" is_int64 "2 ^ 29 - 1"
proof (unfold_locales, goal_cases)
  case 1
  then show ?case by (rule intset_ok_new)
next
  case 2
  then show ?case by (simp add: intset_ok_new)
next
  case (3 s)
  then show ?case by simp
next
  case (4 s x)
  then show ?case using intsetAdd_correct [of s x] by (simp add: card_elems intset_room_def)
next
  case (5 s x)
  then show ?case by (intro intsetRemove_correct)
next
  case (6 s x)
  then show ?case by (simp add: intsetFind_correct)
next
  case (7 s)
  then show ?case by (simp add: card_elems intsetLen_def)
qed

section \<open>Serialised integer sets\<close>

lemma intset_records_ok_iff:
  "intset_records_ok is i n prev \<longleftrightarrow> ssorted (prev # map (intsetGetAt is) [i..<i + n])"
proof (induction n arbitrary: i prev)
  case 0
  then show ?case by simp
next
  case (Suc n)
  have "[i..<i + Suc n] = i # [Suc i..<Suc i + n]" by (simp add: upt_rec)
  moreover have "ssorted (prev # y # zs) \<longleftrightarrow> prev < y \<and> ssorted (y # zs)" for y :: int and zs
    by (rule sorted_wrt2) (auto simp: transp_def)
  ultimately show ?case using Suc [of "Suc i"] by (auto simp: Let_def)
qed

lemma elems_Cons: "0 < slen is \<Longrightarrow> elems is = intsetGetAt is 0 # map (intsetGetAt is) [1..<1 + (slen is - 1)]"
  by (simp add: elems_def upt_rec)

lemma validate_iff:
  "intsetValidateIntegrity p True \<longleftrightarrow>
     8 \<le> length p \<and> enc_ok (enc (intset_of_blob p)) \<and>
     length p = 8 + slen (intset_of_blob p) * enc (intset_of_blob p) \<and>
     0 < slen (intset_of_blob p) \<and> ssorted (elems (intset_of_blob p))"
  using elems_Cons [of "intset_of_blob p"]
  by (auto simp: intsetValidateIntegrity_def Let_def enc_ok_def intset_encs intset_records_ok_iff)

lemma intset_of_to_blob: "intset_of_blob (intset_to_blob is) = is"
proof -
  have "uint w mod 256 ^ 4 = uint w" for w :: u32 using uint_lt2p [of w] by simp
  then show ?thesis
    by (simp add: intset_of_blob_def intset_to_blob_def read_at_def get_put_le)
qed

lemma length_intset_to_blob: "length (intset_to_blob is) = 8 + length (contents is)"
  by (simp add: intset_to_blob_def)

section \<open>Properties\<close>

text \<open>
  Claim C7. Any sequence of \<^verbatim>\<open>intsetAdd\<close>, \<^verbatim>\<open>intsetRemove\<close> and \<^verbatim>\<open>intsetFind\<close> calls on a new integer set,
  with any 64-bit values and in any order, through every change of encoding, returns what the
  mathematical set of integers returns, and leaves exactly its elements.
\<close>

theorem intset_simulates_set:
  assumes "\<forall>x \<in> set xs. is_int64 (op_arg x)" "length xs < 2 ^ 29"
  shows "snd (run_ops (set_exec intsetAdd intsetRemove (\<lambda>is v. (is, intsetFind is v))) intsetNew xs)
      = snd (run_ops set_spec {} xs) \<and>
    set (elems (fst (run_ops (set_exec intsetAdd intsetRemove (\<lambda>is v. (is, intsetFind is v))) intsetNew xs)))
      = fst (run_ops set_spec {} xs)"
  using ints.run_new_refines [of xs] assms by auto

theorem intset_simulates_set_witness:
  "snd (run_ops (set_exec intsetAdd intsetRemove (\<lambda>is v. (is, intsetFind is v))) intsetNew
     [Add 7, Add (- 70000), Add 7, Add (2 ^ 40), Member (- 70000), Remove 7, Member 7])
   = [True, True, False, True, True, True, False]"
  using intset_simulates_set [of "[Add 7, Add (- 70000), Add 7, Add (2 ^ 40), Member (- 70000), Remove 7, Member 7]"]
  by (simp add: is_int64_def int_ranges)

text \<open>
  On a well-formed integer set the loop of \<^verbatim>\<open>intsetSearch\<close> ends, and the search returns the
  position of the value if it is present, and otherwise the only position at which the value can
  be inserted with the array still sorted. The midpoint computation never overflows.
\<close>

lemma intset_search_correct:
  assumes "intset_ok is"
  shows "search_result is v (intsetSearch is v) \<and>
    (\<exists>t. while_option (\<lambda>s. mx s \<ge> mn s \<and> \<not> brk s) (intsetSearch_body is v)
       \<lparr>mn = 0, mx = int (slen is) - 1, mid = - 1, cur = - 1, brk = False\<rparr> = Some t)"
proof
  show "search_result is v (intsetSearch is v)" using assms by (rule intsetSearch_spec)
next
  let ?f = "\<lambda>s. if brk s then 0 else nat (mx s - mn s + 2)"
  have inv0: "search_inv is v \<lparr>mn = 0, mx = int (slen is) - 1, mid = - 1, cur = - 1, brk = False\<rparr>"
    by (simp add: search_inv_def)
  show "\<exists>t. while_option (\<lambda>s. mx s \<ge> mn s \<and> \<not> brk s) (intsetSearch_body is v)
       \<lparr>mn = 0, mx = int (slen is) - 1, mid = - 1, cur = - 1, brk = False\<rparr> = Some t"
  proof (rule measure_while_option_Some [where P = "search_inv is v" and f = ?f, OF _ inv0])
    fix s assume s: "search_inv is v s" "mx s \<ge> mn s \<and> \<not> brk s"
    from search_inv_body [OF assms s(1)] s(2)
    show "search_inv is v (intsetSearch_body is v s) \<and> ?f (intsetSearch_body is v s) < ?f s" by auto
  qed
qed

text \<open>
  Upgrading to a wider encoding keeps every element: after \<^verbatim>\<open>intsetUpgradeAndAdd\<close> the array
  holds the old elements in their order, with a negative value in front of them and a positive
  one behind them, and the result is well formed, although old and new slots overlap in the same
  buffer while they are copied.
\<close>

lemma intset_upgrade_preserves:
  assumes "intset_ok is" "intset_room is" "is_int64 v" "enc is < intsetValueEncoding v"
  shows "elems (intsetUpgradeAndAdd is v) = (if v < 0 then v # elems is else elems is @ [v]) \<and>
    enc (intsetUpgradeAndAdd is v) = intsetValueEncoding v \<and> intset_ok (intsetUpgradeAndAdd is v)"
  using intsetUpgradeAndAdd_spec [OF assms] intsetAdd_correct [OF assms(1,3,2)] assms(4)
  by (simp add: intsetAdd_def)

text \<open>
  Claim C36. \<^verbatim>\<open>intsetValidateIntegrity\<close> in deep mode accepts a serialised integer set exactly when it
  is well formed and not empty: every buffer it accepts decodes to a set on which all operations
  are correct (up to the size at which \<^verbatim>\<open>intsetMoveTail\<close> is), and it accepts the serialisation of
  every such set, from which the same set is read back.
\<close>

theorem intset_validate_correct:
  "(intsetValidateIntegrity p True \<longrightarrow> slen (intset_of_blob p) < 2 ^ 29 \<longrightarrow>
      intset_ok (intset_of_blob p) \<and> intsetBlobLen (intset_of_blob p) = length p) \<and>
   (intset_ok is \<longrightarrow> 0 < slen is \<longrightarrow>
      intsetValidateIntegrity (intset_to_blob is) True \<and> intset_of_blob (intset_to_blob is) = is)"
proof (intro conjI impI)
  assume v: "intsetValidateIntegrity p True" and s: "slen (intset_of_blob p) < 2 ^ 29"
  define b where "b = intset_of_blob p"
  have c: "length (contents b) = length p - 8" by (simp add: b_def intset_of_blob_def)
  from v have w: "length p = 8 + slen b * enc b" "enc_ok (enc b)" "ssorted (elems b)"
    unfolding validate_iff b_def by simp_all
  then show "intset_ok (intset_of_blob p)" using s c unfolding b_def [symmetric] by (simp add: intset_ok_def)
  show "intsetBlobLen (intset_of_blob p) = length p" using w(1) by (simp add: intsetBlobLen_def b_def)
next
  assume "intset_ok is" "0 < slen is"
  then show "intsetValidateIntegrity (intset_to_blob is) True"
    unfolding validate_iff intset_of_to_blob length_intset_to_blob intset_ok_def by simp
  show "intset_of_blob (intset_to_blob is) = is" by (rule intset_of_to_blob)
qed

theorem intset_validate_correct_witness:
  "intset_ok (intset_of_blob [2, 0, 0, 0, 2, 0, 0, 0, 5, 0, 6, 0])"
proof -
  have "intsetValidateIntegrity [2, 0, 0, 0, 2, 0, 0, 0, 5, 0, 6, 0] True" by code_simp
  moreover have "slen (intset_of_blob [2, 0, 0, 0, 2, 0, 0, 0, 5, 0, 6, 0]) < 2 ^ 29"
    by (simp add: intset_of_blob_def read_at_def)
  ultimately show ?thesis using intset_validate_correct by blast
qed

text \<open>
  Claim C40. \<^verbatim>\<open>intsetMoveTail\<close> computes its byte count in 32 bits. For every encoding, tail and target inside the
  array it moves only the first part of the tail, of as many elements as the length of the tail has modulo
  \<open>2 ^ 32\<close> divided by the element size, to the target, element by element, and leaves every other slot as it was. So with
  64-bit elements a tail of \<open>2 ^ 29\<close> elements is not moved at all, and an insertion overwrites an element.
\<close>

theorem intset_moveTail_wraps:
  assumes "enc_ok (enc is)" "length (contents is) = enc is * c" "slen is \<le> c"
    and "unat from \<le> slen is" "unat to + (slen is - unat from) \<le> c" "i < c"
  shows "intsetGetAt (intsetMoveTail is from to) i =
    (let n = (slen is - unat from) mod (2 ^ 32 div enc is)
     in if unat to \<le> i \<and> i < unat to + n then intsetGetAt is (unat from + (i - unat to)) else intsetGetAt is i)"
  using get_moved [OF assms] by (simp add: moved_def Let_def)

text \<open>
  Making room for a new first element in a set of \<open>2 ^ 29\<close> elements: the first one, 1, should be moved to the
  second slot, and is not.
\<close>

theorem intset_moveTail_wraps_witness:
  "let s = \<lparr>encoding = 8, len = 2 ^ 29, contents = 1 # replicate (8 * 2 ^ 29 + 7) 0\<rparr> in
   intsetGetAt s 0 = 1 \<and> intsetGetAt (intsetMoveTail s 0 1) 1 = intsetGetAt s 1 \<and> intsetGetAt s 1 = 0"
proof -
  define s where "s = \<lparr>encoding = 8, len = 2 ^ 29, contents = 1 # replicate (8 * 2 ^ 29 + 7) 0\<rparr>"
  have e: "enc s = 8" "slen s = 2 ^ 29" "length (contents s) = 8 * (2 ^ 29 + 1)" by (simp_all add: s_def)
  have "enc_ok (enc s)" by (simp add: e(1) enc_ok_def intset_encs)
  from intset_moveTail_wraps [OF this, of "2 ^ 29 + 1" 0 1 1] have m: "intsetGetAt (intsetMoveTail s 0 1) 1 = intsetGetAt s 1"
    using e by (simp add: Let_def)
  have r: "read_at 0 8 (contents s) = 1 # replicate 7 0" "read_at 8 8 (contents s) = replicate 8 0"
    by (simp_all add: s_def read_at_def)
  have zeros: "get_le (replicate k 0) = 0" for k by (induction k) simp_all
  have "intsetGetAt s 0 = 1" "intsetGetAt s 1 = 0"
    using r by (simp_all add: intsetGetAt_def intsetGetEncoded_def e(1) intset_encs as_signed_def zeros)
  with m show ?thesis by (simp add: s_def Let_def)
qed

end
