(* ===== verification/Decimal.thy ===== *)
theory Decimal
  imports Prelude
begin

text \<open>
  Decimal numbers and strings: \<^verbatim>\<open>digits10\<close>, \<^verbatim>\<open>sdigits10\<close>, \<^verbatim>\<open>ull2string\<close>, \<^verbatim>\<open>ll2string\<close>, \<^verbatim>\<open>string2ll\<close> and
  \<^verbatim>\<open>string2l\<close> of \<^verbatim>\<open>util.c\<close>, and \<^verbatim>\<open>sdsll2str\<close> and \<^verbatim>\<open>sdsull2str\<close> of \<^verbatim>\<open>sds.c\<close>.

  A string is its list of bytes. \<^verbatim>\<open>long long\<close> values are integers in the range \<open>is_int64\<close>.
  Unsigned 64-bit values are natural numbers in the printing functions, where no operation can
  wrap, and 64-bit words in \<^verbatim>\<open>string2ll\<close>, whose overflow checks matter. A printing function gets
  the destination buffer and returns the length and the buffer after the call.
\<close>

abbreviation ch :: "char \<Rightarrow> byte" where "ch c \<equiv> of_char c"

definition bytes :: "string \<Rightarrow> byte list" where
  "bytes s = map of_char s"

section \<open>Model\<close>

function digits10 :: "nat \<Rightarrow> nat" where
  "digits10 v =
     (if v < 10 then 1
      else if v < 100 then 2
      else if v < 1000 then 3
      else if v < 1000000000000 then
        (if v < 100000000 then
           (if v < 1000000 then
              (if v < 10000 then 4 else 5 + (if v \<ge> 100000 then 1 else 0))
            else 7 + (if v \<ge> 10000000 then 1 else 0))
         else if v < 10000000000 then 9 + (if v \<ge> 1000000000 then 1 else 0)
         else 11 + (if v \<ge> 100000000000 then 1 else 0))
      else 12 + digits10 (v div 1000000000000))"
  by pat_completeness auto
termination by (relation "measure id") auto

definition sdigits10 :: "int \<Rightarrow> nat" where
  "sdigits10 v =
     (if v < 0 then digits10 (if v \<noteq> INT64_MIN then nat (- v) else nat INT64_MAX + 1) + 1
      else digits10 (nat v))"

text \<open>The table of the two-digit numbers of \<^verbatim>\<open>ull2string\<close>.\<close>

definition digits_table :: "byte list" where
  "digits_table = bytes (''0001020304050607080910111213141516171819'' @
                         ''2021222324252627282930313233343536373839'' @
                         ''4041424344454647484950515253545556575859'' @
                         ''6061626364656667686970717273747576777879'' @
                         ''8081828384858687888990919293949596979899'')"

function ull2string_loop :: "byte list \<Rightarrow> nat \<Rightarrow> nat \<Rightarrow> byte list \<times> nat \<times> nat" where
  "ull2string_loop dst next value =
     (if value \<ge> 100 then
        (let i = (value mod 100) * 2 in
         ull2string_loop (dst[next := digits_table ! (i + 1), next - 1 := digits_table ! i])
           (next - 2) (value div 100))
      else (dst, next, value))"
  by pat_completeness auto
termination by (relation "measure (\<lambda>(d, n, v). v)") auto

definition ull2string :: "byte list \<Rightarrow> nat \<Rightarrow> nat \<Rightarrow> nat \<times> byte list" where
  "ull2string dst dstlen value =
     (let l = digits10 value in
      if l \<ge> dstlen then (0, dst)
      else
        (case ull2string_loop (dst[l := 0]) (l - 1) value of
           (dst', next, value') \<Rightarrow>
             (l, if value' < 10 then dst'[next := ch CHR ''0'' + of_nat value']
                 else dst'[next := digits_table ! (value' * 2 + 1), next - 1 := digits_table ! (value' * 2)])))"

text \<open>\<^verbatim>\<open>ll2string\<close> writes the sign and calls \<^verbatim>\<open>ull2string\<close> on the rest of the buffer (\<^verbatim>\<open>dst++\<close>).\<close>

definition ll2string :: "byte list \<Rightarrow> nat \<Rightarrow> int \<Rightarrow> nat \<times> byte list" where
  "ll2string dst dstlen svalue =
     (if svalue < 0 then
        (let value = (if svalue \<noteq> INT64_MIN then nat (- svalue) else nat INT64_MAX + 1) in
         if dstlen < 2 then (0, dst)
         else
           (case ull2string (tl dst) (dstlen - 1) value of
              (l, rest) \<Rightarrow> (if l = 0 then 0 else l + 1, ch CHR ''-'' # rest)))
      else ull2string dst dstlen (nat svalue))"

definition LONG_STR_SIZE :: nat where "LONG_STR_SIZE = 21"
definition ULLONG_MAX :: u64 where "ULLONG_MAX = 0xFFFFFFFFFFFFFFFF"

definition isdigit :: "byte \<Rightarrow> bool" where
  "isdigit b \<longleftrightarrow> b \<ge> ch CHR ''0'' \<and> b \<le> ch CHR ''9''"

text \<open>
  The digit loop of \<^verbatim>\<open>string2ll\<close>: \<open>None\<close> is the early return on overflow, otherwise the value and
  the bytes not consumed.
\<close>

fun string2ll_loop :: "u64 \<Rightarrow> byte list \<Rightarrow> (u64 \<times> byte list) option" where
  "string2ll_loop v [] = Some (v, [])"
| "string2ll_loop v (c # p) =
     (if isdigit c then
        (if v > ULLONG_MAX div 10 then None
         else
           (let v1 = v * 10; d = ucast (c - ch CHR ''0'') :: u64 in
            if v1 > ULLONG_MAX - d then None
            else string2ll_loop (v1 + d) p))
      else Some (v, c # p))"

text \<open>What follows the sign: a first digit from 1 to 9, the loop, and all bytes consumed.\<close>

definition string2ll_digits :: "byte list \<Rightarrow> u64 option" where
  "string2ll_digits p =
     (case p of
        [] \<Rightarrow> None
      | c # p' \<Rightarrow>
          (if c \<ge> ch CHR ''1'' \<and> c \<le> ch CHR ''9'' then
             (case string2ll_loop (ucast (c - ch CHR ''0'')) p' of
                None \<Rightarrow> None
              | Some (v, rest) \<Rightarrow> if rest \<noteq> [] then None else Some v)
           else None))"

definition string2ll :: "byte list \<Rightarrow> int option" where
  "string2ll s =
     (if length s = 0 \<or> length s \<ge> LONG_STR_SIZE then None
      else if s = [ch CHR ''0''] then Some 0
      else if hd s = ch CHR ''-'' then
        (if length s = 1 then None
         else
           (case string2ll_digits (tl s) of
              None \<Rightarrow> None
            | Some v \<Rightarrow> if v > word_of_int (- (INT64_MIN + 1)) + 1 then None else Some (sint (- v))))
      else
        (case string2ll_digits s of
           None \<Rightarrow> None
         | Some v \<Rightarrow> if v > word_of_int INT64_MAX then None else Some (sint v)))"

definition string2l :: "byte list \<Rightarrow> int option" where
  "string2l s =
     (case string2ll s of
        None \<Rightarrow> None
      | Some llval \<Rightarrow> if llval < INT64_MIN \<or> llval > INT64_MAX then None else Some llval)"

text \<open>
  \<^verbatim>\<open>sdsll2str\<close> and \<^verbatim>\<open>sdsull2str\<close> write the digits in reverse order, the sign last, and then reverse
  the bytes in place, from both ends. The result is the string without its terminator.
\<close>

function sds_digits :: "nat \<Rightarrow> byte list" where
  "sds_digits v = (ch CHR ''0'' + of_nat (v mod 10)) # (if v div 10 = 0 then [] else sds_digits (v div 10))"
  by pat_completeness auto
termination by (relation "measure id") auto

function reverse_loop :: "'a list \<Rightarrow> nat \<Rightarrow> nat \<Rightarrow> 'a list" where
  "reverse_loop buf s p =
     (if s < p then reverse_loop (buf[s := buf ! p, p := buf ! s]) (s + 1) (p - 1) else buf)"
  by pat_completeness auto
termination by (relation "measure (\<lambda>(b, s, p). p - s)") auto

definition sdsll2str :: "int \<Rightarrow> byte list" where
  "sdsll2str value =
     (let v = (if value < 0 then (if value \<noteq> INT64_MIN then nat (- value) else nat INT64_MAX + 1) else nat value);
          s = sds_digits v @ (if value < 0 then [ch CHR ''-''] else [])
      in reverse_loop s 0 (length s - 1))"

definition sdsull2str :: "nat \<Rightarrow> byte list" where
  "sdsull2str v = (let s = sds_digits v in reverse_loop s 0 (length s - 1))"

declare digits10.simps [simp del] ull2string_loop.simps [simp del] sds_digits.simps [simp del]
  reverse_loop.simps [simp del]

section \<open>Reference: decimal notation\<close>

definition digit :: "nat \<Rightarrow> byte" where
  "digit d = 48 + of_nat d"

function dec :: "nat \<Rightarrow> byte list" where
  "dec n = (if n < 10 then [digit n] else dec (n div 10) @ [digit (n mod 10)])"
  by pat_completeness auto
termination by (relation "measure id") auto

declare dec.simps [simp del]

definition sdec :: "int \<Rightarrow> byte list" where
  "sdec v = (if v < 0 then 45 # dec (nat (- v)) else dec (nat v))"

lemma dec_small: "n < 10 \<Longrightarrow> dec n = [digit n]"
  by (simp add: dec.simps)

lemma dec_step: "10 \<le> n \<Longrightarrow> dec n = dec (n div 10) @ [digit (n mod 10)]"
  by (subst dec.simps) simp

lemma dec_nonempty [simp]: "dec n \<noteq> []"
  by (subst dec.simps) simp

lemma dec_step2:
  assumes "100 \<le> n"
  shows "dec n = dec (n div 100) @ [digit (n div 10 mod 10), digit (n mod 10)]"
proof -
  have "dec n = dec (n div 10) @ [digit (n mod 10)]" using assms by (intro dec_step) simp
  also have "dec (n div 10) = dec (n div 10 div 10) @ [digit (n div 10 mod 10)]"
    using assms by (intro dec_step) simp
  also have "n div 10 div 10 = n div 100" using div_mult2_eq [of n 10 10] by simp
  finally show ?thesis by simp
qed

lemma length_dec_div:
  "10 ^ k \<le> n \<Longrightarrow> length (dec n) = k + length (dec (n div 10 ^ k))"
proof (induction k arbitrary: n)
  case 0
  then show ?case by simp
next
  case (Suc k)
  then have "10 ^ k \<le> n div 10" by (simp add: less_eq_div_iff_mult_less_eq)
  moreover have "10 * 1 \<le> 10 * (10::nat) ^ k" by (intro mult_le_mono) simp_all
  then have "10 \<le> n" using Suc.prems unfolding power_Suc by linarith
  moreover have "n div 10 ^ Suc k = n div 10 div 10 ^ k" by (simp only: power_Suc div_mult2_eq)
  ultimately show ?case using Suc.IH [of "n div 10"] dec_step [of n] by simp
qed

lemma length_dec: "10 ^ k \<le> n \<Longrightarrow> n < 10 ^ Suc k \<Longrightarrow> length (dec n) = Suc k"
proof -
  assume n: "10 ^ k \<le> n" "n < 10 ^ Suc k"
  then have "n div 10 ^ k < 10" by (simp add: div_less_iff_less_mult mult.commute)
  then show ?thesis using length_dec_div [OF n(1)] by (simp add: dec_small)
qed

lemma digits10_eq: "digits10 v = length (dec v)"
proof (induction v rule: digits10.induct)
  case (1 v)
  show ?case
  proof (cases "v < 1000000000000")
    case True
    have L: "10 ^ k \<le> v \<Longrightarrow> v < 10 ^ Suc k \<Longrightarrow> length (dec v) = Suc k" for k by (rule length_dec)
    show ?thesis
      using True L [of 1] L [of 2] L [of 3] L [of 4] L [of 5] L [of 6] L [of 7] L [of 8] L [of 9] L [of 10] L [of 11]
      by (simp add: digits10.simps dec_small not_less)
  next
    case False
    then have "digits10 v = 12 + digits10 (v div 1000000000000)" by (subst digits10.simps) simp
    also have "\<dots> = 12 + length (dec (v div 10 ^ 12))" using 1 False by simp
    also have "\<dots> = length (dec v)" using length_dec_div [of 12 v] False by simp
    finally show ?thesis .
  qed
qed

section \<open>Printing\<close>

lemma nth_concat_pairs:
  "k < n \<Longrightarrow> concat (map (\<lambda>k. [f k, g k]) [0..<n]) ! (2 * k) = f k \<and>
     concat (map (\<lambda>k. [f k, g k]) [0..<n]) ! (2 * k + 1) = g k"
proof (induction n)
  case 0
  then show ?case by simp
next
  case (Suc n)
  have "length (concat (map (\<lambda>k. [f k, g k]) [0..<n])) = 2 * n" by (induction n) auto
  then show ?case using Suc by (cases "k = n") (auto simp: nth_append)
qed

lemma digits_table_eq: "digits_table = concat (map (\<lambda>k. [digit (k div 10), digit (k mod 10)]) [0..<100])"
  by (simp add: digits_table_def bytes_def digit_def upt_rec)

lemma digits_table_nth:
  assumes "k < 100"
  shows "digits_table ! (2 * k) = digit (k div 10)" "digits_table ! (2 * k + 1) = digit (k mod 10)"
  using nth_concat_pairs [OF assms, of "\<lambda>k. digit (k div 10)" "\<lambda>k. digit (k mod 10)"]
  by (simp_all only: digits_table_eq)

text \<open>The last one or two digits, written after the loop.\<close>

definition ull2string_last :: "byte list \<times> nat \<times> nat \<Rightarrow> byte list" where
  "ull2string_last r =
     (case r of (dst, next, value) \<Rightarrow>
        if value < 10 then dst[next := ch CHR ''0'' + of_nat value]
        else dst[next := digits_table ! (value * 2 + 1), next - 1 := digits_table ! (value * 2)])"

lemma overwrite2:
  assumes "0 < i" "i < length xs"
  shows "drop (i - 1) (xs[i := b, i - 1 := a]) = a # b # drop (i + 1) xs"
proof -
  obtain k where k: "i = Suc k" using assms(1) gr0_implies_Suc by blast
  have "drop k (xs[Suc k := b, k := a]) = a # drop (Suc k) (xs[Suc k := b])"
    using assms k by (subst Cons_nth_drop_Suc [symmetric]) simp_all
  also have "drop (Suc k) (xs[Suc k := b]) = b # drop (Suc (Suc k)) xs"
    using assms k by (subst Cons_nth_drop_Suc [symmetric]) simp_all
  finally show ?thesis using k by simp
qed

lemma ull2string_loop_correct:
  assumes "length (dec v) = Suc nx" "nx < length dst"
  shows "ull2string_last (ull2string_loop dst nx v) = dec v @ drop (Suc nx) dst"
  using assms
proof (induction dst nx v rule: ull2string_loop.induct)
  case (1 dst nx v)
  show ?case
  proof (cases "100 \<le> v")
    case True
    let ?k = "v mod 100"
    let ?dst = "dst[nx := digits_table ! (?k * 2 + 1), nx - 1 := digits_table ! (?k * 2)]"
    have two: "dec v = dec (v div 100) @ [digit (v div 10 mod 10), digit (v mod 10)]"
      using True by (rule dec_step2)
    then have len: "length (dec (v div 100)) = Suc (nx - 2)" "2 \<le> nx"
      using 1(2) dec_nonempty [of "v div 100"]
      by (auto simp: Suc_diff_Suc length_greater_0_conv [symmetric] simp del: length_greater_0_conv dec_nonempty)
    have k: "?k div 10 = v div 10 mod 10" "?k mod 10 = v mod 10"
      by (simp_all add: mod_mult2_eq [of v 10 10, simplified] mod_mod_cancel)
    have "ull2string_loop dst nx v = ull2string_loop ?dst (nx - 2) (v div 100)"
      using True by (subst ull2string_loop.simps) (simp add: Let_def)
    then have "ull2string_last (ull2string_loop dst nx v) = dec (v div 100) @ drop (Suc (nx - 2)) ?dst"
      using 1(1) [OF True refl] len 1(3) by simp
    also have "drop (Suc (nx - 2)) ?dst = digits_table ! (?k * 2) # digits_table ! (?k * 2 + 1) # drop (Suc nx) dst"
      using overwrite2 [of nx dst] len(2) 1(3) by (simp add: numeral_2_eq_2 Suc_diff_Suc)
    finally show ?thesis
      using digits_table_nth [of ?k] k two by (simp add: mult.commute)
  next
    case False
    then have loop: "ull2string_loop dst nx v = (dst, nx, v)" by (subst ull2string_loop.simps) simp
    show ?thesis
    proof (cases "v < 10")
      case True
      then have "nx = 0" using 1(2) by (simp add: dec_small)
      then show ?thesis
        unfolding loop ull2string_last_def using True 1(3) by (cases dst) (simp_all add: dec_small digit_def)
    next
      case big: False
      then have d: "dec v = [digit (v div 10), digit (v mod 10)]"
        using False by (simp add: dec_step dec_small)
      then have "nx = 1" using 1(2) by simp
      then show ?thesis
        unfolding loop ull2string_last_def
        using big False digits_table_nth [of v] overwrite2 [of 1 dst] 1(3) by (simp add: d mult.commute)
    qed
  qed
qed

lemma ull2string_correct:
  assumes "dstlen \<le> length dst" "length (dec v) < dstlen"
  shows "ull2string dst dstlen v = (length (dec v), dec v @ 0 # drop (Suc (length (dec v))) dst)"
proof -
  let ?l = "length (dec v)"
  have pos: "0 < ?l" by simp
  have "ull2string dst dstlen v = (?l, ull2string_last (ull2string_loop (dst[?l := 0]) (?l - 1) v))"
    using assms by (simp add: ull2string_def digits10_eq ull2string_last_def Let_def split_beta)
  also have "ull2string_last (ull2string_loop (dst[?l := 0]) (?l - 1) v) = dec v @ drop ?l (dst[?l := 0])"
    using ull2string_loop_correct [of v "?l - 1" "dst[?l := 0]"] assms pos by simp
  also have "drop ?l (dst[?l := 0]) = 0 # drop (Suc ?l) dst"
    using assms by (subst Cons_nth_drop_Suc [symmetric]) simp_all
  finally show ?thesis .
qed

section \<open>Parsing\<close>

text \<open>The number a string of digits denotes, after the digits read into \<open>a\<close>.\<close>

definition nval :: "nat \<Rightarrow> byte list \<Rightarrow> nat" where
  "nval a p = foldl (\<lambda>a c. 10 * a + unat (c - 48)) a p"

lemma nval_simps [simp]:
  "nval a [] = a" "nval a (c # p) = nval (10 * a + unat (c - 48)) p" "nval a (p @ [c]) = 10 * nval a p + unat (c - 48)"
  by (simp_all add: nval_def)

lemma nval_mono: "a \<le> nval a p"
proof (induction p arbitrary: a)
  case Nil
  then show ?case by simp
next
  case (Cons c p)
  from Cons [of "10 * a + unat (c - 48)"] show ?case by simp
qed

lemma isdigit_iff: "isdigit c \<longleftrightarrow> 48 \<le> unat c \<and> unat c \<le> 57"
  by (simp add: isdigit_def word_le_nat_alt)

lemma isdigit_val: "isdigit c \<Longrightarrow> unat (c - 48) = unat c - 48 \<and> unat c - 48 < 10"
  by (auto simp: isdigit_iff unat_sub word_le_nat_alt)

lemma digit_props:
  assumes "d < 10"
  shows "isdigit (digit d)" "unat (digit d - 48) = d" "unat (digit d) = 48 + d"
proof -
  show u: "unat (digit d) = 48 + d" using assms by (simp add: digit_def unat_word_ariths unat_of_nat)
  show "isdigit (digit d)" using assms u by (simp add: isdigit_iff)
  show "unat (digit d - 48) = d" using assms by (simp add: digit_def unat_of_nat)
qed

lemma digit_of_val: "isdigit c \<Longrightarrow> digit (unat (c - 48)) = c"
  by (simp add: digit_def)

lemma ULLONG_MAX_unat: "unat ULLONG_MAX = 2 ^ 64 - 1"
  by (simp add: ULLONG_MAX_def)

text \<open>
  The checks of the loop are exact: it stops with an overflow if and only if the number does not
  fit in 64 bits, and otherwise nothing has wrapped around.
\<close>

lemma string2ll_loop_correct:
  "string2ll_loop v p =
     (let n = nval (unat v) (takeWhile isdigit p)
      in if n < 2 ^ 64 then Some (of_nat n, dropWhile isdigit p) else None)"
proof (induction v p rule: string2ll_loop.induct)
  case (1 v)
  then show ?case by (simp add: Let_def)
next
  case (2 v c p)
  show ?case
  proof (cases "isdigit c")
    case False
    then show ?thesis by (simp add: Let_def)
  next
    case True
    let ?d = "unat c - 48"
    let ?w = "ucast (c - 48) :: u64"
    have d: "unat ?w = ?d" "?d < 10" "unat (c - 48) = ?d"
      using isdigit_val [OF True] by simp_all
    have le: "10 * unat v + ?d \<le> nval (unat v) (takeWhile isdigit (c # p))"
      using nval_mono [of "10 * unat v + ?d" "takeWhile isdigit p"] True d(3) by simp
    have max: "unat (ULLONG_MAX div 10) = (2 ^ 64 - 1) div 10"
      by (simp add: unat_div ULLONG_MAX_unat)
    show ?thesis
    proof (cases "v > ULLONG_MAX div 10")
      case over: True
      then have "unat v > (2 ^ 64 - 1) div 10" by (simp add: word_less_nat_alt max)
      then have "\<not> nval (unat v) (takeWhile isdigit (c # p)) < 2 ^ 64" using le by linarith
      then show ?thesis using True over by (simp add: Let_def)
    next
      case ok1: False
      then have "unat v \<le> (2 ^ 64 - 1) div 10" by (simp add: not_less word_le_nat_alt max)
      then have v10: "unat (v * 10) = 10 * unat v" by (simp add: unat_word_ariths)
      have sub: "unat (ULLONG_MAX - ?w) = 2 ^ 64 - 1 - ?d"
        using d by (simp add: unat_sub word_le_nat_alt ULLONG_MAX_unat)
      show ?thesis
      proof (cases "v * 10 > ULLONG_MAX - ?w")
        case over: True
        then have "10 * unat v > 2 ^ 64 - 1 - ?d" by (simp add: word_less_nat_alt v10 sub)
        then have "\<not> nval (unat v) (takeWhile isdigit (c # p)) < 2 ^ 64" using le by linarith
        then show ?thesis using True ok1 over by (simp add: Let_def)
      next
        case ok2: False
        then have "10 * unat v \<le> 2 ^ 64 - 1 - ?d" by (simp add: not_less word_le_nat_alt v10 sub)
        then have sum: "unat (v * 10 + ?w) = 10 * unat v + ?d"
          using d(2) by (simp add: unat_word_ariths v10 d(1) d(3))
        then show ?thesis using True ok1 ok2 2 [of "v * 10" ?w] d(3) by (simp add: Let_def)
      qed
    qed
  qed
qed

lemma nval_dec: "nval 0 (dec n) = n"
proof (induction n rule: dec.induct)
  case (1 n)
  then show ?case by (cases "n < 10") (simp_all add: dec_small dec_step digit_props)
qed

lemma dec_isdigit: "\<forall>c \<in> set (dec n). isdigit c"
proof (induction n rule: dec.induct)
  case (1 n)
  then show ?case by (cases "n < 10") (auto simp: dec_small dec_step digit_props)
qed

lemma hd_dec: "0 < n \<Longrightarrow> hd (dec n) \<noteq> 48"
proof (induction n rule: dec.induct)
  case (1 n)
  show ?case
  proof (cases "n < 10")
    case True
    then have "unat (hd (dec n)) = 48 + n" by (simp add: dec_small digit_props)
    then show ?thesis using 1(2) by auto
  next
    case False
    then show ?thesis using 1(1) by (simp add: dec_step hd_append)
  qed
qed

lemma nval_pos: "isdigit c \<Longrightarrow> c \<noteq> 48 \<Longrightarrow> 0 < nval 0 (c # p)"
proof -
  assume c: "isdigit c" "c \<noteq> 48"
  then have "unat c \<noteq> 48" by (simp add: word_unat_eq_iff)
  then have "0 < unat (c - 48)" using isdigit_val [OF c(1)] c(1) by (simp add: isdigit_iff)
  then show ?thesis using nval_mono [of "unat (c - 48)" p] by simp
qed

lemma dec_nval:
  assumes "\<forall>c \<in> set p. isdigit c" "p \<noteq> []" "hd p \<noteq> 48"
  shows "dec (nval 0 p) = p"
  using assms
proof (induction p rule: rev_induct)
  case Nil
  then show ?case by simp
next
  case (snoc c p)
  have c: "isdigit c" using snoc.prems(1) by simp
  show ?case
  proof (cases p)
    case Nil
    then show ?thesis using digit_of_val [OF c] isdigit_val [OF c] by (simp add: dec_small)
  next
    case (Cons c0 p0)
    then have IH: "dec (nval 0 p) = p" using snoc by simp
    have "0 < nval 0 p" using nval_pos [of c0 p0] snoc.prems Cons by simp
    then have "dec (10 * nval 0 p + unat (c - 48)) = dec (nval 0 p) @ [digit (unat (c - 48))]"
      using isdigit_val [OF c] by (subst dec_step) auto
    then show ?thesis using IH digit_of_val [OF c] by simp
  qed
qed

lemma takeWhile_digits_all: "\<forall>c \<in> set p. isdigit c \<Longrightarrow> takeWhile isdigit p = p \<and> dropWhile isdigit p = []"
  by (auto simp: takeWhile_eq_all_conv dropWhile_eq_Nil_conv)

lemma first_digit: "isdigit c \<and> c \<noteq> 48 \<longleftrightarrow> c \<ge> 49 \<and> c \<le> 57"
proof -
  have "c \<noteq> 48 \<longleftrightarrow> unat c \<noteq> 48" by (simp add: word_unat_eq_iff)
  then show ?thesis by (auto simp: isdigit_iff word_le_nat_alt)
qed

text \<open>Exactly the decimal notation of the positive numbers below \<open>2 ^ 64\<close> is accepted.\<close>

lemma string2ll_digits_dec:
  assumes "0 < n" "n < 2 ^ 64"
  shows "string2ll_digits (dec n) = Some (of_nat n)"
proof -
  obtain c p where cp: "dec n = c # p" using dec_nonempty by (metis neq_Nil_conv)
  have c: "isdigit c" "c \<noteq> 48" and p: "\<forall>c \<in> set p. isdigit c"
    using dec_isdigit [of n] hd_dec [OF assms(1)] cp by auto
  have "unat (ucast (c - ch CHR ''0'') :: u64) = unat (c - 48)" by simp
  then have "string2ll_loop (ucast (c - ch CHR ''0'')) p = Some (of_nat n, [])"
    using nval_dec [of n] cp assms(2) by (simp add: string2ll_loop_correct takeWhile_digits_all [OF p] Let_def)
  moreover have "c \<ge> 49" "c \<le> 57" using first_digit [of c] c by simp_all
  ultimately show ?thesis by (simp add: string2ll_digits_def cp)
qed

lemma string2ll_digits_Some:
  assumes "string2ll_digits p = Some v"
  shows "p = dec (unat v) \<and> 0 < unat v"
proof -
  from assms obtain c p' rest where p: "p = c # p'" and c: "c \<ge> 49" "c \<le> 57"
    and loop: "string2ll_loop (ucast (c - ch CHR ''0'')) p' = Some (v, [])"
    by (auto simp: string2ll_digits_def split: list.splits if_splits option.splits prod.splits)
  have digits: "\<forall>c \<in> set p'. isdigit c" and v: "unat v = nval 0 p"
  proof -
    from loop have n: "nval (unat (c - 48)) (takeWhile isdigit p') < 2 ^ 64"
      and eq: "v = of_nat (nval (unat (c - 48)) (takeWhile isdigit p'))" "dropWhile isdigit p' = []"
      by (auto simp: string2ll_loop_correct Let_def split: if_splits)
    from eq(2) show d: "\<forall>c \<in> set p'. isdigit c" by (simp add: dropWhile_eq_Nil_conv)
    show "unat v = nval 0 p"
      using n eq(1) takeWhile_digits_all [OF d] by (simp add: p unat_of_nat)
  qed
  have c': "isdigit c" "c \<noteq> 48" using first_digit [of c] c by auto
  have "dec (nval 0 p) = p" using digits c' by (intro dec_nval) (simp_all add: p)
  moreover have "0 < nval 0 p" using nval_pos [OF c', of p'] p by simp
  ultimately show ?thesis using v by simp
qed

lemma length_dec_bound: "n < 10 ^ Suc k \<Longrightarrow> length (dec n) \<le> Suc k"
proof (induction k arbitrary: n)
  case 0
  then show ?case by (simp add: dec_small)
next
  case (Suc k)
  show ?case
  proof (cases "n < 10")
    case False
    have "n div 10 < 10 ^ Suc k" using Suc.prems by (simp add: div_less_iff_less_mult)
    then show ?thesis using Suc.IH False by (simp add: dec_step)
  qed (simp add: dec_small)
qed

lemma hd_dec_not_minus: "hd (dec n) \<noteq> 45"
proof -
  have "isdigit (hd (dec n))" using dec_isdigit hd_in_set [OF dec_nonempty] by blast
  then show ?thesis by (auto simp: isdigit_iff)
qed

lemma length_sdec: "is_int64 v \<Longrightarrow> length (sdec v) < LONG_STR_SIZE"
proof -
  assume v: "is_int64 v"
  have "nat v < 10 ^ Suc 18" "nat (- v) < 10 ^ Suc 18"
    using v by (auto simp: is_int64_def int_ranges)
  then have "length (dec (nat v)) \<le> 19" "length (dec (nat (- v))) \<le> 19"
    using length_dec_bound [of _ 18] by fastforce+
  then show ?thesis by (simp add: sdec_def LONG_STR_SIZE_def)
qed

text \<open>The string of an integer parses to that integer.\<close>

lemma string2ll_sdec:
  assumes v: "is_int64 v"
  shows "string2ll (sdec v) = Some v"
proof -
  have len: "length (sdec v) < LONG_STR_SIZE" "sdec v \<noteq> []"
    using length_sdec [OF v] by (simp_all add: sdec_def)
  consider (neg) "v < 0" | (zero) "v = 0" | (pos) "0 < v" by linarith
  then show ?thesis
  proof cases
    case neg
    define n where "n = nat (- v)"
    have n: "0 < n" "n < 2 ^ 64" "n \<le> 9223372036854775808" "v = - int n"
      using neg v by (auto simp: n_def is_int64_def int_ranges)
    have s: "sdec v = 45 # dec n" using neg by (simp add: sdec_def n_def)
    have "\<not> (of_nat n :: u64) > word_of_int (- (INT64_MIN + 1)) + 1"
      using n(2,3) by (simp add: not_less word_le_nat_alt unat_of_nat INT64_MIN_def)
    moreover have "sint (- of_nat n :: u64) = v" using sint_of_int64 [OF v] by (simp add: n(4))
    ultimately show ?thesis
      using len string2ll_digits_dec [OF n(1,2)] by (simp add: string2ll_def s)
  next
    case zero
    then show ?thesis by (simp add: sdec_def dec_small digit_def string2ll_def LONG_STR_SIZE_def)
  next
    case pos
    define n where "n = nat v"
    have n: "0 < n" "n < 2 ^ 64" "n < 9223372036854775808" "v = int n"
      using pos v by (auto simp: n_def is_int64_def int_ranges)
    have s: "sdec v = dec n" using pos by (simp add: sdec_def n_def)
    have "\<not> (of_nat n :: u64) > word_of_int INT64_MAX"
      using n(2,3) by (simp add: not_less word_le_nat_alt unat_of_nat INT64_MAX_def)
    moreover have "sint (of_nat n :: u64) = v" using sint_of_int64 [OF v] by (simp add: n(4))
    moreover have "dec n \<noteq> [48]" using hd_dec [OF n(1)] by auto
    ultimately show ?thesis
      using len string2ll_digits_dec [OF n(1,2)] hd_dec_not_minus [of n] by (simp add: string2ll_def s)
  qed
qed

text \<open>Conversely, every string that is accepted is the string of its number: nothing is lost.\<close>

lemma string2ll_Some:
  assumes "string2ll s = Some v"
  shows "is_int64 v \<and> sdec v = s"
proof -
  have ne: "s \<noteq> []" using assms by (auto simp: string2ll_def split: if_splits)
  consider (zero) "s = [48]" | (neg) "s \<noteq> [48]" "hd s = 45" | (pos) "s \<noteq> [48]" "hd s \<noteq> 45" by blast
  then show ?thesis
  proof cases
    case zero
    then show ?thesis
      using assms by (simp add: string2ll_def LONG_STR_SIZE_def sdec_def dec_small digit_def is_int64_def int_ranges)
  next
    case neg
    then obtain w where w: "string2ll_digits (tl s) = Some w" "\<not> w > word_of_int (- (INT64_MIN + 1)) + 1" "v = sint (- w)"
      using assms by (auto simp: string2ll_def split: if_splits option.splits)
    have d: "tl s = dec (unat w)" "0 < unat w" using string2ll_digits_Some [OF w(1)] by auto
    have b: "unat w \<le> 9223372036854775808" using w(2) by (simp add: not_less word_le_nat_alt INT64_MIN_def)
    then have r: "is_int64 (- int (unat w))" by (simp add: is_int64_def int_ranges del: of_nat_unat)
    have "v = - int (unat w)"
    proof -
      have "(word_of_int (- int (unat w)) :: u64) = - w" by simp
      then show ?thesis using sint_of_int64 [OF r] w(3) by metis
    qed
    then show ?thesis using d r neg(2) ne by (cases s) (simp_all add: sdec_def del: of_nat_unat)
  next
    case pos
    then obtain w where w: "string2ll_digits s = Some w" "\<not> w > word_of_int INT64_MAX" "v = sint w"
      using assms by (auto simp: string2ll_def split: if_splits option.splits)
    have d: "s = dec (unat w)" "0 < unat w" using string2ll_digits_Some [OF w(1)] by auto
    have b: "unat w \<le> 9223372036854775807" using w(2) by (simp add: not_less word_le_nat_alt INT64_MAX_def)
    then have r: "is_int64 (int (unat w))" by (simp add: is_int64_def int_ranges del: of_nat_unat)
    have "v = int (unat w)"
    proof -
      have "(word_of_int (int (unat w)) :: u64) = w" by simp
      then show ?thesis using sint_of_int64 [OF r] w(3) by metis
    qed
    then show ?thesis using d r by (simp add: sdec_def del: of_nat_unat)
  qed
qed

lemma string2ll_iff: "string2ll s = Some v \<longleftrightarrow> is_int64 v \<and> s = sdec v"
  using string2ll_sdec string2ll_Some by blast

section \<open>The printing functions agree\<close>

lemma abs_value: "v < 0 \<Longrightarrow> (if v \<noteq> INT64_MIN then nat (- v) else nat INT64_MAX + 1) = nat (- v)"
  by (simp add: INT64_MIN_def INT64_MAX_def)

lemma ll2string_correct:
  assumes "dstlen \<le> length dst" "length (sdec v) < dstlen"
  shows "ll2string dst dstlen v = (length (sdec v), sdec v @ 0 # drop (Suc (length (sdec v))) dst)"
proof (cases "v < 0")
  case True
  let ?n = "nat (- v)"
  have s: "sdec v = 45 # dec ?n" using True by (simp add: sdec_def)
  have d: "\<not> dstlen < 2" "length (dec ?n) < dstlen - 1" "dstlen - 1 \<le> length (tl dst)" using assms s by auto
  have "ull2string (tl dst) (dstlen - 1) ?n = (length (dec ?n), dec ?n @ 0 # drop (Suc (length (dec ?n))) (tl dst))"
    by (rule ull2string_correct [OF d(3,2)])
  then show ?thesis using True d(1) by (simp add: ll2string_def abs_value s drop_Suc)
next
  case False
  then have s: "sdec v = dec (nat v)" by (simp add: sdec_def)
  then show ?thesis using False assms ull2string_correct [of dstlen dst "nat v"] by (simp add: ll2string_def)
qed

lemma ll2string_no_room:
  assumes "dstlen \<le> length (sdec v)"
  shows "fst (ll2string dst dstlen v) = 0"
  using assms
  by (auto simp: ll2string_def ull2string_def digits10_eq sdec_def abs_value Let_def split: if_splits)

lemma sds_digits_eq: "sds_digits v = rev (dec v)"
proof (induction v rule: sds_digits.induct)
  case (1 v)
  show ?case
  proof (cases "v < 10")
    case True
    then show ?thesis by (subst sds_digits.simps) (simp add: dec_small digit_def)
  next
    case False
    then have "v div 10 \<noteq> 0" by (simp add: div_eq_0_iff)
    then show ?thesis using 1 False by (subst sds_digits.simps) (simp add: dec_step digit_def)
  qed
qed

lemma reverse_loop_nth:
  assumes "p < length buf"
  shows "length (reverse_loop buf s p) = length buf \<and>
    (\<forall>i < length buf. reverse_loop buf s p ! i = (if s \<le> i \<and> i \<le> p then buf ! (s + p - i) else buf ! i))"
  using assms
proof (induction buf s p rule: reverse_loop.induct)
  case (1 buf s p)
  show ?case
  proof (cases "s < p")
    case True
    let ?buf = "buf[s := buf ! p, p := buf ! s]"
    have step: "reverse_loop buf s p = reverse_loop ?buf (s + 1) (p - 1)"
      using True by (subst reverse_loop.simps) simp
    have IH: "length (reverse_loop ?buf (s + 1) (p - 1)) = length buf"
      "\<And>i. i < length buf \<Longrightarrow> reverse_loop ?buf (s + 1) (p - 1) ! i =
         (if s + 1 \<le> i \<and> i \<le> p - 1 then ?buf ! (s + 1 + (p - 1) - i) else ?buf ! i)"
      using 1(1) [OF True] 1(2) by simp_all
    have "reverse_loop buf s p ! i = (if s \<le> i \<and> i \<le> p then buf ! (s + p - i) else buf ! i)"
      if i: "i < length buf" for i
    proof -
      have e: "reverse_loop buf s p ! i =
          (if s + 1 \<le> i \<and> i \<le> p - 1 then ?buf ! (s + 1 + (p - 1) - i) else ?buf ! i)"
        unfolding step by (rule IH(2) [OF i])
      consider "i = s" | "i = p" | "s < i" "i < p" | "i < s" | "p < i" by linarith
      then show ?thesis
        unfolding e using True 1(2) by cases (auto simp: nth_list_update)
    qed
    then show ?thesis using step IH(1) by simp
  next
    case False
    then have "s + p - i = i" if "s \<le> i" "i \<le> p" for i using that by linarith
    then show ?thesis using False by (subst (1 2) reverse_loop.simps) simp
  qed
qed

lemma reverse_loop_rev: "reverse_loop buf 0 (length buf - 1) = rev buf"
proof (cases buf)
  case Nil
  then show ?thesis by (subst reverse_loop.simps) simp
next
  case (Cons x xs)
  then have "length buf - 1 < length buf" by simp
  note R = reverse_loop_nth [OF this, of 0]
  show ?thesis
  proof (rule nth_equalityI)
    show "length (reverse_loop buf 0 (length buf - 1)) = length (rev buf)" using R by simp
    fix i assume "i < length (reverse_loop buf 0 (length buf - 1))"
    then have i: "i < length buf" using R by simp
    then have "reverse_loop buf 0 (length buf - 1) ! i = buf ! (length buf - 1 - i)" using R by auto
    then show "reverse_loop buf 0 (length buf - 1) ! i = rev buf ! i" using i by (simp add: rev_nth)
  qed
qed

lemma sdsll2str_correct: "sdsll2str v = sdec v"
  by (simp add: sdsll2str_def Let_def sds_digits_eq reverse_loop_rev [simplified One_nat_def] abs_value sdec_def
      del: length_append length_rev)

lemma sdsull2str_correct: "sdsull2str n = dec n"
  by (simp add: sdsull2str_def Let_def sds_digits_eq reverse_loop_rev [simplified One_nat_def] del: length_rev)

section \<open>Properties\<close>

text \<open>
  Claim C23. \<^verbatim>\<open>string2ll\<close> accepts exactly the canonical decimal notation of the 64-bit signed integers
  and returns their value: no other string is accepted (no leading zeroes, no \<open>-0\<close>, no sign
  alone, no other bytes), its overflow checks refuse exactly the numbers out of range, and its
  unsigned arithmetic never wraps.
\<close>

theorem string2ll_exact: "string2ll s = Some v \<longleftrightarrow> is_int64 v \<and> s = sdec v"
  by (rule string2ll_iff)

text \<open>
  Claim C24. \<^verbatim>\<open>ll2string\<close> with the buffer size that the sources use always has room; it writes the
  canonical notation and a terminator, leaves the rest of the buffer alone, and \<^verbatim>\<open>string2ll\<close> reads
  the same number back from what it wrote.
\<close>

theorem ll2string_roundtrip:
  assumes "is_int64 v" "length dst = LONG_STR_SIZE"
  shows "\<exists>l d. ll2string dst LONG_STR_SIZE v = (l, d) \<and> 0 < l \<and> take l d = sdec v \<and> d ! l = 0 \<and>
    drop (l + 1) d = drop (l + 1) dst \<and> string2ll (take l d) = Some v"
proof -
  let ?s = "sdec v"
  have "ll2string dst LONG_STR_SIZE v = (length ?s, ?s @ 0 # drop (Suc (length ?s)) dst)"
    using assms length_sdec by (intro ll2string_correct) simp_all
  moreover have "0 < length ?s" by (simp add: sdec_def)
  ultimately show ?thesis using string2ll_sdec [OF assms(1)] by simp
qed

theorem ll2string_roundtrip_witness:
  "\<exists>l d. ll2string (replicate 21 7) LONG_STR_SIZE (- 1204) = (l, d) \<and> string2ll (take l d) = Some (- 1204)"
  using ll2string_roundtrip [of "- 1204" "replicate 21 7"]
  by (fastforce simp: is_int64_def int_ranges LONG_STR_SIZE_def)

text \<open>
  \<^verbatim>\<open>ll2string\<close> refuses a buffer, by returning 0, exactly when the number and its terminator do
  not fit in it.
\<close>

lemma ll2string_refuses:
  assumes "dstlen \<le> length dst"
  shows "fst (ll2string dst dstlen v) = 0 \<longleftrightarrow> dstlen \<le> length (sdec v)"
proof (cases "length (sdec v) < dstlen")
  case True
  then show ?thesis using ll2string_correct [OF assms] by (simp add: sdec_def)
next
  case False
  then show ?thesis using ll2string_no_room [of dstlen v dst] by simp
qed

text \<open>
  \<^verbatim>\<open>digits10\<close>, a chain of comparisons with a division for the large values, returns the number
  of decimal digits of every number, and \<^verbatim>\<open>sdigits10\<close> that of a signed number with its sign.
\<close>

lemma digits10_correct:
  "digits10 n = length (dec n) \<and> sdigits10 v = length (sdec v)"
  by (simp add: digits10_eq sdigits10_def sdec_def abs_value)

text \<open>
  The two independent integer printers agree: \<^verbatim>\<open>sdsll2str\<close> (digits in reverse, then an
  in-place reversal) yields the bytes that \<^verbatim>\<open>ll2string\<close> writes through its table of digit pairs.
\<close>

lemma sdsll2str_agrees:
  assumes "is_int64 v" "length dst = LONG_STR_SIZE"
  shows "sdsll2str v = (case ll2string dst LONG_STR_SIZE v of (l, d) \<Rightarrow> take l d)"
  using ll2string_correct [of LONG_STR_SIZE dst v] length_sdec [OF assms(1)] assms(2)
  by (simp add: sdsll2str_correct)

end
