(* ===== verification/Map_Interface.thy ===== *)
theory Map_Interface
  imports Refinement
begin

text \<open>
  The contract of a mutable map with insertion of new keys, replacement, deletion and lookup, and
  with maintenance calls that must not be visible. \<open>cap\<close> is the number of keys below which an
  insertion of a new key never fails.
\<close>

datatype ('k, 'v, 'm) map_op = Insert 'k 'v | Update 'k 'v | Delete 'k | Fetch 'k | Maintain 'm

datatype 'v map_reply = Flag bool | Val "'v option"

text \<open>The abstract machine; an update tells whether the key is new.\<close>

fun map_spec :: "('k \<rightharpoonup> 'v) \<Rightarrow> ('k, 'v, 'm) map_op \<Rightarrow> ('k \<rightharpoonup> 'v) \<times> 'v map_reply" where
  "map_spec m (Insert k v) = (if m k = None then (m(k \<mapsto> v), Flag True) else (m, Flag False))"
| "map_spec m (Update k v) = (m(k \<mapsto> v), Flag (m k = None))"
| "map_spec m (Delete k) = (m(k := None), Flag (m k \<noteq> None))"
| "map_spec m (Fetch k) = (m, Val (m k))"
| "map_spec m (Maintain x) = (m, Flag True)"

fun map_exec :: "('s \<Rightarrow> 'k \<Rightarrow> 'v \<Rightarrow> 's \<times> bool) \<Rightarrow> ('s \<Rightarrow> 'k \<Rightarrow> 'v \<Rightarrow> 's \<times> bool) \<Rightarrow> ('s \<Rightarrow> 'k \<Rightarrow> 's \<times> bool) \<Rightarrow>
    ('s \<Rightarrow> 'k \<Rightarrow> 's \<times> 'v option) \<Rightarrow> ('s \<Rightarrow> 'm \<Rightarrow> 's) \<Rightarrow> 's \<Rightarrow> ('k, 'v, 'm) map_op \<Rightarrow> 's \<times> 'v map_reply" where
  "map_exec ins upd del look mt s (Insert k v) = (case ins s k v of (s', b) \<Rightarrow> (s', Flag b))"
| "map_exec ins upd del look mt s (Update k v) = (case upd s k v of (s', b) \<Rightarrow> (s', Flag b))"
| "map_exec ins upd del look mt s (Delete k) = (case del s k of (s', b) \<Rightarrow> (s', Flag b))"
| "map_exec ins upd del look mt s (Fetch k) = (case look s k of (s', r) \<Rightarrow> (s', Val r))"
| "map_exec ins upd del look mt s (Maintain x) = (mt s x, Flag True)"

lemma card_dom_map_spec: "finite (dom m) \<Longrightarrow> card (dom (fst (map_spec m x))) \<le> Suc (card (dom m))"
  by (cases x) (auto simp: card_insert_if card_Diff1_le le_SucI)

locale map_impl =
  fixes new :: 's
    and ins :: "'s \<Rightarrow> 'k \<Rightarrow> 'v \<Rightarrow> 's \<times> bool"
    and upd :: "'s \<Rightarrow> 'k \<Rightarrow> 'v \<Rightarrow> 's \<times> bool"
    and del :: "'s \<Rightarrow> 'k \<Rightarrow> 's \<times> bool"
    and look :: "'s \<Rightarrow> 'k \<Rightarrow> 's \<times> 'v option"
    and mt :: "'s \<Rightarrow> 'm \<Rightarrow> 's"
    and inv :: "'s \<Rightarrow> bool"
    and abs :: "'s \<Rightarrow> 'k \<rightharpoonup> 'v"
    and cap :: nat
  assumes inv_new: "inv new"
    and abs_new: "abs new = Map.empty"
    and finite_dom: "inv s \<Longrightarrow> finite (dom (abs s))"
    and insert_law: "inv s \<Longrightarrow> card (dom (abs s)) < cap \<Longrightarrow>
      inv (fst (ins s k v)) \<and> snd (ins s k v) = (abs s k = None) \<and>
      abs (fst (ins s k v)) = (if abs s k = None then (abs s)(k \<mapsto> v) else abs s)"
    and update_law: "inv s \<Longrightarrow> card (dom (abs s)) < cap \<Longrightarrow>
      inv (fst (upd s k v)) \<and> snd (upd s k v) = (abs s k = None) \<and> abs (fst (upd s k v)) = (abs s)(k \<mapsto> v)"
    and delete_law: "inv s \<Longrightarrow>
      inv (fst (del s k)) \<and> snd (del s k) = (abs s k \<noteq> None) \<and> abs (fst (del s k)) = (abs s)(k := None)"
    and lookup_law: "inv s \<Longrightarrow> inv (fst (look s k)) \<and> snd (look s k) = abs s k \<and> abs (fst (look s k)) = abs s"
    and maintain_law: "inv s \<Longrightarrow> inv (mt s x) \<and> abs (mt s x) = abs s"
begin

lemma exec_refines:
  assumes "inv s" "card (dom (abs s)) < cap"
  shows "inv (fst (map_exec ins upd del look mt s x)) \<and>
    (abs (fst (map_exec ins upd del look mt s x)), snd (map_exec ins upd del look mt s x)) = map_spec (abs s) x"
proof (cases x)
  case (Insert k v)
  then show ?thesis using insert_law [OF assms, of k v] by (auto split: prod.splits)
next
  case (Update k v)
  then show ?thesis using update_law [OF assms, of k v] by (auto split: prod.splits)
next
  case (Delete k)
  then show ?thesis using delete_law [OF assms(1), of k] by (auto split: prod.splits)
next
  case (Fetch k)
  then show ?thesis using lookup_law [OF assms(1), of k] by (auto split: prod.splits)
next
  case (Maintain m)
  then show ?thesis using maintain_law [OF assms(1)] by simp
qed

end

sublocale map_impl \<subseteq> runs: machine_refinement "map_exec ins upd del look mt" map_spec inv abs
    "\<lambda>_. True" "\<lambda>m. card (dom m)" cap
  by unfold_locales (use exec_refines card_dom_map_spec finite_dom in blast)+

context map_impl
begin

lemma run_new_refines:
  assumes "length xs \<le> cap"
  shows "snd (run_ops (map_exec ins upd del look mt) new xs) = snd (run_ops map_spec Map.empty xs)"
    and "abs (fst (run_ops (map_exec ins upd del look mt) new xs)) = fst (run_ops map_spec Map.empty xs)"
  using runs.run_refines [OF inv_new, of xs] assms by (simp_all add: abs_new prod_eq_iff)

end

end
