(* ===== verification/Dict.thy ===== *)
theory Dict
  imports Prelude Set_Interface Map_Interface "HOL-Library.Multiset"
begin

text \<open>
  The hash table of \<^verbatim>\<open>dict.c\<close>: two tables of chained buckets, the second one in use only while the
  entries are moved to it, one bucket at a time (incremental rehashing).

  A table is the list of its buckets and a bucket the list of its entries, in chain order; the
  \<^verbatim>\<open>NULL\<close> table is the empty list. A pointer to an entry is its location: table, bucket and
  position in the chain. The functions of \<^verbatim>\<open>dictType\<close> are the fields of the record \<open>dictType\<close>:
  the hash function and \<^verbatim>\<open>expandAllowed\<close> (which gets the memory, and the two numbers whose ratio
  it gets in C). Keys are compared with equality (\<^verbatim>\<open>keyCompare\<close>), \<^verbatim>\<open>keyDup\<close> and \<^verbatim>\<open>valDup\<close> copy, and the
  destructors only release memory. The global \<^verbatim>\<open>dict_can_resize\<close> is a field of it as well.
  Counters of type \<^verbatim>\<open>unsigned long\<close> are natural numbers; table sizes are checked against 64 bits
  as in the source.
\<close>

section \<open>Model of dict.c\<close>

type_synonym ('k, 'v) table = "('k \<times> 'v) list list"

record ('k, 'v) dict =
  ht_table0 :: "('k, 'v) table"
  ht_table1 :: "('k, 'v) table"
  ht_used0 :: nat
  ht_used1 :: nat
  ht_size_exp0 :: int
  ht_size_exp1 :: int
  rehashidx :: int
  pauserehash :: int

record 'k dictType =
  hashFunction :: "'k \<Rightarrow> u64"
  expandAllowed :: "nat \<Rightarrow> nat \<Rightarrow> nat \<Rightarrow> bool"
  dict_can_resize :: bool

definition dict_force_resize_ratio :: nat where "dict_force_resize_ratio = 5"
definition DICT_HT_INITIAL_EXP :: nat where "DICT_HT_INITIAL_EXP = 2"
definition DICT_HT_INITIAL_SIZE :: nat where "DICT_HT_INITIAL_SIZE = 4"

definition DICTHT_SIZE :: "int \<Rightarrow> nat" where
  "DICTHT_SIZE e = (if e = - 1 then 0 else 2 ^ nat e)"

definition DICTHT_SIZE_MASK :: "int \<Rightarrow> u64" where
  "DICTHT_SIZE_MASK e = (if e = - 1 then 0 else of_nat (DICTHT_SIZE e) - 1)"

definition dictIsRehashing :: "('k, 'v) dict \<Rightarrow> bool" where
  "dictIsRehashing d \<longleftrightarrow> rehashidx d \<noteq> - 1"

definition dictSize :: "('k, 'v) dict \<Rightarrow> nat" where
  "dictSize d = ht_used0 d + ht_used1 d"

definition dictReset0 :: "('k, 'v) dict \<Rightarrow> ('k, 'v) dict" where
  "dictReset0 d = d\<lparr>ht_table0 := [], ht_size_exp0 := - 1, ht_used0 := 0\<rparr>"

definition dictReset1 :: "('k, 'v) dict \<Rightarrow> ('k, 'v) dict" where
  "dictReset1 d = d\<lparr>ht_table1 := [], ht_size_exp1 := - 1, ht_used1 := 0\<rparr>"

definition dictCreate :: "('k, 'v) dict" where
  "dictCreate =
     \<lparr>ht_table0 = [], ht_table1 = [], ht_used0 = 0, ht_used1 = 0, ht_size_exp0 = - 1, ht_size_exp1 = - 1,
      rehashidx = - 1, pauserehash = 0\<rparr>"

subsection \<open>Sizes\<close>

function dictNextExp_loop :: "nat \<Rightarrow> nat \<Rightarrow> nat" where
  "dictNextExp_loop e sz = (if 2 ^ e \<ge> sz then e else dictNextExp_loop (e + 1) sz)"
  by pat_completeness auto
termination by (relation "measure (\<lambda>(e, sz). sz - 2 ^ e)") (auto intro: diff_less_mono2)

declare dictNextExp_loop.simps [simp del]

definition dictNextExp :: "nat \<Rightarrow> nat" where
  "dictNextExp sz = (if sz \<ge> 2 ^ 63 - 1 then 63 else dictNextExp_loop DICT_HT_INITIAL_EXP sz)"

text \<open>
  \<^verbatim>\<open>_dictExpand\<close>: \<open>alloc\<close> is \<open>None\<close> when \<^verbatim>\<open>malloc_failed\<close> is \<^verbatim>\<open>NULL\<close> (the allocation aborts instead of
  failing), and otherwise says whether \<^verbatim>\<open>ztrycalloc\<close> succeeds. The results are \<^verbatim>\<open>DICT_OK\<close>, as a
  boolean, and \<^verbatim>\<open>*malloc_failed\<close>.
\<close>

definition dictExpandRaw :: "('k, 'v) dict \<Rightarrow> nat \<Rightarrow> bool option \<Rightarrow> ('k, 'v) dict \<times> bool \<times> bool" where
  "dictExpandRaw d sz alloc =
     (if dictIsRehashing d \<or> ht_used0 d > sz then (d, False, False)
      else
        (let e = dictNextExp sz; newsize = 2 ^ e in
         if newsize < sz \<or> newsize * 8 mod 2 ^ 64 < newsize then (d, False, False)
         else if int e = ht_size_exp0 d then (d, False, False)
         else if alloc = Some False then (d, False, True)
         else
           (let tbl = replicate newsize [] in
            if ht_table0 d = [] then
              (d\<lparr>ht_size_exp0 := int e, ht_used0 := 0, ht_table0 := tbl\<rparr>, True, False)
            else
              (d\<lparr>ht_size_exp1 := int e, ht_used1 := 0, ht_table1 := tbl, rehashidx := 0\<rparr>, True, False))))"

definition dictExpand :: "('k, 'v) dict \<Rightarrow> nat \<Rightarrow> ('k, 'v) dict \<times> bool" where
  "dictExpand d sz = (case dictExpandRaw d sz None of (d', ok, mf) \<Rightarrow> (d', ok))"

definition dictTryExpand :: "('k, 'v) dict \<Rightarrow> nat \<Rightarrow> bool \<Rightarrow> ('k, 'v) dict \<times> bool" where
  "dictTryExpand d sz alloc = (case dictExpandRaw d sz (Some alloc) of (d', ok, mf) \<Rightarrow> (d', \<not> mf))"

definition dictResize :: "'k dictType \<Rightarrow> ('k, 'v) dict \<Rightarrow> ('k, 'v) dict \<times> bool" where
  "dictResize T d =
     (if \<not> dict_can_resize T \<or> dictIsRehashing d then (d, False)
      else dictExpand d (if ht_used0 d < DICT_HT_INITIAL_SIZE then DICT_HT_INITIAL_SIZE else ht_used0 d))"

definition dictTypeExpandAllowed :: "'k dictType \<Rightarrow> ('k, 'v) dict \<Rightarrow> bool" where
  "dictTypeExpandAllowed T d =
     expandAllowed T (DICTHT_SIZE (int (dictNextExp (ht_used0 d + 1))) * 8) (ht_used0 d) (DICTHT_SIZE (ht_size_exp0 d))"

definition dictExpandIfNeeded :: "'k dictType \<Rightarrow> ('k, 'v) dict \<Rightarrow> ('k, 'v) dict \<times> bool" where
  "dictExpandIfNeeded T d =
     (if dictIsRehashing d then (d, True)
      else if DICTHT_SIZE (ht_size_exp0 d) = 0 then dictExpand d DICT_HT_INITIAL_SIZE
      else if ht_used0 d \<ge> DICTHT_SIZE (ht_size_exp0 d) \<and>
              (dict_can_resize T \<or> ht_used0 d div DICTHT_SIZE (ht_size_exp0 d) > dict_force_resize_ratio) \<and>
              dictTypeExpandAllowed T d
      then dictExpand d (ht_used0 d + 1)
      else (d, True))"

subsection \<open>Incremental rehashing\<close>

definition bucket_of :: "'k dictType \<Rightarrow> int \<Rightarrow> 'k \<Rightarrow> nat" where
  "bucket_of T e key = unat (hashFunction T key AND DICTHT_SIZE_MASK e)"

text \<open>
  The loop over the empty buckets: \<open>bs\<close> are the buckets from \<^verbatim>\<open>rehashidx\<close> on. It ends at a bucket with
  entries, or when the budget of empty visits is used up. Running past the table is excluded by
  the assertion in front of the loop.
\<close>

datatype skip = Found nat nat | Budget nat | Past

fun dictRehash_skip :: "'e list list \<Rightarrow> nat \<Rightarrow> nat \<Rightarrow> skip" where
  "dictRehash_skip [] idx ev = Past"
| "dictRehash_skip (b # bs) idx ev =
     (if b \<noteq> [] then Found idx ev
      else if ev - 1 = 0 then Budget (idx + 1)
      else dictRehash_skip bs (idx + 1) (ev - 1))"

text \<open>One bucket: every entry, in chain order, goes to the front of its bucket in the new table.\<close>

fun dictRehash_move :: "'k dictType \<Rightarrow> ('k \<times> 'v) list \<Rightarrow> ('k, 'v) dict \<Rightarrow> ('k, 'v) dict" where
  "dictRehash_move T [] d = d"
| "dictRehash_move T (de # rest) d =
     (let h = bucket_of T (ht_size_exp1 d) (fst de) in
      dictRehash_move T rest
        (d\<lparr>ht_table1 := (ht_table1 d)[h := de # ht_table1 d ! h],
           ht_used0 := ht_used0 d - 1, ht_used1 := ht_used1 d + 1\<rparr>))"

text \<open>The loop of \<^verbatim>\<open>dictRehash\<close>; the flag is the early \<^verbatim>\<open>return 1\<close>.\<close>

primrec dictRehash_loop :: "'k dictType \<Rightarrow> nat \<Rightarrow> nat \<Rightarrow> ('k, 'v) dict \<Rightarrow> ('k, 'v) dict \<times> bool" where
  "dictRehash_loop T 0 ev d = (d, False)"
| "dictRehash_loop T (Suc n) ev d =
     (if ht_used0 d = 0 then (d, False)
      else
        (case dictRehash_skip (drop (nat (rehashidx d)) (ht_table0 d)) (nat (rehashidx d)) ev of
           Past \<Rightarrow> (d, True)
         | Budget idx \<Rightarrow> (d\<lparr>rehashidx := int idx\<rparr>, True)
         | Found idx ev' \<Rightarrow>
             (let d1 = dictRehash_move T (ht_table0 d ! idx) d;
                  d2 = d1\<lparr>ht_table0 := (ht_table0 d1)[idx := []], rehashidx := int idx + 1\<rparr>
              in dictRehash_loop T n ev' d2)))"

definition dictRehash :: "'k dictType \<Rightarrow> ('k, 'v) dict \<Rightarrow> nat \<Rightarrow> ('k, 'v) dict \<times> bool" where
  "dictRehash T d n =
     (if \<not> dictIsRehashing d then (d, False)
      else
        (case dictRehash_loop T n (n * 10) d of
           (d1, True) \<Rightarrow> (d1, True)
         | (d1, False) \<Rightarrow>
             (if ht_used0 d1 = 0 then
                ((dictReset1 (d1\<lparr>ht_table0 := ht_table1 d1, ht_used0 := ht_used1 d1,
                                 ht_size_exp0 := ht_size_exp1 d1\<rparr>))\<lparr>rehashidx := - 1\<rparr>, False)
              else (d1, True))))"

definition dictRehashStep :: "'k dictType \<Rightarrow> ('k, 'v) dict \<Rightarrow> ('k, 'v) dict" where
  "dictRehashStep T d = (if pauserehash d = 0 then fst (dictRehash T d 1) else d)"

subsection \<open>Lookup, insertion, deletion\<close>

datatype loc = Loc (tbl: nat) (idx: nat) (pos: nat)

text \<open>The walk along a chain: the position of the entry with the key.\<close>

fun chain_find :: "'k \<Rightarrow> ('k \<times> 'v) list \<Rightarrow> nat option" where
  "chain_find key [] = None"
| "chain_find key (he # rest) = (if key = fst he then Some 0 else map_option Suc (chain_find key rest))"

text \<open>The loop over the two tables that lookups, insertions and deletions share.\<close>

definition dict_locate :: "'k dictType \<Rightarrow> ('k, 'v) dict \<Rightarrow> 'k \<Rightarrow> loc option" where
  "dict_locate T d key =
     (let i0 = bucket_of T (ht_size_exp0 d) key in
      case chain_find key (ht_table0 d ! i0) of
        Some p \<Rightarrow> Some (Loc 0 i0 p)
      | None \<Rightarrow>
          (if \<not> dictIsRehashing d then None
           else
             (let i1 = bucket_of T (ht_size_exp1 d) key in
              case chain_find key (ht_table1 d ! i1) of
                Some p \<Rightarrow> Some (Loc 1 i1 p)
              | None \<Rightarrow> None)))"

text \<open>\<^verbatim>\<open>dictSetVal\<close> and reading an entry, through a location.\<close>

definition dictSetVal :: "('k, 'v) dict \<Rightarrow> loc \<Rightarrow> 'v \<Rightarrow> ('k, 'v) dict" where
  "dictSetVal d l v =
     (if tbl l = 0 then
        d\<lparr>ht_table0 := (ht_table0 d)[idx l := (ht_table0 d ! idx l)[pos l := (fst (ht_table0 d ! idx l ! pos l), v)]]\<rparr>
      else
        d\<lparr>ht_table1 := (ht_table1 d)[idx l := (ht_table1 d ! idx l)[pos l := (fst (ht_table1 d ! idx l ! pos l), v)]]\<rparr>)"

definition dict_entry :: "('k, 'v) dict \<Rightarrow> loc \<Rightarrow> 'k \<times> 'v" where
  "dict_entry d l = (if tbl l = 0 then ht_table0 d ! idx l ! pos l else ht_table1 d ! idx l ! pos l)"

text \<open>
  \<^verbatim>\<open>_dictKeyIndex\<close>: the bucket for the new key, or \<^verbatim>\<open>-1\<close> as \<open>None\<close> with \<^verbatim>\<open>*existing\<close>; an expansion that
  fails leaves \<^verbatim>\<open>*existing\<close> at \<^verbatim>\<open>NULL\<close>.
\<close>

definition dictKeyIndex :: "'k dictType \<Rightarrow> ('k, 'v) dict \<Rightarrow> 'k \<Rightarrow> ('k, 'v) dict \<times> nat option \<times> loc option" where
  "dictKeyIndex T d key =
     (case dictExpandIfNeeded T d of
        (d1, False) \<Rightarrow> (d1, None, None)
      | (d1, True) \<Rightarrow>
          (case dict_locate T d1 key of
             Some l \<Rightarrow> (d1, None, Some l)
           | None \<Rightarrow>
               (d1, Some (bucket_of T (if dictIsRehashing d1 then ht_size_exp1 d1 else ht_size_exp0 d1) key), None)))"

text \<open>
  \<^verbatim>\<open>dictAddRaw\<close>: the location of the new entry, or \<open>None\<close> with \<^verbatim>\<open>*existing\<close>. The value field of a new
  entry is not initialised in C; \<open>v0\<close> stands for its content.
\<close>

definition dictAddRaw :: "'k dictType \<Rightarrow> ('k, 'v) dict \<Rightarrow> 'k \<Rightarrow> 'v \<Rightarrow> ('k, 'v) dict \<times> loc option \<times> loc option" where
  "dictAddRaw T d key v0 =
     (let d1 = (if dictIsRehashing d then dictRehashStep T d else d) in
      case dictKeyIndex T d1 key of
        (d2, None, existing) \<Rightarrow> (d2, None, existing)
      | (d2, Some i, existing) \<Rightarrow>
          (if dictIsRehashing d2 then
             (d2\<lparr>ht_table1 := (ht_table1 d2)[i := (key, v0) # ht_table1 d2 ! i], ht_used1 := ht_used1 d2 + 1\<rparr>,
              Some (Loc 1 i 0), existing)
           else
             (d2\<lparr>ht_table0 := (ht_table0 d2)[i := (key, v0) # ht_table0 d2 ! i], ht_used0 := ht_used0 d2 + 1\<rparr>,
              Some (Loc 0 i 0), existing)))"

definition dictAdd :: "'k dictType \<Rightarrow> ('k, 'v) dict \<Rightarrow> 'k \<Rightarrow> 'v \<Rightarrow> 'v \<Rightarrow> ('k, 'v) dict \<times> bool" where
  "dictAdd T d key val v0 =
     (case dictAddRaw T d key v0 of
        (d1, None, ex) \<Rightarrow> (d1, False)
      | (d1, Some l, ex) \<Rightarrow> (dictSetVal d1 l val, True))"

text \<open>\<^verbatim>\<open>dictReplace\<close>; its dereference of \<^verbatim>\<open>existing\<close> needs one, which is the case of \<open>Some\<close>.\<close>

definition dictReplace :: "'k dictType \<Rightarrow> ('k, 'v) dict \<Rightarrow> 'k \<Rightarrow> 'v \<Rightarrow> 'v \<Rightarrow> ('k, 'v) dict \<times> bool" where
  "dictReplace T d key val v0 =
     (case dictAddRaw T d key v0 of
        (d1, Some l, ex) \<Rightarrow> (dictSetVal d1 l val, True)
      | (d1, None, Some l) \<Rightarrow> (dictSetVal d1 l val, False)
      | (d1, None, None) \<Rightarrow> (d1, False))"

definition dictAddOrFind :: "'k dictType \<Rightarrow> ('k, 'v) dict \<Rightarrow> 'k \<Rightarrow> 'v \<Rightarrow> ('k, 'v) dict \<times> loc option" where
  "dictAddOrFind T d key v0 =
     (case dictAddRaw T d key v0 of
        (d1, Some l, ex) \<Rightarrow> (d1, Some l)
      | (d1, None, ex) \<Rightarrow> (d1, ex))"

text \<open>
  \<^verbatim>\<open>dictGenericDelete\<close> unlinks the entry and returns it; freeing it or not (\<^verbatim>\<open>nofree\<close>) makes no
  difference to the table.
\<close>

definition remove_nth :: "nat \<Rightarrow> 'a list \<Rightarrow> 'a list" where
  "remove_nth p xs = take p xs @ drop (Suc p) xs"

definition dictGenericDelete :: "'k dictType \<Rightarrow> ('k, 'v) dict \<Rightarrow> 'k \<Rightarrow> ('k, 'v) dict \<times> ('k \<times> 'v) option" where
  "dictGenericDelete T d key =
     (if dictSize d = 0 then (d, None)
      else
        (let d1 = (if dictIsRehashing d then dictRehashStep T d else d) in
         case dict_locate T d1 key of
           None \<Rightarrow> (d1, None)
         | Some l \<Rightarrow>
             (if tbl l = 0 then
                (d1\<lparr>ht_table0 := (ht_table0 d1)[idx l := remove_nth (pos l) (ht_table0 d1 ! idx l)],
                    ht_used0 := ht_used0 d1 - 1\<rparr>, Some (dict_entry d1 l))
              else
                (d1\<lparr>ht_table1 := (ht_table1 d1)[idx l := remove_nth (pos l) (ht_table1 d1 ! idx l)],
                    ht_used1 := ht_used1 d1 - 1\<rparr>, Some (dict_entry d1 l)))))"

definition dictDelete :: "'k dictType \<Rightarrow> ('k, 'v) dict \<Rightarrow> 'k \<Rightarrow> ('k, 'v) dict \<times> bool" where
  "dictDelete T d key = (case dictGenericDelete T d key of (d1, e) \<Rightarrow> (d1, e \<noteq> None))"

definition dictUnlink :: "'k dictType \<Rightarrow> ('k, 'v) dict \<Rightarrow> 'k \<Rightarrow> ('k, 'v) dict \<times> ('k \<times> 'v) option" where
  "dictUnlink T d key = dictGenericDelete T d key"

definition dictFind :: "'k dictType \<Rightarrow> ('k, 'v) dict \<Rightarrow> 'k \<Rightarrow> ('k, 'v) dict \<times> loc option" where
  "dictFind T d key =
     (if dictSize d = 0 then (d, None)
      else
        (let d1 = (if dictIsRehashing d then dictRehashStep T d else d) in
         (d1, dict_locate T d1 key)))"

definition dictFetchValue :: "'k dictType \<Rightarrow> ('k, 'v) dict \<Rightarrow> 'k \<Rightarrow> ('k, 'v) dict \<times> 'v option" where
  "dictFetchValue T d key =
     (case dictFind T d key of (d1, l) \<Rightarrow> (d1, map_option (\<lambda>l. snd (dict_entry d1 l)) l))"

text \<open>
  \<^verbatim>\<open>_dictClear\<close> releases the entries, counting them down until none is left, and resets the table;
  \<^verbatim>\<open>dictEmpty\<close> does so with both tables. The callback only reports progress.
\<close>

fun dictClear_loop :: "('k, 'v) table \<Rightarrow> nat \<Rightarrow> nat" where
  "dictClear_loop [] used = used"
| "dictClear_loop (b # bs) used = (if used > 0 then dictClear_loop bs (used - length b) else used)"

definition dictClear0 :: "('k, 'v) dict \<Rightarrow> ('k, 'v) dict" where
  "dictClear0 d = dictReset0 (d\<lparr>ht_used0 := dictClear_loop (ht_table0 d) (ht_used0 d)\<rparr>)"

definition dictClear1 :: "('k, 'v) dict \<Rightarrow> ('k, 'v) dict" where
  "dictClear1 d = dictReset1 (d\<lparr>ht_used1 := dictClear_loop (ht_table1 d) (ht_used1 d)\<rparr>)"

definition dictEmpty :: "('k, 'v) dict \<Rightarrow> ('k, 'v) dict" where
  "dictEmpty d = (dictClear1 (dictClear0 d))\<lparr>rehashidx := - 1, pauserehash := 0\<rparr>"

text \<open>
  \<^verbatim>\<open>dictRehashMilliseconds\<close>: \<open>ts\<close> are the times since the start that the clock reports; \<open>None\<close> if the list is
  too short.
\<close>

fun dictRehashMs_loop :: "'k dictType \<Rightarrow> ('k, 'v) dict \<Rightarrow> int list \<Rightarrow> int \<Rightarrow> nat \<Rightarrow> (('k, 'v) dict \<times> nat) option" where
  "dictRehashMs_loop T d [] ms rehashes =
     (case dictRehash T d 100 of (d1, False) \<Rightarrow> Some (d1, rehashes) | (d1, True) \<Rightarrow> None)"
| "dictRehashMs_loop T d (t # ts) ms rehashes =
     (case dictRehash T d 100 of
        (d1, False) \<Rightarrow> Some (d1, rehashes)
      | (d1, True) \<Rightarrow> if t > ms then Some (d1, rehashes + 100) else dictRehashMs_loop T d1 ts ms (rehashes + 100))"

definition dictRehashMilliseconds :: "'k dictType \<Rightarrow> ('k, 'v) dict \<Rightarrow> int list \<Rightarrow> int \<Rightarrow> (('k, 'v) dict \<times> nat) option" where
  "dictRehashMilliseconds T d ts ms = (if pauserehash d > 0 then Some (d, 0) else dictRehashMs_loop T d ts ms 0)"

section \<open>Buckets and tables\<close>

text \<open>
  A table of \<open>2 ^ e\<close> buckets in which every key is in the bucket of its hash. The number of buckets
  is bounded by the check against 64-bit sizes in \<^verbatim>\<open>_dictExpand\<close>.
\<close>

definition exp_ok :: "int \<Rightarrow> bool" where
  "exp_ok e \<longleftrightarrow> 0 \<le> e \<and> e \<le> 60"

definition table_ok :: "'k dictType \<Rightarrow> int \<Rightarrow> ('k, 'v) table \<Rightarrow> bool" where
  "table_ok T e tb \<longleftrightarrow>
     length tb = DICTHT_SIZE e \<and> (\<forall>i < length tb. \<forall>x \<in> set (tb ! i). bucket_of T e (fst x) = i)"

lemma table_okD: "table_ok T e tb \<Longrightarrow> i < length tb \<Longrightarrow> x \<in> set (tb ! i) \<Longrightarrow> bucket_of T e (fst x) = i"
  by (simp add: table_ok_def)

lemma DICTHT_SIZE_exp: "exp_ok e \<Longrightarrow> DICTHT_SIZE e = 2 ^ nat e"
  by (simp add: DICTHT_SIZE_def exp_ok_def)

lemma DICTHT_SIZE_neg [simp]: "DICTHT_SIZE (- 1) = 0"
  by (simp add: DICTHT_SIZE_def)

lemma size_mask:
  assumes "exp_ok e" shows "DICTHT_SIZE_MASK e = mask (nat e)"
proof -
  have "(2 :: u64) ^ nat e - 1 = mask (nat e)" by (simp add: mask_eq_exp_minus_1)
  then show ?thesis using assms by (simp add: DICTHT_SIZE_MASK_def DICTHT_SIZE_exp exp_ok_def)
qed

lemma bucket_of_mod: "exp_ok e \<Longrightarrow> bucket_of T e key = unat (hashFunction T key) mod 2 ^ nat e"
  unfolding bucket_of_def size_mask take_bit_eq_mask [symmetric] take_bit_eq_mod [symmetric]
  by (rule unsigned_take_bit_eq)

lemma bucket_lt: "exp_ok e \<Longrightarrow> table_ok T e tb \<Longrightarrow> bucket_of T e key < length tb"
  by (simp add: table_ok_def DICTHT_SIZE_exp bucket_of_mod)

lemma chain_find_Some: "chain_find key c = Some p \<Longrightarrow> p < length c \<and> fst (c ! p) = key"
  by (induction c arbitrary: p) (auto split: if_splits)

lemma chain_find_None: "chain_find key c = None \<longleftrightarrow> key \<notin> fst ` set c"
  by (induction c) auto

text \<open>Replacing one bucket, as a change of the multiset of entries.\<close>

lemma mset_concat_update:
  "i < length tb \<Longrightarrow> mset (concat (tb[i := c])) + mset (tb ! i) = mset (concat tb) + mset c"
proof (induction tb arbitrary: i)
  case (Cons b tb)
  show ?case
  proof (cases i)
    case (Suc j)
    then have "mset (concat (tb[j := c])) + mset (tb ! j) = mset (concat tb) + mset c"
      using Cons by simp
    then show ?thesis by (simp add: Suc add.assoc)
  qed simp
qed simp

lemma length_concat_update:
  "i < length tb \<Longrightarrow> length (concat (tb[i := c])) + length (tb ! i) = length (concat tb) + length c"
  using mset_concat_update [of i tb c] by (metis size_mset size_union)

lemma mset_remove_nth: "p < length xs \<Longrightarrow> add_mset (xs ! p) (mset (remove_nth p xs)) = mset xs"
  by (metis id_take_nth_drop mset.simps(2) mset_append remove_nth_def union_mset_add_mset_right)

lemma table_put:
  "i < length tb \<Longrightarrow> mset (concat (tb[i := x # tb ! i])) = add_mset x (mset (concat tb))"
  using mset_concat_update [of i tb "x # tb ! i"] by simp

lemma table_remove:
  assumes "i < length tb" "p < length (tb ! i)"
  shows "add_mset (tb ! i ! p) (mset (concat (tb[i := remove_nth p (tb ! i)]))) = mset (concat tb)"
proof -
  have "mset (concat (tb[i := remove_nth p (tb ! i)])) + add_mset (tb ! i ! p) (mset (remove_nth p (tb ! i)))
      = mset (concat tb) + mset (remove_nth p (tb ! i))"
    using mset_concat_update [OF assms(1)] mset_remove_nth [OF assms(2)] by simp
  then show ?thesis by simp
qed

lemma table_set:
  assumes "i < length tb" "p < length (tb ! i)"
  shows "add_mset (tb ! i ! p) (mset (concat (tb[i := (tb ! i)[p := x]]))) = add_mset x (mset (concat tb))"
proof -
  let ?c = "(tb ! i)[p := x]"
  have "remove_nth p ?c = remove_nth p (tb ! i)" by (simp add: remove_nth_def)
  then have c: "mset ?c = add_mset x (mset (remove_nth p (tb ! i)))"
    using mset_remove_nth [of p ?c] assms(2) by simp
  have "mset (concat (tb[i := ?c])) + add_mset (tb ! i ! p) (mset (remove_nth p (tb ! i)))
      = mset (concat tb) + add_mset x (mset (remove_nth p (tb ! i)))"
    using mset_concat_update [OF assms(1), of ?c] mset_remove_nth [OF assms(2)] c by simp
  then show ?thesis by simp
qed

lemma table_clear:
  "i < length tb \<Longrightarrow> mset (concat (tb[i := []])) + mset (tb ! i) = mset (concat tb)"
  using mset_concat_update [of i tb "[]"] by simp

lemma table_ok_update:
  assumes "table_ok T e tb" "\<And>x. x \<in> set c \<Longrightarrow> bucket_of T e (fst x) = i"
  shows "table_ok T e (tb[i := c])"
  unfolding table_ok_def
proof (intro conjI allI impI ballI)
  show "length (tb[i := c]) = DICTHT_SIZE e" using assms(1) by (simp add: table_ok_def)
  fix j x
  assume "j < length (tb[i := c])" "x \<in> set (tb[i := c] ! j)"
  then show "bucket_of T e (fst x) = j"
    using assms by (cases "i = j") (simp_all add: table_ok_def)
qed

lemma table_ok_key:
  assumes "table_ok T e tb" "exp_ok e"
  shows "key \<in> fst ` set (concat tb) \<longleftrightarrow> key \<in> fst ` set (tb ! bucket_of T e key)"
proof
  assume "key \<in> fst ` set (concat tb)"
  then obtain i x where "i < length tb" "x \<in> set (tb ! i)" "fst x = key"
    by (auto simp: in_set_conv_nth [of _ tb])
  then show "key \<in> fst ` set (tb ! bucket_of T e key)" using assms(1)
    unfolding table_ok_def by (metis imageI)
next
  assume "key \<in> fst ` set (tb ! bucket_of T e key)"
  moreover have "tb ! bucket_of T e key \<in> set tb" using bucket_lt [OF assms(2,1)] by simp
  ultimately show "key \<in> fst ` set (concat tb)" by auto
qed

section \<open>The invariant and the map of a dict\<close>

definition dict_entries :: "('k, 'v) dict \<Rightarrow> ('k \<times> 'v) list" where
  "dict_entries d = concat (ht_table0 d) @ concat (ht_table1 d)"

definition dict_map :: "('k, 'v) dict \<Rightarrow> 'k \<rightharpoonup> 'v" where
  "dict_map d = map_of (dict_entries d)"

text \<open>
  Both tables are well formed, the counters count, and no key occurs twice over the two tables.
  Without rehashing there is no second table; with it both tables exist and the buckets of the
  first one below \<^verbatim>\<open>rehashidx\<close> have been emptied.
\<close>

definition dict_ok :: "'k dictType \<Rightarrow> ('k, 'v) dict \<Rightarrow> bool" where
  "dict_ok T d \<longleftrightarrow>
     (ht_size_exp0 d = - 1 \<or> exp_ok (ht_size_exp0 d)) \<and>
     table_ok T (ht_size_exp0 d) (ht_table0 d) \<and> table_ok T (ht_size_exp1 d) (ht_table1 d) \<and>
     ht_used0 d = length (concat (ht_table0 d)) \<and> ht_used1 d = length (concat (ht_table1 d)) \<and>
     distinct (map fst (dict_entries d)) \<and>
     (if rehashidx d = - 1 then ht_size_exp1 d = - 1
      else exp_ok (ht_size_exp0 d) \<and> exp_ok (ht_size_exp1 d) \<and>
        0 \<le> rehashidx d \<and> rehashidx d \<le> int (length (ht_table0 d)) \<and>
        (\<forall>i < nat (rehashidx d). ht_table0 d ! i = []))"

lemma dict_ok_table1: "dict_ok T d \<Longrightarrow> \<not> dictIsRehashing d \<Longrightarrow> ht_table1 d = []"
  by (auto simp: dict_ok_def dictIsRehashing_def table_ok_def)

lemma dictSize_entries: "dict_ok T d \<Longrightarrow> dictSize d = length (dict_entries d)"
  by (simp add: dict_ok_def dictSize_def dict_entries_def)

lemma finite_dict_map [simp]: "finite (dom (dict_map d))"
  by (simp add: dict_map_def finite_dom_map_of)

lemma dictSize_card: "dict_ok T d \<Longrightarrow> dictSize d = card (dom (dict_map d))"
proof -
  assume ok: "dict_ok T d"
  then have "distinct (map fst (dict_entries d))" by (simp add: dict_ok_def)
  then show ?thesis using dictSize_entries [OF ok] distinct_card [of "map fst (dict_entries d)"]
    by (simp add: dict_map_def dom_map_of_conv_image_fst)
qed

text \<open>A map of entries with distinct keys depends on their multiset only.\<close>

lemma map_of_mset:
  assumes "mset xs = mset ys" "distinct (map fst xs)"
  shows "distinct (map fst ys)" and "map_of ys = map_of xs"
proof -
  have "mset (map fst xs) = mset (map fst ys)" using assms(1) by simp
  then show d: "distinct (map fst ys)" using assms(2) mset_eq_imp_distinct_iff by blast
  show "map_of ys = map_of xs"
    using map_of_inject_set [OF d assms(2)] mset_eq_setD [OF assms(1)] by simp
qed

lemma map_of_mset_insert:
  assumes "mset ys = add_mset (k, v) (mset xs)" "distinct (map fst xs)" "k \<notin> fst ` set xs"
  shows "distinct (map fst ys)" and "map_of ys = (map_of xs)(k \<mapsto> v)"
proof -
  have m: "mset ((k, v) # xs) = mset ys" using assms(1) by simp
  have d: "distinct (map fst ((k, v) # xs))" using assms(2,3) by simp
  show "distinct (map fst ys)" by (rule map_of_mset(1) [OF m d])
  show "map_of ys = (map_of xs)(k \<mapsto> v)" using map_of_mset(2) [OF m d] by simp
qed

lemma map_of_mset_delete:
  assumes "add_mset (k, v) (mset ys) = mset xs" "distinct (map fst xs)"
  shows "distinct (map fst ys)" and "k \<notin> fst ` set ys" and "map_of ys = (map_of xs)(k := None)"
    and "map_of xs k = Some v"
proof -
  have m: "mset xs = mset ((k, v) # ys)" using assms(1) by simp
  have d: "distinct (map fst ((k, v) # ys))" by (rule map_of_mset(1) [OF m assms(2)])
  then show "distinct (map fst ys)" "k \<notin> fst ` set ys" by simp_all
  then have "map_of ys k = None" by (simp add: map_of_eq_None_iff)
  moreover have "map_of xs = (map_of ys)(k \<mapsto> v)" using map_of_mset(2) [OF m assms(2)] by simp
  ultimately show "map_of ys = (map_of xs)(k := None)" "map_of xs k = Some v" by auto
qed

subsection \<open>Locating a key\<close>

definition loc_ok :: "('k, 'v) dict \<Rightarrow> loc \<Rightarrow> bool" where
  "loc_ok d l \<longleftrightarrow>
     (if tbl l = 0 then idx l < length (ht_table0 d) \<and> pos l < length (ht_table0 d ! idx l)
      else idx l < length (ht_table1 d) \<and> pos l < length (ht_table1 d ! idx l))"

lemma loc_entry: "loc_ok d l \<Longrightarrow> dict_entry d l \<in> set (dict_entries d)"
  by (cases "tbl l = 0") (auto simp: loc_ok_def dict_entry_def dict_entries_def intro: nth_mem)

lemma dict_map_entry:
  assumes "dict_ok T d" "loc_ok d l"
  shows "dict_map d (fst (dict_entry d l)) = Some (snd (dict_entry d l))"
  using loc_entry [OF assms(2)] assms(1) by (simp add: dict_map_def dict_ok_def)

lemma dict_locate_Some:
  assumes "dict_ok T d" "exp_ok (ht_size_exp0 d)" "dict_locate T d key = Some l"
  shows "loc_ok d l" and "fst (dict_entry d l) = key"
proof -
  let ?i0 = "bucket_of T (ht_size_exp0 d) key" and ?i1 = "bucket_of T (ht_size_exp1 d) key"
  have b: "?i0 < length (ht_table0 d)" using assms by (simp add: dict_ok_def bucket_lt)
  have "loc_ok d l \<and> fst (dict_entry d l) = key"
  proof (cases "chain_find key (ht_table0 d ! ?i0)")
    case (Some p)
    then show ?thesis using assms(3) b chain_find_Some [OF Some]
      by (auto simp: dict_locate_def Let_def loc_ok_def dict_entry_def)
  next
    case None
    with assms(3) obtain p where r: "dictIsRehashing d" and p: "chain_find key (ht_table1 d ! ?i1) = Some p"
      and l: "l = Loc 1 ?i1 p"
      by (auto simp: dict_locate_def Let_def split: if_splits option.splits)
    have "?i1 < length (ht_table1 d)"
      using assms(1) r by (auto simp: dict_ok_def dictIsRehashing_def bucket_lt)
    then show ?thesis using chain_find_Some [OF p] by (simp add: l loc_ok_def dict_entry_def)
  qed
  then show "loc_ok d l" "fst (dict_entry d l) = key" by simp_all
qed

lemma dict_locate_None:
  assumes "dict_ok T d" "exp_ok (ht_size_exp0 d)" "dict_locate T d key = None"
  shows "key \<notin> fst ` set (dict_entries d)"
proof -
  let ?i0 = "bucket_of T (ht_size_exp0 d) key" and ?i1 = "bucket_of T (ht_size_exp1 d) key"
  have "chain_find key (ht_table0 d ! ?i0) = None"
    using assms(3) by (auto simp: dict_locate_def Let_def split: if_splits option.splits)
  then have k0: "key \<notin> fst ` set (concat (ht_table0 d))"
    using table_ok_key assms(1,2) by (metis chain_find_None dict_ok_def)
  have "key \<notin> fst ` set (concat (ht_table1 d))"
  proof (cases "dictIsRehashing d")
    case True
    then have "chain_find key (ht_table1 d ! ?i1) = None"
      using assms(3) by (auto simp: dict_locate_def Let_def split: if_splits option.splits)
    moreover have "exp_ok (ht_size_exp1 d)" "table_ok T (ht_size_exp1 d) (ht_table1 d)"
      using True assms(1) by (simp_all add: dict_ok_def dictIsRehashing_def)
    ultimately show ?thesis using table_ok_key by (metis chain_find_None)
  next
    case False
    then show ?thesis using dict_ok_table1 [OF assms(1)] by simp
  qed
  with k0 show ?thesis by (simp add: dict_entries_def image_Un)
qed

lemma dict_locate_map:
  assumes "dict_ok T d" "exp_ok (ht_size_exp0 d)"
  shows "map_option (\<lambda>l. snd (dict_entry d l)) (dict_locate T d key) = dict_map d key"
proof (cases "dict_locate T d key")
  case None
  then show ?thesis using dict_locate_None [OF assms None] by (simp add: dict_map_def eq_commute [of None] map_of_eq_None_iff)
next
  case (Some l)
  note l = dict_locate_Some [OF assms Some]
  show ?thesis using dict_map_entry [OF assms(1) l(1)] by (simp add: Some l(2))
qed

subsection \<open>Rehashing\<close>

text \<open>With entries left the walk over empty buckets never runs past the table.\<close>

fun skip_ok :: "'e list list \<Rightarrow> nat \<Rightarrow> skip \<Rightarrow> bool" where
  "skip_ok bs i Past = False"
| "skip_ok bs i (Budget j) \<longleftrightarrow> i < j \<and> j - i < length bs \<and> (\<forall>m < j - i. bs ! m = [])"
| "skip_ok bs i (Found j ev) \<longleftrightarrow> i \<le> j \<and> j - i < length bs \<and> bs ! (j - i) \<noteq> [] \<and> (\<forall>m < j - i. bs ! m = [])"

lemma skip_ok_Cons: "skip_ok bs (Suc i) r \<Longrightarrow> skip_ok ([] # bs) i r"
  by (cases r) (auto simp: nth_Cons' Suc_diff_le Suc_le_eq less_diff_conv)

lemma dictRehash_skip_ok:
  "\<exists>b \<in> set bs. b \<noteq> [] \<Longrightarrow> skip_ok bs i (dictRehash_skip bs i ev)"
proof (induction bs i ev rule: dictRehash_skip.induct)
  case (2 b bs i ev)
  show ?case
  proof (cases "b = []")
    case True
    then have ne: "\<exists>b \<in> set bs. b \<noteq> []" using "2.prems" by simp
    then have "bs \<noteq> []" by auto
    then show ?thesis using "2.IH" [OF _ _ ne] True skip_ok_Cons [of bs i] by (auto simp: neq_Nil_conv)
  qed simp
qed simp

lemma concat_nonempty: "length (concat tb) \<noteq> 0 \<longleftrightarrow> (\<exists>b \<in> set tb. b \<noteq> [])"
  by auto

lemma dictRehash_move_spec:
  assumes "table_ok T (ht_size_exp1 d) (ht_table1 d)" "exp_ok (ht_size_exp1 d)"
  shows "\<exists>t1. dictRehash_move T es d =
      d\<lparr>ht_table1 := t1, ht_used0 := ht_used0 d - length es, ht_used1 := ht_used1 d + length es\<rparr> \<and>
    table_ok T (ht_size_exp1 d) t1 \<and> mset (concat t1) = mset es + mset (concat (ht_table1 d))"
  using assms
proof (induction es arbitrary: d)
  case Nil
  then show ?case by (intro exI [of _ "ht_table1 d"]) simp
next
  case (Cons x es)
  let ?e = "ht_size_exp1 d" and ?t = "ht_table1 d"
  let ?h = "bucket_of T ?e (fst x)"
  let ?t' = "?t[?h := x # ?t ! ?h]"
  let ?d = "d\<lparr>ht_table1 := ?t', ht_used0 := ht_used0 d - 1, ht_used1 := ht_used1 d + 1\<rparr>"
  have h: "?h < length ?t" using Cons.prems by (simp add: bucket_lt)
  have ok: "table_ok T ?e ?t'"
    using Cons.prems h by (intro table_ok_update) (auto simp: table_ok_def)
  have m: "mset (concat ?t') = add_mset x (mset (concat ?t))" by (rule table_put [OF h])
  obtain t1 where "dictRehash_move T es ?d =
      ?d\<lparr>ht_table1 := t1, ht_used0 := ht_used0 ?d - length es, ht_used1 := ht_used1 ?d + length es\<rparr>"
    and "table_ok T ?e t1" and "mset (concat t1) = mset es + mset (concat ?t')"
    using Cons.IH [of ?d] ok Cons.prems(2) by auto
  then show ?case using m by (intro exI [of _ t1]) (simp add: Let_def)
qed

text \<open>One round: the bucket \<open>idx\<close>, all in front of it being empty, is moved.\<close>

definition rehash_bucket :: "'k dictType \<Rightarrow> nat \<Rightarrow> ('k, 'v) dict \<Rightarrow> ('k, 'v) dict" where
  "rehash_bucket T i d =
     (let d1 = dictRehash_move T (ht_table0 d ! i) d
      in d1\<lparr>ht_table0 := (ht_table0 d1)[i := []], rehashidx := int i + 1\<rparr>)"

lemma dict_ok_rehashidx:
  assumes "dict_ok T d" "dictIsRehashing d" "nat (rehashidx d) \<le> i" "i \<le> length (ht_table0 d)"
    "\<forall>j < i. ht_table0 d ! j = []"
  shows "dict_ok T (d\<lparr>rehashidx := int i\<rparr>)"
  using assms by (simp add: dict_ok_def dictIsRehashing_def dict_entries_def)

lemma rehash_bucket_ok:
  assumes ok: "dict_ok T d" and r: "dictIsRehashing d" and i: "i < length (ht_table0 d)"
    and e: "\<forall>j < i. ht_table0 d ! j = []"
  shows "dict_ok T (rehash_bucket T i d)"
    and "mset (dict_entries (rehash_bucket T i d)) = mset (dict_entries d)"
    and "dictIsRehashing (rehash_bucket T i d)" and "rehashidx (rehash_bucket T i d) = int i + 1"
    and "pauserehash (rehash_bucket T i d) = pauserehash d"
    and "length (ht_table0 (rehash_bucket T i d)) = length (ht_table0 d)"
proof -
  let ?c = "ht_table0 d ! i" and ?d = "rehash_bucket T i d"
  have p: "table_ok T (ht_size_exp1 d) (ht_table1 d)" "exp_ok (ht_size_exp1 d)"
    using ok r by (simp_all add: dict_ok_def dictIsRehashing_def)
  obtain t1 where mv: "dictRehash_move T ?c d =
      d\<lparr>ht_table1 := t1, ht_used0 := ht_used0 d - length ?c, ht_used1 := ht_used1 d + length ?c\<rparr>"
    and t1: "table_ok T (ht_size_exp1 d) t1" and m1: "mset (concat t1) = mset ?c + mset (concat (ht_table1 d))"
    using dictRehash_move_spec [OF p] by blast
  have m0: "mset (concat ((ht_table0 d)[i := []])) + mset ?c = mset (concat (ht_table0 d))"
    by (rule table_clear [OF i])
  then have l0: "length (concat ((ht_table0 d)[i := []])) + length ?c = length (concat (ht_table0 d))"
    by (metis size_mset size_union)
  have l1: "length (concat t1) = length ?c + length (concat (ht_table1 d))"
    using m1 by (metis size_mset size_union)
  show m: "mset (dict_entries ?d) = mset (dict_entries d)"
    using m0 m1 by (simp add: rehash_bucket_def mv dict_entries_def union_assoc flip: m0)
  have "distinct (map fst (dict_entries ?d))"
    using map_of_mset(1) [OF m [symmetric]] ok by (simp add: dict_ok_def)
  moreover have "table_ok T (ht_size_exp0 d) ((ht_table0 d)[i := []])"
    using ok by (intro table_ok_update) (simp_all add: dict_ok_def)
  moreover have "\<forall>j < Suc i. (ht_table0 d)[i := []] ! j = []"
    using e i by (auto simp: nth_list_update less_Suc_eq)
  ultimately show "dict_ok T ?d"
    using ok r t1 l0 l1 i by (simp add: rehash_bucket_def mv dict_ok_def dictIsRehashing_def nat_add_distrib)
  show "dictIsRehashing ?d" "rehashidx ?d = int i + 1" "pauserehash ?d = pauserehash d"
    "length (ht_table0 ?d) = length (ht_table0 d)"
    by (simp_all add: rehash_bucket_def mv dictIsRehashing_def)
qed

text \<open>What steps of rehashing keep, and the progress they make.\<close>

definition rehash_rel :: "'k dictType \<Rightarrow> ('k, 'v) dict \<Rightarrow> ('k, 'v) dict \<Rightarrow> bool" where
  "rehash_rel T d d' \<longleftrightarrow>
     dict_ok T d' \<and> mset (dict_entries d') = mset (dict_entries d) \<and> pauserehash d' = pauserehash d"

lemma rehash_rel_refl: "dict_ok T d \<Longrightarrow> rehash_rel T d d"
  by (simp add: rehash_rel_def)

lemma rehash_rel_trans: "rehash_rel T d d1 \<Longrightarrow> rehash_rel T d1 d2 \<Longrightarrow> rehash_rel T d d2"
  by (simp add: rehash_rel_def)

lemma rehash_rel_map:
  assumes "dict_ok T d" "rehash_rel T d d'"
  shows "dict_map d' = dict_map d" and "dictSize d' = dictSize d"
proof -
  have m: "mset (dict_entries d) = mset (dict_entries d')" and ok: "dict_ok T d'"
    using assms(2) by (simp_all add: rehash_rel_def)
  have "distinct (map fst (dict_entries d))" using assms(1) by (simp add: dict_ok_def)
  then show "dict_map d' = dict_map d" unfolding dict_map_def by (rule map_of_mset(2) [OF m])
  show "dictSize d' = dictSize d"
    using mset_eq_length [OF m] dictSize_entries [OF ok] dictSize_entries [OF assms(1)] by simp
qed

definition loop_rel :: "'k dictType \<Rightarrow> nat \<Rightarrow> ('k, 'v) dict \<Rightarrow> ('k, 'v) dict \<times> bool \<Rightarrow> bool" where
  "loop_rel T n d r \<longleftrightarrow>
     rehash_rel T d (fst r) \<and> dictIsRehashing (fst r) \<and> length (ht_table0 (fst r)) = length (ht_table0 d) \<and>
     rehashidx d \<le> rehashidx (fst r) \<and> (0 < n \<longrightarrow> ht_used0 d = 0 \<or> rehashidx d < rehashidx (fst r)) \<and>
     (snd r \<longrightarrow> ht_used0 (fst r) \<noteq> 0)"

lemma loop_skip:
  assumes ok: "dict_ok T d" and r: "dictIsRehashing d" and u: "ht_used0 d \<noteq> 0"
  shows "skip_ok (drop (nat (rehashidx d)) (ht_table0 d)) (nat (rehashidx d))
    (dictRehash_skip (drop (nat (rehashidx d)) (ht_table0 d)) (nat (rehashidx d)) ev)"
proof (rule dictRehash_skip_ok)
  let ?t = "ht_table0 d" and ?i = "nat (rehashidx d)"
  obtain b where "b \<in> set ?t" "b \<noteq> []" using ok u concat_nonempty [of ?t] by (auto simp: dict_ok_def)
  then obtain j where j: "j < length ?t" "?t ! j \<noteq> []" by (auto simp: in_set_conv_nth)
  then have "\<not> j < ?i" using ok r by (auto simp: dict_ok_def dictIsRehashing_def)
  then have "?t ! j \<in> set (drop ?i ?t)"
    using j nth_drop [of ?i ?t "j - ?i"] nth_mem [of "j - ?i" "drop ?i ?t"] by simp
  then show "\<exists>b \<in> set (drop ?i ?t). b \<noteq> []" using j by blast
qed

lemma empty_below:
  assumes "\<forall>j < i. t ! j = []" "\<forall>m < k - i. drop i t ! m = []" "i \<le> length t" "j < k"
  shows "t ! j = []"
proof (cases "j < i")
  case True
  then show ?thesis using assms(1) by blast
next
  case False
  then have "drop i t ! (j - i) = []" using assms(2,4) by simp
  then show ?thesis using False assms(3) by simp
qed

lemma dictRehash_loop_rel:
  assumes "dict_ok T d" "dictIsRehashing d"
  shows "loop_rel T n d (dictRehash_loop T n ev d)"
  using assms
proof (induction n arbitrary: ev d)
  case 0
  then show ?case by (simp add: loop_rel_def rehash_rel_refl)
next
  case (Suc n)
  note ok = Suc.prems(1) and r = Suc.prems(2)
  let ?t = "ht_table0 d" and ?i = "nat (rehashidx d)"
  let ?s = "dictRehash_skip (drop ?i ?t) ?i ev"
  have i: "0 \<le> rehashidx d" "?i \<le> length ?t" "\<forall>j < ?i. ?t ! j = []"
    using ok r by (auto simp: dict_ok_def dictIsRehashing_def)
  show ?case
  proof (cases "ht_used0 d = 0")
    case True
    then show ?thesis using ok r by (simp add: loop_rel_def rehash_rel_refl)
  next
    case u: False
    note sk = loop_skip [OF ok r u, of ev]
    show ?thesis
    proof (cases ?s)
      case Past
      then show ?thesis using sk by simp
    next
      case (Budget k)
      then have k: "?i < k" "k < length ?t" "\<forall>m < k - ?i. drop ?i ?t ! m = []" using sk by auto
      have "dict_ok T (d\<lparr>rehashidx := int k\<rparr>)"
        using empty_below [OF i(3) k(3) i(2)] k by (intro dict_ok_rehashidx [OF ok r]) auto
      moreover have "rehashidx d < int k" using k(1) i(1) by simp
      ultimately show ?thesis using u
        by (simp add: Budget loop_rel_def rehash_rel_def dict_entries_def dictIsRehashing_def)
    next
      case (Found k ev')
      have "?i \<le> k \<and> k - ?i < length ?t - ?i \<and> (\<forall>m < k - ?i. drop ?i ?t ! m = [])"
        using sk unfolding Found skip_ok.simps length_drop by blast
      then have k: "?i \<le> k" "k < length ?t" "\<forall>m < k - ?i. drop ?i ?t ! m = []"
        by (blast, linarith, blast)
      let ?d = "rehash_bucket T k d"
      note b = rehash_bucket_ok [OF ok r k(2)]
      have e: "\<forall>j < k. ?t ! j = []" using empty_below [OF i(3) k(3) i(2)] by blast
      have "dictRehash_loop T (Suc n) ev d = dictRehash_loop T n ev' ?d"
        using u by (simp add: Found rehash_bucket_def Let_def)
      moreover have "loop_rel T n ?d (dictRehash_loop T n ev' ?d)"
        by (rule Suc.IH) (rule b [OF e])+
      moreover have "rehash_rel T d ?d" using b [OF e] by (simp add: rehash_rel_def)
      moreover have "rehashidx d < rehashidx ?d" using b(4) [OF e] k(1) i(1) by simp
      ultimately show ?thesis
        using b(6) [OF e] rehash_rel_trans [of T d ?d] by (simp add: loop_rel_def)
    qed
  qed
qed

lemma dict_ok_swap:
  assumes ok: "dict_ok T d" and r: "dictIsRehashing d" and u: "ht_used0 d = 0"
  shows "rehash_rel T d ((dictReset1 (d\<lparr>ht_table0 := ht_table1 d, ht_used0 := ht_used1 d,
    ht_size_exp0 := ht_size_exp1 d\<rparr>))\<lparr>rehashidx := - 1\<rparr>)"
proof -
  have "concat (ht_table0 d) = []" using ok u by (simp add: dict_ok_def)
  then show ?thesis using ok r
    by (simp add: rehash_rel_def dict_ok_def dict_entries_def dictReset1_def dictIsRehashing_def table_ok_def
        del: concat_eq_Nil_conv)
qed

text \<open>
  \<^verbatim>\<open>dictRehash\<close> keeps the entries; it returns true exactly when there is more to do, and then it has
  moved \<^verbatim>\<open>rehashidx\<close> forward.
\<close>

lemma dictRehash_correct:
  assumes ok: "dict_ok T d"
  shows "rehash_rel T d (fst (dictRehash T d n))"
    and "snd (dictRehash T d n) \<longleftrightarrow> dictIsRehashing (fst (dictRehash T d n))"
    and "0 < n \<Longrightarrow> dictIsRehashing (fst (dictRehash T d n)) \<Longrightarrow>
      rehashidx d < rehashidx (fst (dictRehash T d n)) \<and>
      length (ht_table0 (fst (dictRehash T d n))) = length (ht_table0 d)"
proof -
  obtain d1 ea where l: "dictRehash_loop T n (n * 10) d = (d1, ea)" by fastforce
  let ?r = "dictRehash T d n"
  have "rehash_rel T d (fst ?r) \<and> (snd ?r \<longleftrightarrow> dictIsRehashing (fst ?r)) \<and>
    (0 < n \<longrightarrow> dictIsRehashing (fst ?r) \<longrightarrow>
      rehashidx d < rehashidx (fst ?r) \<and> length (ht_table0 (fst ?r)) = length (ht_table0 d))"
  proof (cases "dictIsRehashing d")
    case False
    then show ?thesis using ok by (simp add: dictRehash_def rehash_rel_refl)
  next
    case True
    have lr: "loop_rel T n d (d1, ea)" using dictRehash_loop_rel [OF ok True] l by metis
    show ?thesis
    proof (cases "ht_used0 d1 = 0")
      case u: True
      then have "\<not> ea" using lr by (auto simp: loop_rel_def)
      moreover have "rehash_rel T d ((dictReset1 (d1\<lparr>ht_table0 := ht_table1 d1, ht_used0 := ht_used1 d1,
          ht_size_exp0 := ht_size_exp1 d1\<rparr>))\<lparr>rehashidx := - 1\<rparr>)"
        using dict_ok_swap [of T d1] lr u
        by (auto simp: loop_rel_def rehash_rel_def)
      ultimately show ?thesis using True u by (simp add: dictRehash_def l dictIsRehashing_def)
    next
      case u: False
      have z: "ht_used0 d = 0 \<Longrightarrow> d1 = d" using l by (cases n) auto
      have "fst ?r = d1" "snd ?r" using True u by (simp_all add: dictRehash_def l split: bool.splits)
      then show ?thesis using lr u z by (auto simp: loop_rel_def)
    qed
  qed
  then show "rehash_rel T d (fst ?r)" "snd ?r \<longleftrightarrow> dictIsRehashing (fst ?r)"
    "0 < n \<Longrightarrow> dictIsRehashing (fst ?r) \<Longrightarrow>
      rehashidx d < rehashidx (fst ?r) \<and> length (ht_table0 (fst ?r)) = length (ht_table0 d)"
    by blast+
qed

lemma dictRehashStep_rel: "dict_ok T d \<Longrightarrow> rehash_rel T d (dictRehashStep T d)"
  by (simp add: dictRehashStep_def dictRehash_correct rehash_rel_refl)

subsection \<open>Expansion\<close>

lemma dictNextExp_loop_spec:
  "sz \<le> 2 ^ dictNextExp_loop e sz \<and> e \<le> dictNextExp_loop e sz \<and>
   (dictNextExp_loop e sz = e \<or> 2 ^ (dictNextExp_loop e sz - 1) < sz)"
proof (induction e sz rule: dictNextExp_loop.induct)
  case (1 e sz)
  show ?case
  proof (cases "sz \<le> 2 ^ e")
    case True
    then show ?thesis by (simp add: dictNextExp_loop.simps [of e sz])
  next
    case False
    then have "dictNextExp_loop e sz = dictNextExp_loop (e + 1) sz"
      by (simp add: dictNextExp_loop.simps [of e sz])
    then show ?thesis using 1 [OF False] False by (auto simp: not_le)
  qed
qed

lemma dictNextExp_le:
  assumes "sz \<le> 2 ^ 60" shows "dictNextExp sz \<le> 60" "sz \<le> 2 ^ dictNextExp sz"
proof -
  let ?e = "dictNextExp_loop DICT_HT_INITIAL_EXP sz"
  have n: "dictNextExp sz = ?e" using assms by (simp add: dictNextExp_def)
  note s = dictNextExp_loop_spec [of sz DICT_HT_INITIAL_EXP]
  then show "sz \<le> 2 ^ dictNextExp sz" by (simp add: n)
  show "dictNextExp sz \<le> 60"
  proof (rule ccontr)
    assume "\<not> dictNextExp sz \<le> 60"
    then have e: "60 \<le> ?e - 1" "?e \<noteq> DICT_HT_INITIAL_EXP"
      by (auto simp: n DICT_HT_INITIAL_EXP_def)
    have "(2 :: nat) ^ 60 \<le> 2 ^ (?e - 1)" by (rule power_increasing [OF e(1)]) simp
    then show False using s assms e(2) by linarith
  qed
qed

lemma dictNextExp_small [simp]: "dictNextExp DICT_HT_INITIAL_SIZE = 2"
  by (simp add: dictNextExp_def DICT_HT_INITIAL_SIZE_def DICT_HT_INITIAL_EXP_def dictNextExp_loop.simps [of 2 4])

text \<open>The overflow test on the new size leaves exponents up to 60.\<close>

lemma newsize_ok:
  assumes "\<not> (2 :: nat) ^ e * 8 mod 2 ^ 64 < 2 ^ e" "e \<le> 63" shows "exp_ok (int e)"
proof (rule ccontr)
  assume "\<not> exp_ok (int e)"
  then have "e = 61 \<or> e = 62 \<or> e = 63" using assms(2) by (auto simp: exp_ok_def)
  then show False using assms(1) by (elim disjE) simp_all
qed

lemma dictNextExp_bound: "dictNextExp sz \<le> 63"
proof (cases "sz \<ge> 2 ^ 63 - 1")
  case False
  let ?e = "dictNextExp_loop DICT_HT_INITIAL_EXP sz"
  have s: "?e = DICT_HT_INITIAL_EXP \<or> 2 ^ (?e - 1) < sz" using dictNextExp_loop_spec by blast
  have "?e \<le> 63"
  proof (rule ccontr)
    assume "\<not> ?e \<le> 63"
    then have e: "63 \<le> ?e - 1" "?e \<noteq> DICT_HT_INITIAL_EXP" by (auto simp: DICT_HT_INITIAL_EXP_def)
    have "(2 :: nat) ^ 63 \<le> 2 ^ (?e - 1)" by (rule power_increasing [OF e(1)]) simp
    then show False using s e(2) False by linarith
  qed
  then show ?thesis using False by (simp add: dictNextExp_def)
qed (simp add: dictNextExp_def)

lemma table_ok_replicate: "exp_ok e \<Longrightarrow> table_ok T e (replicate (2 ^ nat e) [])"
  by (simp add: table_ok_def DICTHT_SIZE_exp)

text \<open>An expansion keeps the entries; when it reports success there is a table to insert into.\<close>

lemma dictExpandRaw_ok:
  assumes ok: "dict_ok T d"
  shows "rehash_rel T d (fst (dictExpandRaw d sz a))"
    and "fst (snd (dictExpandRaw d sz a)) \<Longrightarrow> exp_ok (ht_size_exp0 (fst (dictExpandRaw d sz a)))"
proof -
  let ?e = "dictNextExp sz" and ?r = "dictExpandRaw d sz a"
  have "rehash_rel T d (fst ?r) \<and> (fst (snd ?r) \<longrightarrow> exp_ok (ht_size_exp0 (fst ?r)))"
  proof (cases "fst (snd ?r)")
    case False
    then have "fst ?r = d" by (auto simp: dictExpandRaw_def Let_def split: if_splits)
    then show ?thesis using False ok by (simp add: rehash_rel_refl)
  next
    case True
    then have nr: "\<not> dictIsRehashing d" and ov: "\<not> (2 :: nat) ^ ?e * 8 mod 2 ^ 64 < 2 ^ ?e"
      by (auto simp: dictExpandRaw_def Let_def split: if_splits)
    have e: "exp_ok (int ?e)" using newsize_ok [OF ov dictNextExp_bound] .
    have t1: "ht_table1 d = []" "ht_size_exp1 d = - 1"
      using dict_ok_table1 [OF ok nr] ok nr by (simp_all add: dict_ok_def dictIsRehashing_def)
    have tr: "table_ok T (int ?e) (replicate (2 ^ ?e) [])" using table_ok_replicate [OF e] by simp
    show ?thesis
    proof (cases "ht_table0 d = []")
      case z: True
      have "fst ?r = d\<lparr>ht_size_exp0 := int ?e, ht_used0 := 0, ht_table0 := replicate (2 ^ ?e) []\<rparr>"
        using True z by (auto simp: dictExpandRaw_def Let_def split: if_splits)
      then show ?thesis using ok e tr z t1 nr
        by (simp add: rehash_rel_def dict_ok_def dict_entries_def dictIsRehashing_def)
    next
      case z: False
      have "ht_size_exp0 d \<noteq> - 1" using ok z by (auto simp: dict_ok_def table_ok_def)
      then have e0: "exp_ok (ht_size_exp0 d)" using ok by (simp add: dict_ok_def)
      have "fst ?r = d\<lparr>ht_size_exp1 := int ?e, ht_used1 := 0, ht_table1 := replicate (2 ^ ?e) [], rehashidx := 0\<rparr>"
        using True z by (auto simp: dictExpandRaw_def Let_def split: if_splits)
      then show ?thesis using ok e e0 tr t1 nr
        by (simp add: rehash_rel_def dict_ok_def dict_entries_def dictIsRehashing_def)
    qed
  qed
  then show "rehash_rel T d (fst ?r)" "fst (snd ?r) \<Longrightarrow> exp_ok (ht_size_exp0 (fst ?r))" by blast+
qed

lemma dictExpand_ok:
  assumes "dict_ok T d"
  shows "rehash_rel T d (fst (dictExpand d sz))"
    and "snd (dictExpand d sz) \<Longrightarrow> exp_ok (ht_size_exp0 (fst (dictExpand d sz)))"
  using dictExpandRaw_ok [OF assms, of sz None] by (auto simp: dictExpand_def split: prod.splits)

lemma dictExpandIfNeeded_ok:
  assumes ok: "dict_ok T d"
  shows "rehash_rel T d (fst (dictExpandIfNeeded T d))"
    and "snd (dictExpandIfNeeded T d) \<Longrightarrow> exp_ok (ht_size_exp0 (fst (dictExpandIfNeeded T d)))"
proof -
  have e: "DICTHT_SIZE (ht_size_exp0 d) \<noteq> 0 \<Longrightarrow> exp_ok (ht_size_exp0 d)"
    using ok by (auto simp: dict_ok_def)
  have r: "dictIsRehashing d \<Longrightarrow> exp_ok (ht_size_exp0 d)"
    using ok by (simp add: dict_ok_def dictIsRehashing_def)
  show "rehash_rel T d (fst (dictExpandIfNeeded T d))"
    using dictExpand_ok(1) [OF ok] rehash_rel_refl [OF ok] by (simp add: dictExpandIfNeeded_def)
  show "snd (dictExpandIfNeeded T d) \<Longrightarrow> exp_ok (ht_size_exp0 (fst (dictExpandIfNeeded T d)))"
    using dictExpand_ok(2) [OF ok] e r by (auto simp: dictExpandIfNeeded_def split: if_splits)
qed

text \<open>Below \<open>2 ^ 60\<close> entries the expansion always succeeds.\<close>

lemma newsize_fits: "e \<le> 60 \<Longrightarrow> \<not> (2 :: nat) ^ e * 8 mod 2 ^ 64 < 2 ^ e"
proof -
  assume "e \<le> 60"
  then have "(2 :: nat) ^ e \<le> 2 ^ 60" by (intro power_increasing) simp_all
  then show ?thesis by simp
qed

lemma dictExpandIfNeeded_succeeds:
  assumes ok: "dict_ok T d" and u: "ht_used0 d < 2 ^ 60"
  shows "snd (dictExpandIfNeeded T d)"
proof -
  have small: "snd (dictExpand d DICT_HT_INITIAL_SIZE)"
    if "\<not> dictIsRehashing d" "DICTHT_SIZE (ht_size_exp0 d) = 0"
  proof -
    have "ht_size_exp0 d = - 1" using ok that(2) by (auto simp: dict_ok_def DICTHT_SIZE_exp)
    moreover from this have "ht_table0 d = []" "ht_used0 d = 0" using ok by (auto simp: dict_ok_def table_ok_def)
    ultimately show ?thesis using that
      by (simp add: dictExpand_def dictExpandRaw_def DICT_HT_INITIAL_SIZE_def
          dictNextExp_small [unfolded DICT_HT_INITIAL_SIZE_def])
  qed
  have grow: "snd (dictExpand d (ht_used0 d + 1))"
    if nr: "\<not> dictIsRehashing d" and g: "ht_used0 d \<ge> DICTHT_SIZE (ht_size_exp0 d)"
  proof -
    let ?e = "dictNextExp (ht_used0 d + 1)"
    have e: "?e \<le> 60" "ht_used0 d + 1 \<le> 2 ^ ?e" using dictNextExp_le [of "ht_used0 d + 1"] u by simp_all
    have ne: "int ?e \<noteq> ht_size_exp0 d"
    proof
      assume "int ?e = ht_size_exp0 d"
      then have "DICTHT_SIZE (ht_size_exp0 d) = 2 ^ ?e" by (simp add: DICTHT_SIZE_def flip: \<open>int ?e = _\<close>)
      then show False using e(2) g by simp
    qed
    show ?thesis using nr e ne newsize_fits [OF e(1)]
      unfolding dictExpand_def dictExpandRaw_def Let_def by (simp del: power_mult_numeral)
  qed
  show ?thesis using small grow by (auto simp: dictExpandIfNeeded_def)
qed

subsection \<open>The operations on the map\<close>

lemma rehash_first:
  assumes "dict_ok T d"
  shows "rehash_rel T d (if dictIsRehashing d then dictRehashStep T d else d)"
  using dictRehashStep_rel [OF assms] rehash_rel_refl [OF assms] by simp

lemma table_ok_put:
  assumes "table_ok T e tb" "exp_ok e" "i = bucket_of T e (fst x)"
  shows "table_ok T e (tb[i := x # tb ! i])"
proof (rule table_ok_update [OF assms(1)])
  fix y
  assume "y \<in> set (x # tb ! i)"
  then show "bucket_of T e (fst y) = i"
    using table_okD [OF assms(1), of i y] bucket_lt [OF assms(2,1)] assms(3) by auto
qed

lemma insert0_ok:
  fixes v :: 'v
  assumes ok: "dict_ok T d" and nr: "\<not> dictIsRehashing d" and e: "exp_ok (ht_size_exp0 d)"
    and k: "key \<notin> fst ` set (dict_entries d)" and i: "i = bucket_of T (ht_size_exp0 d) key"
  defines "d' \<equiv> d\<lparr>ht_table0 := (ht_table0 d)[i := (key, v) # ht_table0 d ! i], ht_used0 := ht_used0 d + 1\<rparr>"
  shows "dict_ok T d'" and "dict_map d' = (dict_map d)(key \<mapsto> v)" and "loc_ok d' (Loc 0 i 0)"
    and "dict_entry d' (Loc 0 i 0) = (key, v)"
proof -
  have lt: "i < length (ht_table0 d)" using ok e i by (simp add: dict_ok_def bucket_lt)
  have m: "mset (concat ((ht_table0 d)[i := (key, v) # ht_table0 d ! i])) = add_mset (key, v) (mset (concat (ht_table0 d)))"
    by (rule table_put [OF lt])
  then have l: "length (concat ((ht_table0 d)[i := (key, v) # ht_table0 d ! i])) = Suc (length (concat (ht_table0 d)))"
    by (metis size_add_mset size_mset)
  have me: "mset (dict_entries d') = add_mset (key, v) (mset (dict_entries d))"
    using m by (simp add: d'_def dict_entries_def)
  have ds: "distinct (map fst (dict_entries d))" using ok by (simp add: dict_ok_def)
  note mp = map_of_mset_insert [OF me ds k]
  have tk: "table_ok T (ht_size_exp0 d) ((ht_table0 d)[i := (key, v) # ht_table0 d ! i])"
    using ok e i by (intro table_ok_put) (simp_all add: dict_ok_def)
  show "dict_ok T d'"
    using ok nr mp(1) tk l by (auto simp: d'_def dict_ok_def dictIsRehashing_def)
  show "dict_map d' = (dict_map d)(key \<mapsto> v)" using mp(2) by (simp add: dict_map_def)
  show "loc_ok d' (Loc 0 i 0)" "dict_entry d' (Loc 0 i 0) = (key, v)"
    using lt by (simp_all add: d'_def loc_ok_def dict_entry_def)
qed

lemma insert1_ok:
  fixes v :: 'v
  assumes ok: "dict_ok T d" and r: "dictIsRehashing d"
    and k: "key \<notin> fst ` set (dict_entries d)" and i: "i = bucket_of T (ht_size_exp1 d) key"
  defines "d' \<equiv> d\<lparr>ht_table1 := (ht_table1 d)[i := (key, v) # ht_table1 d ! i], ht_used1 := ht_used1 d + 1\<rparr>"
  shows "dict_ok T d'" and "dict_map d' = (dict_map d)(key \<mapsto> v)" and "loc_ok d' (Loc 1 i 0)"
    and "dict_entry d' (Loc 1 i 0) = (key, v)"
proof -
  have e: "exp_ok (ht_size_exp1 d)" using ok r by (simp add: dict_ok_def dictIsRehashing_def)
  have lt: "i < length (ht_table1 d)" using ok e i by (simp add: dict_ok_def bucket_lt)
  have m: "mset (concat ((ht_table1 d)[i := (key, v) # ht_table1 d ! i])) = add_mset (key, v) (mset (concat (ht_table1 d)))"
    by (rule table_put [OF lt])
  then have l: "length (concat ((ht_table1 d)[i := (key, v) # ht_table1 d ! i])) = Suc (length (concat (ht_table1 d)))"
    by (metis size_add_mset size_mset)
  have me: "mset (dict_entries d') = add_mset (key, v) (mset (dict_entries d))"
    using m by (simp add: d'_def dict_entries_def)
  have ds: "distinct (map fst (dict_entries d))" using ok by (simp add: dict_ok_def)
  note mp = map_of_mset_insert [OF me ds k]
  have tk: "table_ok T (ht_size_exp1 d) ((ht_table1 d)[i := (key, v) # ht_table1 d ! i])"
    using ok e i by (intro table_ok_put) (simp_all add: dict_ok_def)
  show "dict_ok T d'"
    using ok r mp(1) tk l by (simp add: d'_def dict_ok_def dictIsRehashing_def)
  show "dict_map d' = (dict_map d)(key \<mapsto> v)" using mp(2) by (simp add: dict_map_def)
  show "loc_ok d' (Loc 1 i 0)" "dict_entry d' (Loc 1 i 0) = (key, v)"
    using lt by (simp_all add: d'_def loc_ok_def dict_entry_def)
qed

text \<open>
  The three outcomes of \<^verbatim>\<open>dictAddRaw\<close>: a new entry, the existing one, or a failed expansion, which
  takes \<open>2 ^ 60\<close> entries.
\<close>

fun add_outcome :: "'k dictType \<Rightarrow> ('k, 'v) dict \<Rightarrow> 'k \<Rightarrow> 'v \<Rightarrow> ('k, 'v) dict \<times> loc option \<times> loc option \<Rightarrow> bool" where
  "add_outcome T d key v0 (d', Some l, ex) \<longleftrightarrow>
     dict_map d key = None \<and> dict_ok T d' \<and> dict_map d' = (dict_map d)(key \<mapsto> v0) \<and>
     loc_ok d' l \<and> dict_entry d' l = (key, v0) \<and> ex = None"
| "add_outcome T d key v0 (d', None, Some l) \<longleftrightarrow>
     dict_map d key \<noteq> None \<and> rehash_rel T d d' \<and> loc_ok d' l \<and> fst (dict_entry d' l) = key"
| "add_outcome T d key v0 (d', None, None) \<longleftrightarrow> rehash_rel T d d' \<and> 2 ^ 60 \<le> dictSize d"

lemma dictAddRaw_ok:
  assumes ok: "dict_ok T d"
  shows "add_outcome T d key v0 (dictAddRaw T d key v0)"
proof -
  define d1 where "d1 = (if dictIsRehashing d then dictRehashStep T d else d)"
  have r1: "rehash_rel T d d1" using rehash_first [OF ok] by (simp add: d1_def)
  then have ok1: "dict_ok T d1" by (simp add: rehash_rel_def)
  obtain d2 b where x: "dictExpandIfNeeded T d1 = (d2, b)" by fastforce
  have r2: "rehash_rel T d1 d2" using dictExpandIfNeeded_ok(1) [OF ok1] x by (metis fst_conv)
  then have ok2: "dict_ok T d2" by (simp add: rehash_rel_def)
  have r: "rehash_rel T d d2" by (rule rehash_rel_trans [OF r1 r2])
  note mp = rehash_rel_map [OF ok r]
  show ?thesis
  proof (cases b)
    case False
    then have "\<not> ht_used0 d1 < 2 ^ 60" using dictExpandIfNeeded_succeeds [OF ok1] x by (metis snd_conv)
    moreover have "dictSize d1 = dictSize d" by (rule rehash_rel_map(2) [OF ok r1])
    ultimately have "2 ^ 60 \<le> dictSize d" unfolding dictSize_def by linarith
    then show ?thesis using False r by (simp add: dictAddRaw_def dictKeyIndex_def x flip: d1_def)
  next
    case True
    then have e: "exp_ok (ht_size_exp0 d2)" using dictExpandIfNeeded_ok(2) [OF ok1] x by (metis fst_conv snd_conv)
    show ?thesis
    proof (cases "dict_locate T d2 key")
      case (Some l)
      have "dict_map d2 key \<noteq> None" using dict_locate_map [OF ok2 e, of key] Some by (metis option.map_disc_iff option.distinct(1))
      then show ?thesis using dict_locate_Some [OF ok2 e Some] True r mp
        by (simp add: dictAddRaw_def dictKeyIndex_def x Some flip: d1_def)
    next
      case None
      note k = dict_locate_None [OF ok2 e None]
      have n: "dict_map d key = None" using dict_locate_map [OF ok2 e, of key] None mp by auto
      show ?thesis
      proof (cases "dictIsRehashing d2")
        case rh: True
        show ?thesis using insert1_ok [OF ok2 rh k refl, of v0] True n mp
          by (simp add: dictAddRaw_def dictKeyIndex_def x None rh Let_def flip: d1_def)
      next
        case rh: False
        show ?thesis using insert0_ok [OF ok2 rh e k refl, of v0] True n mp
          by (simp add: dictAddRaw_def dictKeyIndex_def x None rh Let_def flip: d1_def)
      qed
    qed
  qed
qed

lemma table_ok_set:
  assumes "table_ok T e tb" "i < length tb" "p < length (tb ! i)"
  shows "table_ok T e (tb[i := (tb ! i)[p := (fst (tb ! i ! p), v)]])"
proof (rule table_ok_update [OF assms(1)])
  fix x
  assume "x \<in> set ((tb ! i)[p := (fst (tb ! i ! p), v)])"
  then have "fst x \<in> fst ` set (tb ! i)"
    using set_update_subset_insert [of "tb ! i" p] assms(3) by fastforce
  then show "bucket_of T e (fst x) = i" using table_okD [OF assms(1,2)] by force
qed

lemma table_ok_remove:
  assumes "table_ok T e tb" "i < length tb"
  shows "table_ok T e (tb[i := remove_nth p (tb ! i)])"
proof (rule table_ok_update [OF assms(1)])
  fix x
  assume "x \<in> set (remove_nth p (tb ! i))"
  then have "x \<in> set (tb ! i)" by (auto simp: remove_nth_def dest: in_set_takeD in_set_dropD)
  then show "bucket_of T e (fst x) = i" by (rule table_okD [OF assms])
qed

lemma dictSetVal_ok:
  assumes ok: "dict_ok T d" and l: "loc_ok d l"
  shows "dict_ok T (dictSetVal d l v)"
    and "dict_map (dictSetVal d l v) = (dict_map d)(fst (dict_entry d l) \<mapsto> v)"
proof -
  let ?k = "fst (dict_entry d l)" and ?v = "snd (dict_entry d l)" and ?d = "dictSetVal d l v"
  let ?t = "if tbl l = 0 then ht_table0 d else ht_table1 d"
  let ?t' = "?t[idx l := (?t ! idx l)[pos l := (fst (?t ! idx l ! pos l), v)]]"
  have lt: "idx l < length ?t" "pos l < length (?t ! idx l)" using l by (auto simp: loc_ok_def)
  have en: "dict_entry d l = ?t ! idx l ! pos l" by (simp add: dict_entry_def)
  have tm: "add_mset (?t ! idx l ! pos l) (mset (concat ?t')) = add_mset (?k, v) (mset (concat ?t))"
    using table_set [OF lt] by (simp add: en)
  have len: "length (concat ?t') = length (concat ?t)"
    using arg_cong [OF tm, of size] by simp
  have m: "add_mset (dict_entry d l) (mset (dict_entries ?d)) = add_mset (?k, v) (mset (dict_entries d))"
    using arg_cong [OF tm, of "\<lambda>M. M + mset (concat (ht_table1 d))"]
      arg_cong [OF tm, of "\<lambda>M. mset (concat (ht_table0 d)) + M"] unfolding en
    by (cases "tbl l = 0") (simp_all add: dictSetVal_def dict_entries_def)
  obtain M where M: "mset (dict_entries d) = add_mset (dict_entry d l) M"
    using loc_entry [OF l] by (metis mset_add set_mset_mset)
  obtain xs where xs: "mset xs = M" using ex_mset by blast
  have d1: "add_mset (?k, ?v) (mset xs) = mset (dict_entries d)" by (simp add: M xs)
  have d2: "mset (dict_entries ?d) = add_mset (?k, v) (mset xs)" using m M xs by simp
  have ds: "distinct (map fst (dict_entries d))" using ok by (simp add: dict_ok_def)
  note del = map_of_mset_delete [OF d1 ds]
  note ins = map_of_mset_insert [OF d2 del(1,2)]
  show "dict_map ?d = (dict_map d)(?k \<mapsto> v)" using ins(2) del(3) by (simp add: dict_map_def)
  have emp: "ht_table0 ?d ! i = []" if "ht_table0 d ! i = []" for i
    using that l by (cases "i = idx l") (auto simp: dictSetVal_def loc_ok_def)
  show "dict_ok T ?d"
  proof (cases "tbl l = 0")
    case True
    have "table_ok T (ht_size_exp0 d) (ht_table0 ?d)"
      using table_ok_set [of T "ht_size_exp0 d" "ht_table0 d" "idx l" "pos l" v] lt True ok
      by (simp add: dict_ok_def dictSetVal_def)
    then show ?thesis using ok True ins(1) len emp by (simp add: dict_ok_def dictSetVal_def)
  next
    case False
    have "table_ok T (ht_size_exp1 d) (ht_table1 ?d)"
      using table_ok_set [of T "ht_size_exp1 d" "ht_table1 d" "idx l" "pos l" v] lt False ok
      by (simp add: dict_ok_def dictSetVal_def)
    then show ?thesis using ok False ins(1) len by (simp add: dict_ok_def dictSetVal_def)
  qed
qed

lemma nonempty_exp:
  assumes "dict_ok T d" "dictSize d \<noteq> 0" shows "exp_ok (ht_size_exp0 d)"
proof (rule ccontr)
  assume "\<not> exp_ok (ht_size_exp0 d)"
  then have "ht_table0 d = []" "\<not> dictIsRehashing d"
    using assms(1) by (auto simp: dict_ok_def dictIsRehashing_def table_ok_def split: if_splits)
  then show False using assms dict_ok_table1 [OF assms(1)] by (simp add: dictSize_entries dict_entries_def)
qed

lemma dict_empty_map: "dict_ok T d \<Longrightarrow> dictSize d = 0 \<Longrightarrow> dict_map d = Map.empty"
  by (simp add: dictSize_entries dict_map_def)

text \<open>Unlinking the entry at a location.\<close>

definition dict_unlink_at :: "('k, 'v) dict \<Rightarrow> loc \<Rightarrow> ('k, 'v) dict" where
  "dict_unlink_at d l =
     (if tbl l = 0 then
        d\<lparr>ht_table0 := (ht_table0 d)[idx l := remove_nth (pos l) (ht_table0 d ! idx l)], ht_used0 := ht_used0 d - 1\<rparr>
      else
        d\<lparr>ht_table1 := (ht_table1 d)[idx l := remove_nth (pos l) (ht_table1 d ! idx l)], ht_used1 := ht_used1 d - 1\<rparr>)"

lemma dict_unlink_at_ok:
  assumes ok: "dict_ok T d" and l: "loc_ok d l"
  shows "dict_ok T (dict_unlink_at d l)"
    and "dict_map (dict_unlink_at d l) = (dict_map d)(fst (dict_entry d l) := None)"
proof -
  let ?k = "fst (dict_entry d l)" and ?v = "snd (dict_entry d l)" and ?d = "dict_unlink_at d l"
  let ?t = "if tbl l = 0 then ht_table0 d else ht_table1 d"
  let ?t' = "?t[idx l := remove_nth (pos l) (?t ! idx l)]"
  have lt: "idx l < length ?t" "pos l < length (?t ! idx l)" using l by (auto simp: loc_ok_def)
  have en: "dict_entry d l = ?t ! idx l ! pos l" by (simp add: dict_entry_def)
  have tm: "add_mset (dict_entry d l) (mset (concat ?t')) = mset (concat ?t)"
    using table_remove [OF lt] by (simp add: en)
  have len: "length (concat ?t') = length (concat ?t) - 1"
    using arg_cong [OF tm, of size] by simp
  have m: "add_mset (?k, ?v) (mset (dict_entries ?d)) = mset (dict_entries d)"
    using arg_cong [OF tm, of "\<lambda>M. M + mset (concat (ht_table1 d))"]
      arg_cong [OF tm, of "\<lambda>M. mset (concat (ht_table0 d)) + M"]
    by (cases "tbl l = 0") (simp_all add: dict_unlink_at_def dict_entries_def)
  have ds: "distinct (map fst (dict_entries d))" using ok by (simp add: dict_ok_def)
  note del = map_of_mset_delete [OF m ds]
  show "dict_map ?d = (dict_map d)(?k := None)" using del(3) by (simp add: dict_map_def)
  have emp: "ht_table0 ?d ! i = []" if "ht_table0 d ! i = []" for i
    using that l by (cases "i = idx l") (auto simp: dict_unlink_at_def loc_ok_def)
  have "table_ok T (ht_size_exp0 d) (ht_table0 ?d)" "table_ok T (ht_size_exp1 d) (ht_table1 ?d)"
    using ok lt by (cases "tbl l = 0"; simp add: dict_ok_def dict_unlink_at_def table_ok_remove)+
  then show "dict_ok T ?d"
    using ok del(1) len emp by (cases "tbl l = 0") (simp_all add: dict_ok_def dict_unlink_at_def)
qed

lemma dictGenericDelete_ok:
  assumes ok: "dict_ok T d"
  shows "dict_ok T (fst (dictGenericDelete T d key))"
    and "dict_map (fst (dictGenericDelete T d key)) = (dict_map d)(key := None)"
    and "map_option snd (snd (dictGenericDelete T d key)) = dict_map d key"
proof -
  let ?r = "dictGenericDelete T d key"
  have "dict_ok T (fst ?r) \<and> dict_map (fst ?r) = (dict_map d)(key := None) \<and>
    map_option snd (snd ?r) = dict_map d key"
  proof (cases "dictSize d = 0")
    case True
    then show ?thesis using ok dict_empty_map [OF ok] by (simp add: dictGenericDelete_def)
  next
    case False
    define d1 where "d1 = (if dictIsRehashing d then dictRehashStep T d else d)"
    have r1: "rehash_rel T d d1" using rehash_first [OF ok] by (simp add: d1_def)
    then have ok1: "dict_ok T d1" by (simp add: rehash_rel_def)
    note mp = rehash_rel_map [OF ok r1]
    have e: "exp_ok (ht_size_exp0 d1)" using nonempty_exp [OF ok1] mp False by simp
    show ?thesis
    proof (cases "dict_locate T d1 key")
      case None
      then have "dict_map d key = None" using dict_locate_map [OF ok1 e, of key] mp by simp
      then show ?thesis using False ok1 mp
        by (simp add: dictGenericDelete_def None fun_upd_idem flip: d1_def)
    next
      case (Some l)
      note l = dict_locate_Some [OF ok1 e Some]
      have "?r = (dict_unlink_at d1 l, Some (dict_entry d1 l))"
        using False by (simp add: dictGenericDelete_def Some dict_unlink_at_def flip: d1_def)
      then show ?thesis using dict_unlink_at_ok [OF ok1 l(1)] dict_map_entry [OF ok1 l(1)] l(2) mp by simp
    qed
  qed
  then show "dict_ok T (fst ?r)" "dict_map (fst ?r) = (dict_map d)(key := None)"
    "map_option snd (snd ?r) = dict_map d key" by blast+
qed

lemma dict_ok_create: "dict_ok T dictCreate" and dict_map_create: "dict_map dictCreate = Map.empty"
  by (simp_all add: dict_ok_def dict_map_def dict_entries_def dictCreate_def table_ok_def)

lemma dictEmpty_ok: "dict_ok T (dictEmpty d)" and dict_map_dictEmpty: "dict_map (dictEmpty d) = Map.empty"
  by (simp_all add: dict_ok_def dict_map_def dict_entries_def dictEmpty_def dictClear0_def dictClear1_def
      dictReset0_def dictReset1_def table_ok_def)

lemma add_outcome_cases:
  assumes "add_outcome T d key v0 r" "dictSize d < 2 ^ 60"
  obtains (new) d' l where "r = (d', Some l, None)" "dict_map d key = None" "dict_ok T d'"
      "dict_map d' = (dict_map d)(key \<mapsto> v0)" "loc_ok d' l" "dict_entry d' l = (key, v0)"
  | (old) d' l where "r = (d', None, Some l)" "dict_map d key \<noteq> None" "rehash_rel T d d'" "loc_ok d' l"
      "fst (dict_entry d' l) = key"
  using assms by (cases "(T, d, key, v0, r)" rule: add_outcome.cases) auto

lemma dictAdd_ok:
  assumes ok: "dict_ok T d" and sz: "dictSize d < 2 ^ 60"
  shows "dict_ok T (fst (dictAdd T d key v v0))"
    and "snd (dictAdd T d key v v0) \<longleftrightarrow> dict_map d key = None"
    and "dict_map (fst (dictAdd T d key v v0)) = (if dict_map d key = None then (dict_map d)(key \<mapsto> v) else dict_map d)"
proof -
  have "dict_ok T (fst (dictAdd T d key v v0)) \<and> (snd (dictAdd T d key v v0) \<longleftrightarrow> dict_map d key = None) \<and>
    dict_map (fst (dictAdd T d key v v0)) = (if dict_map d key = None then (dict_map d)(key \<mapsto> v) else dict_map d)"
    using dictAddRaw_ok [OF ok, of key v0] sz
  proof (cases rule: add_outcome_cases)
    case (new d' l)
    then show ?thesis using dictSetVal_ok [OF new(3,5), of v] by (simp add: dictAdd_def)
  next
    case (old d' l)
    then show ?thesis using rehash_rel_map(1) [OF ok old(3)] by (auto simp: dictAdd_def rehash_rel_def)
  qed
  then show "dict_ok T (fst (dictAdd T d key v v0))" "snd (dictAdd T d key v v0) \<longleftrightarrow> dict_map d key = None"
    "dict_map (fst (dictAdd T d key v v0)) = (if dict_map d key = None then (dict_map d)(key \<mapsto> v) else dict_map d)"
    by blast+
qed

lemma dictReplace_ok:
  assumes ok: "dict_ok T d" and sz: "dictSize d < 2 ^ 60"
  shows "dict_ok T (fst (dictReplace T d key v v0))"
    and "snd (dictReplace T d key v v0) \<longleftrightarrow> dict_map d key = None"
    and "dict_map (fst (dictReplace T d key v v0)) = (dict_map d)(key \<mapsto> v)"
proof -
  have "dict_ok T (fst (dictReplace T d key v v0)) \<and> (snd (dictReplace T d key v v0) \<longleftrightarrow> dict_map d key = None) \<and>
    dict_map (fst (dictReplace T d key v v0)) = (dict_map d)(key \<mapsto> v)"
    using dictAddRaw_ok [OF ok, of key v0] sz
  proof (cases rule: add_outcome_cases)
    case (new d' l)
    then show ?thesis using dictSetVal_ok [OF new(3,5), of v] by (simp add: dictReplace_def)
  next
    case (old d' l)
    have "dict_ok T d'" using old(3) by (simp add: rehash_rel_def)
    then show ?thesis using dictSetVal_ok [OF _ old(4), of T v] rehash_rel_map(1) [OF ok old(3)] old
      by (simp add: dictReplace_def)
  qed
  then show "dict_ok T (fst (dictReplace T d key v v0))" "snd (dictReplace T d key v v0) \<longleftrightarrow> dict_map d key = None"
    "dict_map (fst (dictReplace T d key v v0)) = (dict_map d)(key \<mapsto> v)"
    by blast+
qed

lemma dictDelete_ok:
  assumes ok: "dict_ok T d"
  shows "dict_ok T (fst (dictDelete T d key))" and "snd (dictDelete T d key) \<longleftrightarrow> dict_map d key \<noteq> None"
    and "dict_map (fst (dictDelete T d key)) = (dict_map d)(key := None)"
proof -
  obtain d1 r where x: "dictGenericDelete T d key = (d1, r)" by fastforce
  note g = dictGenericDelete_ok [OF ok, of key, unfolded x]
  show "dict_ok T (fst (dictDelete T d key))" "dict_map (fst (dictDelete T d key)) = (dict_map d)(key := None)"
    "snd (dictDelete T d key) \<longleftrightarrow> dict_map d key \<noteq> None"
    using g by (auto simp: dictDelete_def x simp flip: g(3))
qed

lemma dictFind_ok:
  assumes ok: "dict_ok T d"
  shows "rehash_rel T d (fst (dictFind T d key))"
    and "map_option (\<lambda>l. snd (dict_entry (fst (dictFind T d key)) l)) (snd (dictFind T d key)) = dict_map d key"
    and "snd (dictFind T d key) = Some l \<Longrightarrow>
      loc_ok (fst (dictFind T d key)) l \<and> fst (dict_entry (fst (dictFind T d key)) l) = key"
proof -
  let ?r = "dictFind T d key"
  have "rehash_rel T d (fst ?r) \<and> map_option (\<lambda>l. snd (dict_entry (fst ?r) l)) (snd ?r) = dict_map d key \<and>
    (snd ?r = Some l \<longrightarrow> loc_ok (fst ?r) l \<and> fst (dict_entry (fst ?r) l) = key)"
  proof (cases "dictSize d = 0")
    case True
    then show ?thesis using dict_empty_map [OF ok] rehash_rel_refl [OF ok] by (simp add: dictFind_def)
  next
    case False
    define d1 where "d1 = (if dictIsRehashing d then dictRehashStep T d else d)"
    have r1: "rehash_rel T d d1" using rehash_first [OF ok] by (simp add: d1_def)
    then have ok1: "dict_ok T d1" by (simp add: rehash_rel_def)
    note mp = rehash_rel_map [OF ok r1]
    have e: "exp_ok (ht_size_exp0 d1)" using nonempty_exp [OF ok1] mp False by simp
    have r: "?r = (d1, dict_locate T d1 key)" using False by (simp add: dictFind_def flip: d1_def)
    show ?thesis unfolding r using r1 dict_locate_map [OF ok1 e] mp dict_locate_Some [OF ok1 e] by auto
  qed
  then show "rehash_rel T d (fst ?r)" "map_option (\<lambda>l. snd (dict_entry (fst ?r) l)) (snd ?r) = dict_map d key"
    "snd ?r = Some l \<Longrightarrow> loc_ok (fst ?r) l \<and> fst (dict_entry (fst ?r) l) = key"
    by blast+
qed

lemma dictFetchValue_ok:
  assumes ok: "dict_ok T d"
  shows "rehash_rel T d (fst (dictFetchValue T d key))" and "snd (dictFetchValue T d key) = dict_map d key"
  using dictFind_ok(1,2) [OF ok, of key] by (auto simp: dictFetchValue_def split: prod.splits)

section \<open>The dict as a map\<close>

text \<open>The calls that work on the representation only.\<close>

datatype dict_maint = Rehash nat | Rehash_Step | Expand nat | Try_Expand nat bool | Resize

fun dict_maintain :: "'k dictType \<Rightarrow> ('k, 'v) dict \<Rightarrow> dict_maint \<Rightarrow> ('k, 'v) dict" where
  "dict_maintain T d (Rehash n) = fst (dictRehash T d n)"
| "dict_maintain T d Rehash_Step = dictRehashStep T d"
| "dict_maintain T d (Expand sz) = fst (dictExpand d sz)"
| "dict_maintain T d (Try_Expand sz a) = fst (dictTryExpand d sz a)"
| "dict_maintain T d Resize = fst (dictResize T d)"

lemma dict_maintain_rel:
  assumes "dict_ok T d" shows "rehash_rel T d (dict_maintain T d m)"
proof (cases m)
  case (Try_Expand sz a)
  then show ?thesis using dictExpandRaw_ok(1) [OF assms, of sz "Some a"]
    by (auto simp: dictTryExpand_def split: prod.splits)
next
  case Resize
  then show ?thesis using dictExpand_ok(1) [OF assms] rehash_rel_refl [OF assms] by (simp add: dictResize_def)
qed (simp_all add: assms dictRehash_correct dictRehashStep_rel dictExpand_ok)

interpretation dmap: map_impl dictCreate "\<lambda>d k v. dictAdd T d k v v0" "\<lambda>d k v. dictReplace T d k v v0"
    "dictDelete T" "dictFetchValue T" "dict_maintain T" "dict_ok T" dict_map "2 ^ 60"
  for T :: "'k dictType" and v0 :: 'v
proof unfold_locales
  show "dict_ok T dictCreate" by (rule dict_ok_create)
  show "dict_map dictCreate = Map.empty" by (rule dict_map_create)
next
  fix d :: "('k, 'v) dict" and k v x
  assume ok: "dict_ok T d"
  show "finite (dom (dict_map d))" by simp
  show "dict_ok T (fst (dictDelete T d k)) \<and> snd (dictDelete T d k) = (dict_map d k \<noteq> None) \<and>
      dict_map (fst (dictDelete T d k)) = (dict_map d)(k := None)"
    by (simp add: dictDelete_ok [OF ok])
  show "dict_ok T (fst (dictFetchValue T d k)) \<and> snd (dictFetchValue T d k) = dict_map d k \<and>
      dict_map (fst (dictFetchValue T d k)) = dict_map d"
    using dictFetchValue_ok [OF ok, of k] rehash_rel_map(1) [OF ok] by (simp add: rehash_rel_def)
  show "dict_ok T (dict_maintain T d x) \<and> dict_map (dict_maintain T d x) = dict_map d"
    using dict_maintain_rel [OF ok, of x] rehash_rel_map(1) [OF ok] by (simp add: rehash_rel_def)
  assume "card (dom (dict_map d)) < 2 ^ 60"
  then have sz: "dictSize d < 2 ^ 60" by (simp add: dictSize_card [OF ok])
  show "dict_ok T (fst (dictAdd T d k v v0)) \<and> snd (dictAdd T d k v v0) = (dict_map d k = None) \<and>
      dict_map (fst (dictAdd T d k v v0)) = (if dict_map d k = None then (dict_map d)(k \<mapsto> v) else dict_map d)"
    by (simp add: dictAdd_ok [OF ok sz])
  show "dict_ok T (fst (dictReplace T d k v v0)) \<and> snd (dictReplace T d k v v0) = (dict_map d k = None) \<and>
      dict_map (fst (dictReplace T d k v v0)) = (dict_map d)(k \<mapsto> v)"
    by (simp add: dictReplace_ok [OF ok sz])
qed

lemma rehash_iterate:
  assumes ok: "dict_ok T d" and n: "0 < n"
  defines "f \<equiv> \<lambda>d. fst (dictRehash T d n)"
  shows "rehash_rel T d ((f ^^ k) d) \<and>
    (dictIsRehashing ((f ^^ k) d) \<longrightarrow>
       int k \<le> rehashidx ((f ^^ k) d) \<and> length (ht_table0 ((f ^^ k) d)) = length (ht_table0 d))"
proof (induction k)
  case 0
  then show ?case using ok by (auto simp: rehash_rel_refl dict_ok_def dictIsRehashing_def)
next
  case (Suc k)
  let ?d = "(f ^^ k) d"
  have s: "(f ^^ Suc k) d = fst (dictRehash T ?d n)" by (simp add: f_def)
  have okd: "dict_ok T ?d" using Suc by (simp add: rehash_rel_def)
  note c = dictRehash_correct [OF okd, of n]
  have "dictIsRehashing ?d" if "dictIsRehashing (fst (dictRehash T ?d n))"
    using that by (cases "dictIsRehashing ?d") (simp_all add: dictRehash_def)
  then show ?case unfolding s using Suc c(1) c(3) [OF n] rehash_rel_trans by fastforce
qed

lemma rehash_iterate_done:
  assumes "dict_ok T d" "0 < n" "length (ht_table0 d) < k"
  shows "\<not> dictIsRehashing (((\<lambda>d. fst (dictRehash T d n)) ^^ k) d)"
proof
  let ?d = "((\<lambda>d. fst (dictRehash T d n)) ^^ k) d"
  assume r: "dictIsRehashing ?d"
  note i = rehash_iterate [OF assms(1,2), of k]
  then have "dict_ok T ?d" by (simp add: rehash_rel_def)
  then have "rehashidx ?d \<le> int (length (ht_table0 ?d))"
    using r by (simp add: dict_ok_def dictIsRehashing_def)
  then show False using i r assms(3) by linarith
qed

lemma dictRehashMs_loop_rel:
  "dict_ok T d \<Longrightarrow> dictRehashMs_loop T d ts ms c = Some (d', m) \<Longrightarrow> rehash_rel T d d'"
proof (induction ts arbitrary: d c)
  case Nil
  then show ?case using dictRehash_correct(1) [OF Nil.prems(1), of 100] by (auto split: prod.splits bool.splits)
next
  case (Cons t ts)
  obtain d1 b where r: "dictRehash T d 100 = (d1, b)" by fastforce
  have r1: "rehash_rel T d d1" using dictRehash_correct(1) [OF Cons.prems(1), of 100] r by simp
  then have "dict_ok T d1" by (simp add: rehash_rel_def)
  then show ?case using Cons r r1 rehash_rel_trans [OF r1] by (auto split: bool.splits if_splits)
qed

lemma dictRehashMs_loop_Some:
  "dict_ok T d \<Longrightarrow> \<not> dictIsRehashing (((\<lambda>d. fst (dictRehash T d 100)) ^^ Suc (length ts)) d) \<Longrightarrow>
   dictRehashMs_loop T d ts ms c \<noteq> None"
proof (induction ts arbitrary: d c)
  case Nil
  then show ?case using dictRehash_correct(2) [OF Nil.prems(1), of 100] by (auto split: prod.splits bool.splits)
next
  case (Cons t ts)
  obtain d1 b where r: "dictRehash T d 100 = (d1, b)" by fastforce
  have "dict_ok T d1" using dictRehash_correct(1) [OF Cons.prems(1), of 100] r by (simp add: rehash_rel_def)
  moreover have "\<not> dictIsRehashing (((\<lambda>d. fst (dictRehash T d 100)) ^^ Suc (length ts)) d1)"
    using Cons.prems(2) r by (simp add: funpow_Suc_right del: funpow.simps)
  ultimately have "dictRehashMs_loop T d1 ts ms (c + 100) \<noteq> None" by (rule Cons.IH)
  then show ?case using r by (auto split: bool.splits if_splits)
qed

section \<open>Properties\<close>

text \<open>
  Claim C5. Any sequence of \<^verbatim>\<open>dictAdd\<close>, \<^verbatim>\<open>dictReplace\<close>, \<^verbatim>\<open>dictDelete\<close> and \<^verbatim>\<open>dictFetchValue\<close> calls on a new
  dict, with rehashing, expanding and shrinking at any point in between, answers and ends as the
  mathematical map does, for every hash function and resize policy, as long as there are at most
  \<open>2 ^ 60\<close> calls.
\<close>

theorem dict_simulates_map:
  fixes T :: "'k dictType" and v0 :: 'v
  defines "step \<equiv> map_exec (\<lambda>d k v. dictAdd T d k v v0) (\<lambda>d k v. dictReplace T d k v v0) (dictDelete T)
    (dictFetchValue T) (dict_maintain T)"
  assumes "length xs \<le> 2 ^ 60"
  shows "snd (run_ops step dictCreate xs) = snd (run_ops map_spec Map.empty xs) \<and>
    dict_map (fst (run_ops step dictCreate xs)) = fst (run_ops map_spec Map.empty xs)"
  using dmap.run_new_refines [OF assms(2), of T v0] by (simp add: step_def)

theorem dict_simulates_map_witness:
  "snd (run_ops (map_exec (\<lambda>d k v. dictAdd \<lparr>hashFunction = of_nat, expandAllowed = \<lambda>_ _ _. True, dict_can_resize = True\<rparr> d k v 0)
      (\<lambda>d k v. dictReplace \<lparr>hashFunction = of_nat, expandAllowed = \<lambda>_ _ _. True, dict_can_resize = True\<rparr> d k v 0)
      (dictDelete \<lparr>hashFunction = of_nat, expandAllowed = \<lambda>_ _ _. True, dict_can_resize = True\<rparr>)
      (dictFetchValue \<lparr>hashFunction = of_nat, expandAllowed = \<lambda>_ _ _. True, dict_can_resize = True\<rparr>)
      (dict_maintain \<lparr>hashFunction = of_nat, expandAllowed = \<lambda>_ _ _. True, dict_can_resize = True\<rparr>)) dictCreate
     [Insert (3 :: nat) (30 :: nat), Insert 3 31, Maintain (Expand 100), Update 3 32, Fetch 3, Delete 3, Fetch 3])
   = [Flag True, Flag False, Flag True, Flag False, Val (Some 32), Flag True, Val None]"
  using dict_simulates_map [of "[Insert (3 :: nat) (30 :: nat), Insert 3 31, Maintain (Expand 100), Update 3 32, Fetch 3, Delete 3, Fetch 3]"
      "\<lparr>hashFunction = of_nat, expandAllowed = \<lambda>_ _ _. True, dict_can_resize = True\<rparr>" 0]
  by simp

text \<open>
  Claim C25. A call of \<^verbatim>\<open>dictRehash\<close> keeps the invariant, the map and the number of entries; it returns 1
  exactly when the rehashing is not finished; and with entries left its search for a bucket to
  move never runs past the table, so its assertion holds.
\<close>

theorem dictRehash_preserves:
  assumes "dict_ok T d"
  shows "dict_ok T (fst (dictRehash T d n)) \<and> dict_map (fst (dictRehash T d n)) = dict_map d \<and>
    dictSize (fst (dictRehash T d n)) = dictSize d \<and>
    (snd (dictRehash T d n) \<longleftrightarrow> dictIsRehashing (fst (dictRehash T d n))) \<and>
    (dictIsRehashing d \<longrightarrow> ht_used0 d \<noteq> 0 \<longrightarrow>
      dictRehash_skip (drop (nat (rehashidx d)) (ht_table0 d)) (nat (rehashidx d)) ev \<noteq> Past)"
proof (intro conjI impI notI)
  note c = dictRehash_correct [OF assms, of n]
  show "dict_ok T (fst (dictRehash T d n))" using c(1) by (simp add: rehash_rel_def)
  show "dict_map (fst (dictRehash T d n)) = dict_map d" by (rule rehash_rel_map(1) [OF assms c(1)])
  show "dictSize (fst (dictRehash T d n)) = dictSize d" by (rule rehash_rel_map(2) [OF assms c(1)])
  show "snd (dictRehash T d n) \<longleftrightarrow> dictIsRehashing (fst (dictRehash T d n))" by (rule c(2))
  assume "dictIsRehashing d" "ht_used0 d \<noteq> 0"
    "dictRehash_skip (drop (nat (rehashidx d)) (ht_table0 d)) (nat (rehashidx d)) ev = Past"
  then show False using loop_skip [OF assms, of ev] by simp
qed

definition witness_dict :: "(nat, nat) dict" where
  "witness_dict = \<lparr>ht_table0 = [[(4, 40), (8, 80)], [], [], []], ht_table1 = [[], [], [], [], [], [], [], []],
     ht_used0 = 2, ht_used1 = 0, ht_size_exp0 = 2, ht_size_exp1 = 3, rehashidx = 0, pauserehash = 0\<rparr>"

definition witness_type :: "nat dictType" where
  "witness_type = \<lparr>hashFunction = of_nat, expandAllowed = \<lambda>_ _ _. True, dict_can_resize = True\<rparr>"

lemma witness_dict_ok: "dict_ok witness_type witness_dict"
  by code_simp

lemma witness_dict_length: "length (ht_table0 witness_dict) = 4"
  by (simp add: witness_dict_def)

theorem dictRehash_preserves_witness:
  "dict_map (fst (dictRehash witness_type witness_dict 1)) 4 = Some 40"
proof -
  have "dict_map witness_dict 4 = Some 40" by (simp add: dict_map_def dict_entries_def witness_dict_def)
  then show ?thesis using dictRehash_preserves [OF witness_dict_ok, of 1] by metis
qed

text \<open>
  Claim C26. Rehashing ends: after as many calls of \<^verbatim>\<open>dictRehash\<close> as the old table has buckets, and one
  more, the rehashing is finished, and nothing of the map has changed.
\<close>

theorem dictRehash_terminates:
  assumes "dict_ok T d" "0 < n"
  shows "\<not> dictIsRehashing (((\<lambda>d. fst (dictRehash T d n)) ^^ Suc (length (ht_table0 d))) d) \<and>
    dict_map (((\<lambda>d. fst (dictRehash T d n)) ^^ Suc (length (ht_table0 d))) d) = dict_map d"
proof
  show "\<not> dictIsRehashing (((\<lambda>d. fst (dictRehash T d n)) ^^ Suc (length (ht_table0 d))) d)"
    by (rule rehash_iterate_done [OF assms lessI])
  show "dict_map (((\<lambda>d. fst (dictRehash T d n)) ^^ Suc (length (ht_table0 d))) d) = dict_map d"
    by (rule rehash_rel_map(1) [OF assms(1) conjunct1 [OF rehash_iterate [OF assms]]])
qed

theorem dictRehash_terminates_witness:
  "\<not> dictIsRehashing (((\<lambda>d. fst (dictRehash witness_type d 1)) ^^ Suc 4) witness_dict)"
  using dictRehash_terminates [OF witness_dict_ok zero_less_one, unfolded witness_dict_length]
  by (rule conjunct1)

text \<open>
  \<^verbatim>\<open>dictRehashMilliseconds\<close> returns, whatever the clock says, within one more round than the old
  table has buckets, and keeps the map.
\<close>

lemma dictRehashMilliseconds_returns:
  assumes "dict_ok T d" "length (ht_table0 d) \<le> length ts"
  shows "\<exists>d' m. dictRehashMilliseconds T d ts ms = Some (d', m) \<and> dict_ok T d' \<and> dict_map d' = dict_map d"
proof (cases "pauserehash d > 0")
  case True
  then show ?thesis using assms(1) by (simp add: dictRehashMilliseconds_def)
next
  case False
  have "dictRehashMs_loop T d ts ms 0 \<noteq> None"
    using rehash_iterate_done [OF assms(1), of 100 "Suc (length ts)"] assms(2)
    by (intro dictRehashMs_loop_Some [OF assms(1)]) simp
  then obtain d' m where r: "dictRehashMs_loop T d ts ms 0 = Some (d', m)" by auto
  have rr: "rehash_rel T d d'" by (rule dictRehashMs_loop_rel [OF assms(1) r])
  then show ?thesis using r False rehash_rel_map(1) [OF assms(1) rr]
    by (simp add: dictRehashMilliseconds_def rehash_rel_def)
qed

end
