(* ===== verification/Scan_Cursor.thy ===== *)
theory Scan_Cursor
  imports Prelude
begin

text \<open>
  The cursor of \<^verbatim>\<open>dictScan\<close>: \<^verbatim>\<open>rev\<close> reverses the bits of a 64-bit word, and the cursor is incremented in
  reversed form, from its high bits down. Read in reversed form, as the number \<open>unat (rev64 v)\<close>,
  a cursor is a position in the space of all hash values, in an order that does not depend on the
  size of the table: the bucket of a cursor is an interval of that space, and an increment goes to
  the start of the next one.
\<close>

section \<open>Model\<close>

text \<open>\<^verbatim>\<open>rev\<close>: the bits of a word in reverse order, by swapping halves, quarters and so on.\<close>

function rev_loop :: "nat \<Rightarrow> u64 \<Rightarrow> u64 \<Rightarrow> u64" where
  "rev_loop s msk v =
     (let s' = s div 2 in
      if s' > 0 then
        (let msk' = msk XOR push_bit s' msk
         in rev_loop s' msk' ((drop_bit s' v AND msk') OR (push_bit s' v AND NOT msk')))
      else v)"
  by pat_completeness auto
termination by (relation "measure fst") auto

declare rev_loop.simps [simp del]

definition rev64 :: "u64 \<Rightarrow> u64" where
  "rev64 v = rev_loop 64 (NOT 0) v"

definition scan_next :: "u64 \<Rightarrow> u64 \<Rightarrow> u64" where
  "scan_next m v = rev64 (rev64 (v OR NOT m) + 1)"

section \<open>Reversal of bits\<close>

text \<open>
  In the round with shift \<open>s\<close> the mask has the bits \<open>i\<close> with an even \<open>i div s\<close>, and bit \<open>i\<close> is exchanged
  with its partner at distance \<open>s\<close>.
\<close>

definition rev_mask :: "nat \<Rightarrow> u64 \<Rightarrow> bool" where
  "rev_mask s m \<longleftrightarrow> (\<forall>i < 64. bit m i \<longleftrightarrow> even (i div s))"

definition partner :: "nat \<Rightarrow> nat \<Rightarrow> nat" where
  "partner s i = (if even (i div s) then i + s else i - s)"

lemma even_div_split:
  fixes s i :: nat
  assumes "0 < s"
  shows "(even (i div (2 * s)) \<noteq> (s \<le> i \<and> even ((i - s) div (2 * s)))) \<longleftrightarrow> even (i div s)"
proof -
  define q where "q = i div s"
  have 1: "i div (2 * s) = q div 2" by (simp add: q_def div_mult2_eq mult.commute [of 2])
  have 2: "s \<le> i \<longleftrightarrow> 0 < q" using assms by (simp add: q_def div_greater_zero_iff)
  have "s \<le> i \<Longrightarrow> (i - s) div s = q - 1" using assms le_div_geq [of s i] by (simp add: q_def)
  then have 3: "s \<le> i \<Longrightarrow> (i - s) div (2 * s) = (q - 1) div 2" by (simp add: div_mult2_eq mult.commute [of 2])
  have "(even (q div 2) \<noteq> (0 < q \<and> even ((q - 1) div 2))) \<longleftrightarrow> even q" by presburger
  then show ?thesis using 1 2 3 by (auto simp: q_def [symmetric])
qed

lemma rev_mask_step:
  assumes "rev_mask (2 * s) m" "0 < s"
  shows "rev_mask s (m XOR push_bit s m)"
  unfolding rev_mask_def
proof (intro allI impI)
  fix i :: nat
  assume i: "i < 64"
  have "bit (m XOR push_bit s m) i \<longleftrightarrow> bit m i \<noteq> (s \<le> i \<and> bit m (i - s))"
    using i by (simp add: bit_xor_iff bit_push_bit_iff)
  also have "\<dots> \<longleftrightarrow> even (i div (2 * s)) \<noteq> (s \<le> i \<and> even ((i - s) div (2 * s)))"
    using assms(1) i by (simp add: rev_mask_def)
  also have "\<dots> \<longleftrightarrow> even (i div s)" by (rule even_div_split [OF assms(2)])
  finally show "bit (m XOR push_bit s m) i \<longleftrightarrow> even (i div s)" .
qed

lemma rev_round:
  assumes "rev_mask s m" "0 < s" "i < 64"
  shows "bit ((drop_bit s v AND m) OR (push_bit s v AND NOT m)) i \<longleftrightarrow> bit v (partner s i)"
proof (cases "even (i div s)")
  case True
  then show ?thesis using assms
    by (simp add: rev_mask_def partner_def bit_or_iff bit_and_iff bit_not_iff bit_drop_bit_eq add.commute)
next
  case False
  have "s \<le> i" using False by (metis div_less even_zero not_le)
  then show ?thesis using assms False
    by (simp add: rev_mask_def partner_def bit_or_iff bit_and_iff bit_not_iff bit_drop_bit_eq bit_push_bit_iff)
qed

lemma rev_loop_step:
  assumes "rev_mask (2 * s) m" "0 < s"
  obtains m' v' where "rev_loop (2 * s) m v = rev_loop s m' v'" "rev_mask s m'"
    "\<forall>i < 64. bit v' i \<longleftrightarrow> bit v (partner s i)"
proof -
  let ?m = "m XOR push_bit s m"
  let ?v = "(drop_bit s v AND ?m) OR (push_bit s v AND NOT ?m)"
  have m: "rev_mask s ?m" by (rule rev_mask_step [OF assms])
  have "rev_loop (2 * s) m v = rev_loop s ?m ?v"
    using assms(2) by (subst rev_loop.simps) (simp add: Let_def)
  then show ?thesis using that m rev_round [OF m assms(2)] by blast
qed

text \<open>The rounds so far have reversed the order within blocks of the size they have reached.\<close>

definition rev_block :: "nat \<Rightarrow> nat \<Rightarrow> nat" where
  "rev_block s i = i div s * s + (s - 1 - i mod s)"

lemma partner_step:
  assumes "0 < s" shows "partner s (rev_block s i) = rev_block (2 * s) i"
proof -
  define q r where "q = i div s" and "r = i mod s"
  have r: "r < s" using assms by (simp add: r_def)
  have "rev_block s i = (s - 1 - r) + q * s" by (simp add: rev_block_def q_def r_def)
  then have x: "rev_block s i div s = q" using r div_mult_self1 [of s "s - 1 - r" q] by simp
  have d: "i div (2 * s) = q div 2" by (simp add: q_def div_mult2_eq mult.commute [of 2])
  have m: "i mod (2 * s) = s * (q mod 2) + r"
    using mod_mult2_eq [of i s 2] by (simp add: q_def r_def mult.commute)
  show ?thesis
  proof (cases "even q")
    case True
    then obtain a where "q = 2 * a" ..
    then show ?thesis using r x d m by (simp add: partner_def) (simp add: rev_block_def flip: q_def r_def)
  next
    case False
    then obtain a where "q = 2 * a + 1" by (rule oddE)
    then show ?thesis using r x d m by (simp add: partner_def) (simp add: rev_block_def flip: q_def r_def)
  qed
qed

lemma rev_block_64: "i < 64 \<Longrightarrow> rev_block 64 i = 63 - i"
  by (simp add: rev_block_def)

lemma rev_block_lt:
  assumes "i < 64" "s dvd 64" shows "rev_block s i < 64"
proof -
  from assms(2) obtain k where k: "64 = s * k" ..
  then have s: "0 < s" by (cases s) auto
  have "i div s < k" using assms(1) k by (simp add: less_mult_imp_div_less mult.commute)
  then have "Suc (i div s) * s \<le> 64" using k by (metis Suc_leI mult.commute mult_le_mono1)
  then show ?thesis using s by (simp add: rev_block_def)
qed

lemma bit_rev64: "bit (rev64 v) i \<longleftrightarrow> i < 64 \<and> bit v (63 - i)"
proof (cases "i < 64")
  case True
  have m: "rev_mask (2 * 32) (NOT 0)" by (simp add: rev_mask_def bit_not_iff)
  obtain m1 v1 where 1: "rev_loop (2 * 32) (NOT 0) v = rev_loop 32 m1 v1" "rev_mask 32 m1"
    "\<forall>i < 64. bit v1 i \<longleftrightarrow> bit v (partner 32 i)" by (rule rev_loop_step [OF m]) simp
  obtain m2 v2 where 2: "rev_loop (2 * 16) m1 v1 = rev_loop 16 m2 v2" "rev_mask 16 m2"
    "\<forall>i < 64. bit v2 i \<longleftrightarrow> bit v1 (partner 16 i)" by (rule rev_loop_step [of 16 m1 v1]) (use 1(2) in simp_all)
  obtain m3 v3 where 3: "rev_loop (2 * 8) m2 v2 = rev_loop 8 m3 v3" "rev_mask 8 m3"
    "\<forall>i < 64. bit v3 i \<longleftrightarrow> bit v2 (partner 8 i)" by (rule rev_loop_step [of 8 m2 v2]) (use 2(2) in simp_all)
  obtain m4 v4 where 4: "rev_loop (2 * 4) m3 v3 = rev_loop 4 m4 v4" "rev_mask 4 m4"
    "\<forall>i < 64. bit v4 i \<longleftrightarrow> bit v3 (partner 4 i)" by (rule rev_loop_step [of 4 m3 v3]) (use 3(2) in simp_all)
  obtain m5 v5 where 5: "rev_loop (2 * 2) m4 v4 = rev_loop 2 m5 v5" "rev_mask 2 m5"
    "\<forall>i < 64. bit v5 i \<longleftrightarrow> bit v4 (partner 2 i)" by (rule rev_loop_step [of 2 m4 v4]) (use 4(2) in simp_all)
  obtain m6 v6 where 6: "rev_loop (2 * 1) m5 v5 = rev_loop 1 m6 v6"
    "\<forall>i < 64. bit v6 i \<longleftrightarrow> bit v5 (partner 1 i)" by (rule rev_loop_step [of 1 m5 v5]) (use 5(2) in simp_all)
  have "rev64 v = v6"
    using 1(1) 2(1) 3(1) 4(1) 5(1) 6(1) by (simp add: rev64_def rev_loop.simps [of 1] del: One_nat_def)
  moreover have "partner 1 i = rev_block 2 i" using partner_step [of 1 i] by (simp add: rev_block_def)
  moreover have "partner 2 (rev_block 2 i) = rev_block 4 i" "partner 4 (rev_block 4 i) = rev_block 8 i"
    "partner 8 (rev_block 8 i) = rev_block 16 i" "partner 16 (rev_block 16 i) = rev_block 32 i"
    "partner 32 (rev_block 32 i) = 63 - i"
    using partner_step [of 2 i] partner_step [of 4 i] partner_step [of 8 i] partner_step [of 16 i]
      partner_step [of 32 i] rev_block_64 [OF True] by simp_all
  ultimately show ?thesis
    using True 1(3) 2(3) 3(3) 4(3) 5(3) 6(2) rev_block_lt [OF True] by simp
next
  case False
  then show ?thesis using bit_imp_le_length [of "rev64 v" i] by auto
qed

lemma rev64_rev64 [simp]: "rev64 (rev64 v) = v"
  by (rule bit_word_eqI) (auto simp: bit_rev64)

lemma rev64_0 [simp]: "rev64 0 = 0"
  by (rule bit_word_eqI) (simp add: bit_rev64)

section \<open>Cursors as positions\<close>

text \<open>The position of a hash value or a cursor in the scan order.\<close>

definition scan_pos :: "u64 \<Rightarrow> nat" where
  "scan_pos v = unat (rev64 v)"

lemma scan_pos_lt [simp]: "scan_pos v < 2 ^ 64"
  by (simp add: scan_pos_def)

lemma scan_pos_0 [simp]: "scan_pos 0 = 0"
  by (simp add: scan_pos_def)

lemma scan_pos_eq_0 [simp]: "scan_pos v = 0 \<longleftrightarrow> v = 0"
  by (metis rev64_0 rev64_rev64 scan_pos_def unat_eq_zero)

text \<open>Two words share a bucket of a table of \<open>2 ^ e\<close> buckets when they share an interval of positions.\<close>

lemma same_bucket_iff:
  assumes "e \<le> 64"
  shows "v AND mask e = w AND mask e \<longleftrightarrow> scan_pos v div 2 ^ (64 - e) = scan_pos w div 2 ^ (64 - e)"
proof -
  have d: "scan_pos x div 2 ^ (64 - e) = unat (drop_bit (64 - e) (rev64 x))" for x
    unfolding scan_pos_def unat_drop_bit_eq by (simp add: drop_bit_eq_div)
  have "v AND mask e = w AND mask e \<longleftrightarrow> (\<forall>i < e. bit v i = bit w i)"
    using assms by (simp add: bit_eq_iff bit_and_iff bit_mask_iff) (metis less_le_trans)
  also have "\<dots> \<longleftrightarrow> (\<forall>i. bit (drop_bit (64 - e) (rev64 v)) i = bit (drop_bit (64 - e) (rev64 w)) i)"
  proof
    assume a: "\<forall>i < e. bit v i = bit w i"
    show "\<forall>i. bit (drop_bit (64 - e) (rev64 v)) i = bit (drop_bit (64 - e) (rev64 w)) i"
      using a assms by (auto simp: bit_drop_bit_eq bit_rev64)
  next
    assume a: "\<forall>i. bit (drop_bit (64 - e) (rev64 v)) i = bit (drop_bit (64 - e) (rev64 w)) i"
    show "\<forall>i < e. bit v i = bit w i"
    proof (intro allI impI)
      fix i
      assume "i < e"
      then show "bit v i = bit w i"
        using a [rule_format, of "e - 1 - i"] assms by (auto simp: bit_drop_bit_eq bit_rev64)
    qed
  qed
  also have "\<dots> \<longleftrightarrow> drop_bit (64 - e) (rev64 v) = drop_bit (64 - e) (rev64 w)"
    by (metis bit_eq_iff)
  finally show ?thesis by (simp only: d word_unat_eq_iff)
qed

lemma or_mask_nat: "(a :: nat) OR mask n = a div 2 ^ n * 2 ^ n + (2 ^ n - 1)"
proof -
  have "a OR mask n = push_bit n (drop_bit n a) OR mask n"
    by (rule bit_eqI) (auto simp: bit_or_iff bit_push_bit_iff bit_drop_bit_eq bit_mask_iff)
  also have "\<dots> = push_bit n (drop_bit n a) + mask n"
    by (rule disjunctive_add [symmetric]) (auto simp: bit_push_bit_iff bit_mask_iff)
  finally show ?thesis by (simp add: push_bit_eq_mult drop_bit_eq_div mask_eq_exp_minus_1)
qed

lemma unat_mask_64: "n \<le> 64 \<Longrightarrow> unat (mask n :: u64) = mask n"
  by (rule bit_eqI) (auto simp: bit_unsigned_iff bit_mask_iff)

lemma scan_pos_next:
  assumes "e \<le> 64"
  shows "scan_pos (scan_next (mask e) v) = (scan_pos v div 2 ^ (64 - e) + 1) * 2 ^ (64 - e) mod 2 ^ 64"
proof -
  have "rev64 (v OR NOT (mask e)) = rev64 v OR mask (64 - e)"
    using assms by (intro bit_word_eqI) (auto simp: bit_rev64 bit_or_iff bit_not_iff bit_mask_iff)
  then have "unat (rev64 (v OR NOT (mask e))) = scan_pos v div 2 ^ (64 - e) * 2 ^ (64 - e) + (2 ^ (64 - e) - 1)"
    using or_mask_nat [of "scan_pos v" "64 - e"] by (simp add: scan_pos_def unsigned_or_eq unat_mask_64)
  moreover have "(1 :: nat) \<le> 2 ^ (64 - e)" by simp
  ultimately have "Suc (unat (rev64 (v OR NOT (mask e)))) = (scan_pos v div 2 ^ (64 - e) + 1) * 2 ^ (64 - e)"
    by (simp del: one_le_power)
  then show ?thesis by (simp add: scan_next_def scan_pos_def unat_word_ariths)
qed

text \<open>The test of the loop over the larger table: is the position at an interval of the smaller one?\<close>

lemma scan_pos_aligned_iff:
  assumes "n \<le> 64"
  shows "scan_pos v mod 2 ^ n = 0 \<longleftrightarrow> (\<forall>i < n. \<not> bit v (63 - i))"
proof -
  have "scan_pos v mod 2 ^ n = unat (take_bit n (rev64 v))"
    unfolding scan_pos_def by (simp add: unsigned_take_bit_eq flip: take_bit_eq_mod)
  then have "scan_pos v mod 2 ^ n = 0 \<longleftrightarrow> take_bit n (rev64 v) = 0" by (simp only: unat_eq_zero)
  also have "\<dots> \<longleftrightarrow> (\<forall>i < n. \<not> bit (rev64 v) i)"
    by (auto simp: bit_eq_iff bit_take_bit_iff bit_rev64)
  finally show ?thesis using assms by (auto simp: bit_rev64)
qed

lemma mask_diff_iff:
  assumes "e0 \<le> e1" "e1 \<le> 64" "scan_pos v mod 2 ^ (64 - e1) = 0"
  shows "v AND (mask e0 XOR mask e1) = 0 \<longleftrightarrow> scan_pos v mod 2 ^ (64 - e0) = 0"
proof -
  have low: "\<not> bit v (63 - i)" if "i < 64 - e1" for i
    using assms(3) that scan_pos_aligned_iff [of "64 - e1" v] by simp
  have "v AND (mask e0 XOR mask e1) = 0 \<longleftrightarrow> (\<forall>j. e0 \<le> j \<and> j < e1 \<longrightarrow> \<not> bit v j)"
    using assms(1,2) by (simp add: bit_eq_iff bit_and_iff bit_xor_iff bit_mask_iff)
      (metis bit_imp_le_length len_num1 less_le_trans linorder_not_le)
  also have "\<dots> \<longleftrightarrow> (\<forall>i < 64 - e0. \<not> bit v (63 - i))"
  proof
    assume a: "\<forall>j. e0 \<le> j \<and> j < e1 \<longrightarrow> \<not> bit v j"
    show "\<forall>i < 64 - e0. \<not> bit v (63 - i)"
    proof (intro allI impI)
      fix i
      assume i: "i < 64 - e0"
      show "\<not> bit v (63 - i)"
      proof (cases "i < 64 - e1")
        case False
        then have "e0 \<le> 63 - i" "63 - i < e1" using i assms(2) by arith+
        then show ?thesis using a by blast
      qed (rule low)
    qed
  next
    assume a: "\<forall>i < 64 - e0. \<not> bit v (63 - i)"
    show "\<forall>j. e0 \<le> j \<and> j < e1 \<longrightarrow> \<not> bit v j"
    proof (intro allI impI)
      fix j
      assume "e0 \<le> j \<and> j < e1"
      then have "63 - j < 64 - e0" "63 - (63 - j) = j" using assms(2) by arith+
      then show "\<not> bit v j" using a by metis
    qed
  qed
  finally show ?thesis by (simp add: scan_pos_aligned_iff)
qed

lemma scan_next_aligned:
  assumes "e \<le> 64" shows "scan_pos (scan_next (mask e) v) mod 2 ^ (64 - e) = 0"
proof -
  have "(2 :: nat) ^ (64 - e) dvd 2 ^ 64" by (rule le_imp_power_dvd) simp
  then show ?thesis by (simp add: scan_pos_next [OF assms] mod_mod_cancel)
qed

text \<open>
  One round of that loop: it either arrives at the next interval of the smaller table and ends, or
  it stays in the current one and has fewer rounds left.
\<close>

lemma scan_round:
  fixes v :: u64
  assumes e: "e0 \<le> e1" "e1 \<le> 64"
  defines "q \<equiv> scan_pos v div 2 ^ (64 - e1)" and "w \<equiv> scan_next (mask e1) v" and "P \<equiv> (2 :: nat) ^ (e1 - e0)"
  shows "if w AND (mask e0 XOR mask e1) = 0
    then scan_pos w = (scan_pos v div 2 ^ (64 - e0) + 1) * 2 ^ (64 - e0) mod 2 ^ 64 \<and>
      Suc q * 2 ^ (64 - e1) = (scan_pos v div 2 ^ (64 - e0) + 1) * 2 ^ (64 - e0)
    else scan_pos w = Suc q * 2 ^ (64 - e1) \<and> scan_pos v < scan_pos w \<and>
      scan_pos w div 2 ^ (64 - e0) = scan_pos v div 2 ^ (64 - e0) \<and> Suc q mod P = Suc (q mod P) \<and> Suc (q mod P) < P"
proof -
  let ?D1 = "(2 :: nat) ^ (64 - e1)" and ?D0 = "(2 :: nat) ^ (64 - e0)"
  have D: "?D0 = ?D1 * P" using e by (simp add: P_def flip: power_add)
  have E: "(2 :: nat) ^ 64 = 2 ^ e1 * ?D1" using e by (simp flip: power_add)
  have PE: "P dvd 2 ^ e1" by (simp add: P_def le_imp_power_dvd)
  have P0: "0 < P" by (simp add: P_def)
  have wq: "scan_pos w = Suc q * ?D1 mod 2 ^ 64" using scan_pos_next [OF e(2)] by (simp add: w_def q_def)
  have v0: "scan_pos v div ?D0 = q div P" by (simp add: D q_def div_mult2_eq)
  have D0: "?D0 dvd 2 ^ 64" by (rule le_imp_power_dvd) simp
  have "scan_pos w mod ?D0 = Suc q * ?D1 mod ?D0" unfolding wq by (rule mod_mod_cancel [OF D0])
  also have "\<dots> = ?D1 * (Suc q mod P)" unfolding D mult.commute [of "Suc q"] by (rule mult_mod_right [symmetric])
  finally have st: "w AND (mask e0 XOR mask e1) = 0 \<longleftrightarrow> Suc q mod P = 0"
    using mask_diff_iff [OF e, of w] scan_next_aligned [OF e(2), of v] by (simp add: w_def)
  have sq: "Suc q mod P = (if Suc (q mod P) = P then 0 else Suc (q mod P))" by (rule mod_Suc)
  show ?thesis
  proof (cases "w AND (mask e0 XOR mask e1) = 0")
    case True
    then have "Suc (q mod P) = P" using st sq by (auto split: if_splits)
    moreover have "q = q div P * P + q mod P" by (rule div_mult_mod_eq [symmetric])
    ultimately have "Suc q = (q div P + 1) * P" unfolding distrib_right by linarith
    then have "Suc q * ?D1 = (q div P + 1) * ?D0" unfolding D by (simp only: ac_simps)
    then show ?thesis using True wq v0 by simp
  next
    case False
    then have ne: "Suc q mod P \<noteq> 0" using st by simp
    then have r: "Suc q mod P = Suc (q mod P)" "Suc (q mod P) \<noteq> P" using sq by (auto split: if_splits)
    then have lt: "Suc (q mod P) < P" using mod_less_divisor [OF P0, of q] by simp
    have "q < 2 ^ e1" unfolding q_def
      by (rule less_mult_imp_div_less) (use scan_pos_lt [of v] E in simp)
    moreover have "Suc q \<noteq> 2 ^ e1" using ne PE by auto
    ultimately have "Suc q < 2 ^ e1" by simp
    then have "Suc q * ?D1 < 2 ^ 64" unfolding E by (rule mult_strict_right_mono) simp
    then have w: "scan_pos w = Suc q * ?D1" using wq by simp
    then have wd: "scan_pos w div ?D1 = Suc q" by simp
    have "scan_pos v < Suc q * ?D1" unfolding q_def
      using dividend_less_div_times [of ?D1 "scan_pos v"] by simp
    moreover have "Suc q div P = q div P" using ne by (simp add: div_Suc)
    then have "scan_pos w div ?D0 = scan_pos v div ?D0" unfolding v0 by (simp add: D div_mult2_eq wd)
    ultimately show ?thesis using False w r(1) lt by simp
  qed
qed

text \<open>
  From a cursor to the start of the next interval: the cursor has grown or is back at 0, and all
  positions in between are in the same interval.
\<close>

lemma scan_interval:
  assumes w: "scan_pos w = (scan_pos v div 2 ^ (64 - e) + 1) * 2 ^ (64 - e) mod 2 ^ 64" and e: "e \<le> 64"
  shows "w = 0 \<or> scan_pos v < scan_pos w"
    and "scan_pos v \<le> scan_pos h \<Longrightarrow> w = 0 \<or> scan_pos h < scan_pos w \<Longrightarrow>
      scan_pos h div 2 ^ (64 - e) = scan_pos v div 2 ^ (64 - e)"
proof -
  let ?D = "(2 :: nat) ^ (64 - e)" and ?v = "scan_pos v"
  define q where "q = ?v div ?D"
  have E: "(2 :: nat) ^ 64 = 2 ^ e * ?D" using e by (simp flip: power_add)
  have v: "?v < Suc q * ?D" using dividend_less_div_times [of ?D ?v] by (simp add: q_def)
  have "q < 2 ^ e" unfolding q_def
    by (rule less_mult_imp_div_less) (use scan_pos_lt [of v] E in simp)
  then have le: "Suc q * ?D \<le> 2 ^ 64" unfolding E by (intro mult_right_mono) simp_all
  have wq: "scan_pos w = Suc q * ?D mod 2 ^ 64" using w by (simp add: q_def)
  have d: "w = 0 \<and> Suc q * ?D = 2 ^ 64 \<or> scan_pos w = Suc q * ?D"
  proof (cases "Suc q * ?D = 2 ^ 64")
    case True
    then have "scan_pos w = 0" using wq by simp
    then show ?thesis using True by simp
  next
    case False
    then show ?thesis using le wq by simp
  qed
  show "w = 0 \<or> scan_pos v < scan_pos w" using d v by auto
  assume "scan_pos v \<le> scan_pos h" "w = 0 \<or> scan_pos h < scan_pos w"
  then have h: "?v \<le> scan_pos h" "scan_pos h < Suc q * ?D" using d scan_pos_lt [of h] by (auto simp del: scan_pos_lt)
  have "q \<le> scan_pos h div ?D" unfolding q_def using h(1) by (rule div_le_mono)
  moreover have "scan_pos h div ?D < Suc q" using h(2) by (rule less_mult_imp_div_less)
  ultimately show "scan_pos h div ?D = ?v div ?D" by (simp add: q_def)
qed

end
