(* ===== verification/Dict_Traverse.thy ===== *)
theory Dict_Traverse
  imports Dict Scan_Cursor
begin

text \<open>
  The two ways to visit every entry of a \<^verbatim>\<open>dict\<close>: the iterators, for a table that does not change,
  and \<^verbatim>\<open>dictScan\<close>, the cursor-based scan behind \<^verbatim>\<open>SCAN\<close>, \<^verbatim>\<open>SSCAN\<close> and \<^verbatim>\<open>HSCAN\<close>, which survives resizing
  and rehashing between its calls.
\<close>

section \<open>Model of the traversals of dict.c\<close>

unbundle bit_operations_syntax

subsection \<open>Iterators\<close>

text \<open>
  \<^verbatim>\<open>entry\<close> and \<^verbatim>\<open>nextEntry\<close> point into a chain and are the rest of the chain from that entry on; \<^verbatim>\<open>NULL\<close>
  is the empty list. The fingerprint, which only detects misuse, is left out.
\<close>

record ('k, 'v) dictIterator =
  it_table :: nat
  it_index :: int
  it_safe :: bool
  it_entry :: "('k \<times> 'v) list"
  it_nextEntry :: "('k \<times> 'v) list"

definition dictGetIterator :: "('k, 'v) dictIterator" where
  "dictGetIterator = \<lparr>it_table = 0, it_index = - 1, it_safe = False, it_entry = [], it_nextEntry = []\<rparr>"

definition dictGetSafeIterator :: "('k, 'v) dictIterator" where
  "dictGetSafeIterator = dictGetIterator\<lparr>it_safe := True\<rparr>"

definition it_size :: "('k, 'v) dict \<Rightarrow> nat \<Rightarrow> nat" where
  "it_size d t = DICTHT_SIZE (if t = 0 then ht_size_exp0 d else ht_size_exp1 d)"

definition it_bucket :: "('k, 'v) dict \<Rightarrow> nat \<Rightarrow> int \<Rightarrow> ('k \<times> 'v) list" where
  "it_bucket d t i = (if t = 0 then ht_table0 d else ht_table1 d) ! nat i"

text \<open>One round of the loop of \<^verbatim>\<open>dictNext\<close>; \<open>None\<close> is its \<^verbatim>\<open>break\<close>.\<close>

definition dictNext_round :: "('k, 'v) dict \<Rightarrow> ('k, 'v) dictIterator \<Rightarrow> ('k, 'v) dictIterator option" where
  "dictNext_round d it =
     (if it_entry it = [] then
        (let i = it_index it + 1 in
         if i \<ge> int (it_size d (it_table it)) then
           (if dictIsRehashing d \<and> it_table it = 0
            then Some (it\<lparr>it_table := 1, it_index := 0, it_entry := it_bucket d 1 0\<rparr>)
            else None)
         else Some (it\<lparr>it_index := i, it_entry := it_bucket d (it_table it) i\<rparr>))
      else Some (it\<lparr>it_entry := it_nextEntry it\<rparr>))"

function dictNext_loop :: "('k, 'v) dict \<Rightarrow> ('k, 'v) dictIterator \<Rightarrow> ('k, 'v) dictIterator \<times> ('k \<times> 'v) option" where
  "dictNext_loop d it =
     (case dictNext_round d it of
        None \<Rightarrow> (it\<lparr>it_index := it_index it + 1\<rparr>, None)
      | Some it1 \<Rightarrow>
          (case it_entry it1 of
             e # rest \<Rightarrow> (it1\<lparr>it_nextEntry := rest\<rparr>, Some e)
           | [] \<Rightarrow> dictNext_loop d it1))"
  by pat_completeness auto
termination
  by (relation "measures [\<lambda>(d, it). 1 - it_table it, \<lambda>(d, it). nat (int (it_size d (it_table it)) - it_index it),
      \<lambda>(d, it). length (it_entry it)]")
    (auto simp: dictNext_round_def Let_def split: if_splits)

declare dictNext_loop.simps [simp del]

definition dictNext :: "('k, 'v) dict \<Rightarrow> ('k, 'v) dictIterator \<Rightarrow> ('k, 'v) dict \<times> ('k, 'v) dictIterator \<times> ('k \<times> 'v) option" where
  "dictNext d it =
     (let d1 = (if it_entry it = [] \<and> it_index it = - 1 \<and> it_table it = 0 \<and> it_safe it
                then d\<lparr>pauserehash := pauserehash d + 1\<rparr> else d)
      in (d1, dictNext_loop d1 it))"

definition dictReleaseIterator :: "('k, 'v) dict \<Rightarrow> ('k, 'v) dictIterator \<Rightarrow> ('k, 'v) dict" where
  "dictReleaseIterator d it =
     (if \<not> (it_index it = - 1 \<and> it_table it = 0) \<and> it_safe it
      then d\<lparr>pauserehash := pauserehash d - 1\<rparr> else d)"

subsection \<open>Scanning\<close>

text \<open>
  The loop over the buckets of the larger table that are expansions of the cursor. The list of
  emitted entries is what the callback gets, in order. Fuel bounds the rounds by the number of
  buckets; \<open>None\<close> is running out of it.
\<close>

fun scan_large :: "nat \<Rightarrow> ('k, 'v) table \<Rightarrow> u64 \<Rightarrow> u64 \<Rightarrow> u64 \<Rightarrow> (('k \<times> 'v) list \<times> u64) option" where
  "scan_large 0 tb m0 m1 v = None"
| "scan_large (Suc fuel) tb m0 m1 v =
     (let es = tb ! unat (v AND m1); v' = scan_next m1 v in
      if v' AND (m0 XOR m1) \<noteq> 0
      then map_option (\<lambda>(es', v''). (es @ es', v'')) (scan_large fuel tb m0 m1 v')
      else Some (es, v'))"

definition dictScan :: "('k, 'v) dict \<Rightarrow> u64 \<Rightarrow> (('k \<times> 'v) list \<times> u64) option" where
  "dictScan d v =
     (if dictSize d = 0 then Some ([], 0)
      else if \<not> dictIsRehashing d then
        (let m0 = DICTHT_SIZE_MASK (ht_size_exp0 d)
         in Some (ht_table0 d ! unat (v AND m0), scan_next m0 v))
      else
        (let big0 = (DICTHT_SIZE (ht_size_exp0 d) > DICTHT_SIZE (ht_size_exp1 d));
             small = (if big0 then ht_table1 d else ht_table0 d);
             large = (if big0 then ht_table0 d else ht_table1 d);
             m0 = DICTHT_SIZE_MASK (if big0 then ht_size_exp1 d else ht_size_exp0 d);
             m1 = DICTHT_SIZE_MASK (if big0 then ht_size_exp0 d else ht_size_exp1 d)
         in map_option (\<lambda>(es, v'). (small ! unat (v AND m0) @ es, v')) (scan_large (length large) large m0 m1 v)))"

section \<open>Correctness of the scan\<close>

lemma scan_large_spec:
  assumes e: "e0 \<le> e1" "e1 \<le> 64"
    and f: "2 ^ (e1 - e0) - scan_pos v div 2 ^ (64 - e1) mod 2 ^ (e1 - e0) \<le> fuel"
  shows "\<exists>es w. scan_large fuel tb (mask e0) (mask e1) v = Some (es, w) \<and>
    scan_pos w = (scan_pos v div 2 ^ (64 - e0) + 1) * 2 ^ (64 - e0) mod 2 ^ 64 \<and>
    (\<forall>h. scan_pos v \<le> scan_pos h \<longrightarrow> scan_pos h div 2 ^ (64 - e0) = scan_pos v div 2 ^ (64 - e0) \<longrightarrow>
       set (tb ! unat (h AND mask e1)) \<subseteq> set es) \<and>
    (\<forall>x \<in> set es. \<exists>h :: u64. x \<in> set (tb ! unat (h AND mask e1)))"
  using f
proof (induction fuel arbitrary: v)
  case 0
  moreover have "scan_pos v div 2 ^ (64 - e1) mod 2 ^ (e1 - e0) < (2 :: nat) ^ (e1 - e0)" by simp
  ultimately show ?case by linarith
next
  case (Suc fuel)
  let ?D1 = "(2 :: nat) ^ (64 - e1)" and ?D0 = "(2 :: nat) ^ (64 - e0)" and ?P = "(2 :: nat) ^ (e1 - e0)"
  define q where "q = scan_pos v div ?D1"
  define w where "w = scan_next (mask e1) v"
  let ?es = "tb ! unat (v AND mask e1)"
  note rd = scan_round [OF e, of v, folded q_def w_def]
  have here: "set (tb ! unat (h AND mask e1)) = set ?es" if "scan_pos h div ?D1 = q" for h
    using that same_bucket_iff [OF e(2), of h v] by (simp add: q_def)
  have mono: "q \<le> scan_pos h div ?D1" if "scan_pos v \<le> scan_pos h" for h
    unfolding q_def using that by (rule div_le_mono)
  show ?case
  proof (cases "w AND (mask e0 XOR mask e1) = 0")
    case True
    then have w: "scan_pos w = (scan_pos v div ?D0 + 1) * ?D0 mod 2 ^ 64"
      and q: "Suc q * ?D1 = (scan_pos v div ?D0 + 1) * ?D0" using rd by simp_all
    have "scan_pos h div ?D1 = q"
      if h: "scan_pos v \<le> scan_pos h" "scan_pos h div ?D0 = scan_pos v div ?D0" for h
    proof -
      have "scan_pos h < Suc q * ?D1" unfolding q
        using dividend_less_div_times [of ?D0 "scan_pos h"] h(2) by simp
      then have "scan_pos h div ?D1 < Suc q" by (rule less_mult_imp_div_less)
      then show ?thesis using mono [OF h(1)] by simp
    qed
    then have "\<forall>h. scan_pos v \<le> scan_pos h \<longrightarrow> scan_pos h div ?D0 = scan_pos v div ?D0 \<longrightarrow>
        set (tb ! unat (h AND mask e1)) \<subseteq> set ?es" using here by blast
    moreover have "scan_large (Suc fuel) tb (mask e0) (mask e1) v = Some (?es, w)"
      using True by (simp add: Let_def flip: w_def)
    moreover have "\<forall>x \<in> set ?es. \<exists>h :: u64. x \<in> set (tb ! unat (h AND mask e1))"
      by (intro ballI exI [of _ v])
    ultimately show ?thesis using w by blast
  next
    case False
    then have w: "scan_pos w = Suc q * ?D1" "scan_pos w div ?D0 = scan_pos v div ?D0"
      "Suc q mod ?P = Suc (q mod ?P)" "Suc (q mod ?P) < ?P" 
      using rd unfolding if_not_P [OF False] by blast+
    have wd: "scan_pos w div ?D1 = Suc q" using w(1) by simp
    have "?P - scan_pos w div ?D1 mod ?P \<le> fuel"
      using Suc.prems w(4) unfolding wd w(3) q_def [symmetric] by linarith
    then obtain es u where r: "scan_large fuel tb (mask e0) (mask e1) w = Some (es, u)"
      and u: "scan_pos u = (scan_pos v div ?D0 + 1) * ?D0 mod 2 ^ 64"
      and c: "\<And>h. scan_pos w \<le> scan_pos h \<Longrightarrow> scan_pos h div ?D0 = scan_pos v div ?D0 \<Longrightarrow>
        set (tb ! unat (h AND mask e1)) \<subseteq> set es"
      and s: "\<forall>x \<in> set es. \<exists>h :: u64. x \<in> set (tb ! unat (h AND mask e1))"
      using Suc.IH [of w] unfolding w(2) by blast
    have "set (tb ! unat (h AND mask e1)) \<subseteq> set (?es @ es)"
      if h: "scan_pos v \<le> scan_pos h" "scan_pos h div ?D0 = scan_pos v div ?D0" for h
    proof (cases "scan_pos h div ?D1 = q")
      case True
      then show ?thesis using here by auto
    next
      case ne: False
      then have "Suc q \<le> scan_pos h div ?D1" using mono [OF h(1)] by simp
      then have "Suc q * ?D1 \<le> scan_pos h div ?D1 * ?D1" by (rule mult_le_mono1)
      also have "\<dots> \<le> scan_pos h" by simp
      finally show ?thesis using c [OF _ h(2)] w(1) by auto
    qed
    moreover have "scan_large (Suc fuel) tb (mask e0) (mask e1) v = Some (?es @ es, u)"
      using False r by (simp add: Let_def flip: w_def)
    moreover have "\<forall>x \<in> set (?es @ es). \<exists>h :: u64. x \<in> set (tb ! unat (h AND mask e1))"
      using s by auto
    ultimately show ?thesis using u by blast
  qed
qed

lemma table_entry_bucket:
  assumes "table_ok T e tb" "x \<in> set (concat tb)"
  shows "x \<in> set (tb ! bucket_of T e (fst x))"
proof -
  obtain i where "i < length tb" "x \<in> set (tb ! i)" using assms(2) by (auto simp: in_set_conv_nth [of _ tb])
  then show ?thesis using table_okD [OF assms(1)] by metis
qed

lemma mask_bucket_lt:
  assumes "table_ok T e tb" "exp_ok e"
  shows "unat (h AND mask (nat e)) < length tb"
proof -
  have "unat (h AND mask (nat e)) = unat h mod 2 ^ nat e"
    unfolding take_bit_eq_mask [symmetric] take_bit_eq_mod [symmetric] by (rule unsigned_take_bit_eq)
  then show ?thesis using assms by (simp add: table_ok_def DICTHT_SIZE_exp)
qed

text \<open>What one call promises, whatever the size of the tables is at the next call.\<close>

definition scan_step_ok :: "'k dictType \<Rightarrow> ('k, 'v) dict \<Rightarrow> u64 \<Rightarrow> ('k \<times> 'v) list \<Rightarrow> u64 \<Rightarrow> bool" where
  "scan_step_ok T d v es w \<longleftrightarrow>
     set es \<subseteq> set (dict_entries d) \<and> (w = 0 \<or> scan_pos v < scan_pos w) \<and>
     (\<forall>x \<in> set (dict_entries d). scan_pos v \<le> scan_pos (hashFunction T (fst x)) \<longrightarrow>
        w = 0 \<or> scan_pos (hashFunction T (fst x)) < scan_pos w \<longrightarrow> x \<in> set es)"

definition scan_advances :: "nat \<Rightarrow> u64 \<Rightarrow> u64 \<Rightarrow> bool" where
  "scan_advances e v w \<longleftrightarrow> scan_pos w = (scan_pos v div 2 ^ (64 - e) + 1) * 2 ^ (64 - e) mod 2 ^ 64"

lemma dictScan_plain:
  assumes ok: "dict_ok T d" and nz: "dictSize d \<noteq> 0" and nr: "\<not> dictIsRehashing d"
  shows "\<exists>es w. dictScan d v = Some (es, w) \<and> scan_step_ok T d v es w \<and>
    scan_advances (nat (ht_size_exp0 d)) v w"
proof -
  let ?e = "nat (ht_size_exp0 d)" and ?t = "ht_table0 d"
  have x: "exp_ok (ht_size_exp0 d)" by (rule nonempty_exp [OF ok nz])
  then have e: "?e \<le> 64" by (simp add: exp_ok_def nat_le_iff)
  have t: "table_ok T (ht_size_exp0 d) ?t" using ok by (simp add: dict_ok_def)
  have en: "dict_entries d = concat ?t" using dict_ok_table1 [OF ok nr] by (simp add: dict_entries_def)
  define w where "w = scan_next (mask ?e) v"
  let ?es = "?t ! unat (v AND mask ?e)"
  have r: "dictScan d v = Some (?es, w)"
    using nz nr by (simp add: dictScan_def size_mask [OF x] w_def Let_def)
  note i = scan_interval [OF scan_pos_next [OF e, of v, folded w_def] e]
  have "?es \<in> set ?t" using mask_bucket_lt [OF t x, of v] by (rule nth_mem)
  then have "set ?es \<subseteq> set (dict_entries d)" by (auto simp: en)
  moreover have "y \<in> set ?es"
    if y: "y \<in> set (dict_entries d)" "scan_pos v \<le> scan_pos (hashFunction T (fst y))"
      "w = 0 \<or> scan_pos (hashFunction T (fst y)) < scan_pos w" for y
  proof -
    have "y \<in> set (?t ! bucket_of T (ht_size_exp0 d) (fst y))"
      using table_entry_bucket [OF t] y(1) by (simp add: en)
    moreover have "hashFunction T (fst y) AND mask ?e = v AND mask ?e"
      using same_bucket_iff [OF e, of "hashFunction T (fst y)" v] i(2) [OF y(2,3)] by blast
    ultimately show ?thesis unfolding bucket_of_def size_mask [OF x] by simp
  qed
  moreover have "scan_advances ?e v w" unfolding scan_advances_def w_def by (rule scan_pos_next [OF e])
  ultimately show ?thesis using r i(1) unfolding scan_step_ok_def by blast
qed

text \<open>Two tables, a smaller and a larger one, as during rehashing.\<close>

lemma scan_two_tables:
  assumes s: "table_ok T es small" "exp_ok es" and l: "table_ok T el large" "exp_ok el" and le: "es \<le> el"
    and en: "set (dict_entries d) = set (concat small) \<union> set (concat large)"
  shows "\<exists>xs w. scan_large (length large) large (mask (nat es)) (mask (nat el)) v = Some (xs, w) \<and>
    scan_step_ok T d v (small ! unat (v AND mask (nat es)) @ xs) w \<and> scan_advances (nat es) v w"
proof -
  let ?s = "nat es" and ?l = "nat el"
  have e: "?s \<le> ?l" "?l \<le> 64" "?s \<le> 64" using s(2) l(2) le by (auto simp: exp_ok_def)
  have "(2 :: nat) ^ (?l - ?s) \<le> 2 ^ ?l" by (rule power_increasing) simp_all
  also have "\<dots> = length large" using l by (simp add: table_ok_def DICTHT_SIZE_exp)
  finally have f: "2 ^ (?l - ?s) - scan_pos v div 2 ^ (64 - ?l) mod 2 ^ (?l - ?s) \<le> length large"
    by (rule order_trans [OF diff_le_self])
  obtain xs w where r: "scan_large (length large) large (mask ?s) (mask ?l) v = Some (xs, w)"
    and w: "scan_pos w = (scan_pos v div 2 ^ (64 - ?s) + 1) * 2 ^ (64 - ?s) mod 2 ^ 64"
    and c: "\<And>h. scan_pos v \<le> scan_pos h \<Longrightarrow> scan_pos h div 2 ^ (64 - ?s) = scan_pos v div 2 ^ (64 - ?s) \<Longrightarrow>
      set (large ! unat (h AND mask ?l)) \<subseteq> set xs"
    and xs: "\<forall>x \<in> set xs. \<exists>h :: u64. x \<in> set (large ! unat (h AND mask ?l))"
    using scan_large_spec [OF e(1,2) f, of large] by blast
  let ?es = "small ! unat (v AND mask ?s)"
  note i = scan_interval [OF w e(3)]
  have "?es \<in> set small" using mask_bucket_lt [OF s, of v] by (rule nth_mem)
  then have "set ?es \<subseteq> set (concat small)" by auto
  moreover have "set xs \<subseteq> set (concat large)"
  proof
    fix x
    assume "x \<in> set xs"
    then obtain h :: u64 where "x \<in> set (large ! unat (h AND mask ?l))" using xs by blast
    moreover have "large ! unat (h AND mask ?l) \<in> set large" using mask_bucket_lt [OF l, of h] by (rule nth_mem)
    ultimately show "x \<in> set (concat large)" by auto
  qed
  ultimately have sub: "set (?es @ xs) \<subseteq> set (dict_entries d)" using en by auto
  have "y \<in> set (?es @ xs)"
    if y: "y \<in> set (dict_entries d)" "scan_pos v \<le> scan_pos (hashFunction T (fst y))"
      "w = 0 \<or> scan_pos (hashFunction T (fst y)) < scan_pos w" for y
  proof -
    let ?h = "hashFunction T (fst y)"
    note same = i(2) [OF y(2,3)]
    from y(1) en consider "y \<in> set (concat small)" | "y \<in> set (concat large)" by auto
    then show ?thesis
    proof cases
      case 1
      then have "y \<in> set (small ! bucket_of T es (fst y))" by (rule table_entry_bucket [OF s(1)])
      moreover have "?h AND mask ?s = v AND mask ?s" using same same_bucket_iff [OF e(3), of ?h v] by blast
      ultimately show ?thesis unfolding bucket_of_def size_mask [OF s(2)] by simp
    next
      case 2
      then have "y \<in> set (large ! bucket_of T el (fst y))" by (rule table_entry_bucket [OF l(1)])
      then show ?thesis using c [OF y(2) same] unfolding bucket_of_def size_mask [OF l(2)] by auto
    qed
  qed
  then have "scan_step_ok T d v (?es @ xs) w" using sub i(1) unfolding scan_step_ok_def by blast
  moreover have "scan_advances ?s v w" unfolding scan_advances_def by (rule w)
  ultimately show ?thesis using r by blast
qed

lemma DICTHT_SIZE_less_iff: "exp_ok a \<Longrightarrow> exp_ok b \<Longrightarrow> DICTHT_SIZE a > DICTHT_SIZE b \<longleftrightarrow> a > b"
  by (auto simp: DICTHT_SIZE_exp exp_ok_def)

text \<open>The exponent of the smaller table in use.\<close>

definition scan_exp :: "('k, 'v) dict \<Rightarrow> nat" where
  "scan_exp d = nat (if dictIsRehashing d then min (ht_size_exp0 d) (ht_size_exp1 d) else ht_size_exp0 d)"

lemma dictScan_ok:
  assumes ok: "dict_ok T d"
  shows "\<exists>es w. dictScan d v = Some (es, w) \<and> scan_step_ok T d v es w \<and>
    (if dictSize d = 0 then w = 0 else scan_advances (scan_exp d) v w)"
proof (cases "dictSize d = 0")
  case True
  then have "dict_entries d = []" using dictSize_entries [OF ok] by simp
  then show ?thesis using True by (simp add: dictScan_def scan_step_ok_def)
next
  case nz: False
  show ?thesis
  proof (cases "dictIsRehashing d")
    case False
    then show ?thesis using dictScan_plain [OF ok nz, of v] nz by (simp add: scan_exp_def)
  next
    case r: True
    let ?e0 = "ht_size_exp0 d" and ?e1 = "ht_size_exp1 d"
    have x: "exp_ok ?e0" "exp_ok ?e1" and t: "table_ok T ?e0 (ht_table0 d)" "table_ok T ?e1 (ht_table1 d)"
      using ok r by (simp_all add: dict_ok_def dictIsRehashing_def)
    have m: "DICTHT_SIZE_MASK ?e0 = mask (nat ?e0)" "DICTHT_SIZE_MASK ?e1 = mask (nat ?e1)"
      using x size_mask by blast+
    show ?thesis
    proof (cases "?e0 > ?e1")
      case True
      then have b: "DICTHT_SIZE ?e0 > DICTHT_SIZE ?e1" using DICTHT_SIZE_less_iff [OF x] by simp
      have en: "set (dict_entries d) = set (concat (ht_table1 d)) \<union> set (concat (ht_table0 d))"
        by (auto simp: dict_entries_def)
      show ?thesis using scan_two_tables [OF t(2) x(2) t(1) x(1) _ en, of v] True nz r b
        by (auto simp: dictScan_def Let_def m scan_exp_def min_def)
    next
      case False
      then have b: "\<not> DICTHT_SIZE ?e0 > DICTHT_SIZE ?e1" using DICTHT_SIZE_less_iff [OF x] by simp
      have en: "set (dict_entries d) = set (concat (ht_table0 d)) \<union> set (concat (ht_table1 d))"
        by (auto simp: dict_entries_def)
      show ?thesis using scan_two_tables [OF t(1) x(1) t(2) x(2) _ en, of v] False nz r b
        by (auto simp: dictScan_def Let_def m scan_exp_def min_def)
    qed
  qed
qed

text \<open>
  A full scan: one call per state of the dict, which the client may change between the calls. It
  ends with the cursor 0, or when the list of states is used up.
\<close>

fun scan_calls :: "('k, 'v) dict list \<Rightarrow> u64 \<Rightarrow> (('k \<times> 'v) list \<times> u64) option" where
  "scan_calls [] v = Some ([], v)"
| "scan_calls (d # ds) v =
     (case dictScan d v of
        None \<Rightarrow> None
      | Some (es, w) \<Rightarrow>
          if w = 0 then Some (es, 0)
          else map_option (\<lambda>(es', u). (es @ es', u)) (scan_calls ds w))"

lemma scan_calls_emits:
  assumes "\<forall>d \<in> set ds. dict_ok T d \<and> k \<in> dom (dict_map d)" "scan_calls ds v = Some (es, 0)"
    "ds \<noteq> []" "scan_pos v \<le> scan_pos (hashFunction T k)"
  shows "k \<in> fst ` set es"
  using assms
proof (induction ds arbitrary: v es)
  case (Cons d ds)
  have ok: "dict_ok T d" and "k \<in> dom (dict_map d)" using Cons.prems(1) by auto
  then obtain x where x: "(k, x) \<in> set (dict_entries d)"
    unfolding dict_map_def by (auto dest: map_of_SomeD)
  obtain es1 w where s: "dictScan d v = Some (es1, w)" and st: "scan_step_ok T d v es1 w"
    using dictScan_ok [OF ok] by blast
  show ?case
  proof (cases "w = 0 \<or> scan_pos (hashFunction T k) < scan_pos w")
    case True
    then have "(k, x) \<in> set es1" using st x Cons.prems(4) by (auto simp: scan_step_ok_def)
    moreover have "set es1 \<subseteq> set es" using Cons.prems(2) s by (auto split: if_splits)
    ultimately show ?thesis by force
  next
    case False
    then obtain es2 where r: "scan_calls ds w = Some (es2, 0)" "es = es1 @ es2" and w: "w \<noteq> 0"
      using Cons.prems(2) s by (auto split: if_splits)
    then have "ds \<noteq> []" by auto
    then have "k \<in> fst ` set es2" using Cons.IH [OF _ r(1)] Cons.prems(1) False by auto
    then show ?thesis by (auto simp: r(2))
  qed
qed simp

lemma scan_exp_le: "dict_ok T d \<Longrightarrow> scan_exp d \<le> 60"
  by (auto simp: scan_exp_def dict_ok_def dictIsRehashing_def exp_ok_def)

lemma scan_calls_constant:
  assumes ok: "dict_ok T d" and p: "scan_pos v = j * 2 ^ (64 - scan_exp d)" and n: "j + n = 2 ^ scan_exp d" "0 < n"
  shows "\<exists>es. scan_calls (replicate n d) v = Some (es, 0)"
  using p n
proof (induction n arbitrary: v j)
  case (Suc n)
  let ?e = "scan_exp d"
  have E: "(2 :: nat) ^ 64 = 2 ^ ?e * 2 ^ (64 - ?e)" using scan_exp_le [OF ok] by (simp flip: power_add)
  obtain es w where s: "dictScan d v = Some (es, w)"
    and w: "if dictSize d = 0 then w = 0 else scan_advances ?e v w"
    using dictScan_ok [OF ok] by blast
  show ?case
  proof (cases "w = 0")
    case True
    then show ?thesis using s by simp
  next
    case False
    then have pw: "scan_pos w = Suc j * 2 ^ (64 - ?e) mod 2 ^ 64"
      using w Suc.prems(1) by (simp add: scan_advances_def split: if_splits)
    have "Suc j \<noteq> 2 ^ ?e"
    proof
      assume "Suc j = 2 ^ ?e"
      then have "scan_pos w = 0" unfolding pw E by simp
      then show False using False by simp
    qed
    then have lt: "Suc j < 2 ^ ?e" "0 < n" using Suc.prems(2) by simp_all
    then have "Suc j * 2 ^ (64 - ?e) < 2 ^ 64" unfolding E by (intro mult_strict_right_mono) simp_all
    then have "scan_pos w = Suc j * 2 ^ (64 - ?e)" using pw by simp
    then obtain es' where "scan_calls (replicate n d) w = Some (es', 0)"
      using Suc.IH [of w "Suc j"] lt Suc.prems(2) by auto
    then show ?thesis using s False by simp
  qed
qed simp

section \<open>Correctness of the iterators\<close>

definition it_chain :: "('k, 'v) dict \<Rightarrow> nat \<Rightarrow> ('k, 'v) table" where
  "it_chain d tb = (if tb = 0 then ht_table0 d else ht_table1 d)"

text \<open>The entries behind the current position: the rest of the buckets, and the second table.\<close>

definition it_rest :: "('k, 'v) dict \<Rightarrow> ('k, 'v) dictIterator \<Rightarrow> ('k \<times> 'v) list" where
  "it_rest d it =
     concat (drop (nat (it_index it + 1)) (it_chain d (it_table it))) @
     (if dictIsRehashing d \<and> it_table it = 0 then concat (ht_table1 d) else [])"

definition it_todo :: "('k, 'v) dict \<Rightarrow> ('k, 'v) dictIterator \<Rightarrow> ('k \<times> 'v) list" where
  "it_todo d it = (if it_entry it = [] then [] else it_nextEntry it) @ it_rest d it"

definition it_ok :: "('k, 'v) dict \<Rightarrow> ('k, 'v) dictIterator \<Rightarrow> bool" where
  "it_ok d it \<longleftrightarrow> - 1 \<le> it_index it \<and> (it_table it = 0 \<or> it_table it = 1 \<and> dictIsRehashing d)"

lemma it_size_length: "dict_ok T d \<Longrightarrow> it_size d tb = length (it_chain d tb)"
  by (simp add: it_size_def it_chain_def dict_ok_def table_ok_def)

lemma it_bucket_chain: "it_bucket d tb i = it_chain d tb ! nat i"
  by (simp add: it_bucket_def it_chain_def)

lemma dictNext_round_spec:
  assumes ok: "dict_ok T d" and i: "it_ok d it"
  shows "case dictNext_round d it of
      None \<Rightarrow> it_todo d it = []
    | Some it1 \<Rightarrow> it_entry it1 @ it_rest d it1 = it_todo d it \<and> it_ok d it1"
proof (cases "it_entry it = []")
  case False
  then show ?thesis using i by (simp add: dictNext_round_def it_todo_def it_rest_def it_ok_def)
next
  case e: True
  let ?i = "it_index it + 1" and ?c = "it_chain d (it_table it)"
  have sz: "it_size d (it_table it) = length ?c" by (rule it_size_length [OF ok])
  have i0: "0 \<le> ?i" using i by (simp add: it_ok_def)
  show ?thesis
  proof (cases "?i \<ge> int (length ?c)")
    case True
    then have d0: "drop (nat ?i) ?c = []" by simp
    show ?thesis
    proof (cases "dictIsRehashing d \<and> it_table it = 0")
      case r: True
      then have "exp_ok (ht_size_exp1 d)" "table_ok T (ht_size_exp1 d) (ht_table1 d)"
        using ok by (simp_all add: dict_ok_def dictIsRehashing_def)
      then have "0 < length (ht_table1 d)" by (simp add: table_ok_def DICTHT_SIZE_exp)
      then have "ht_table1 d ! 0 @ concat (drop 1 (ht_table1 d)) = concat (ht_table1 d)"
        by (metis Cons_nth_drop_Suc One_nat_def concat.simps(2) drop0)
      then show ?thesis using e True r d0 sz
        by (simp add: dictNext_round_def it_todo_def it_rest_def it_ok_def it_bucket_chain it_chain_def)
    next
      case r: False
      then have "it_todo d it = []" using e d0 unfolding it_todo_def it_rest_def by auto
      moreover have "dictNext_round d it = None" using e True r sz by (auto simp: dictNext_round_def Let_def)
      ultimately show ?thesis by simp
    qed
  next
    case False
    then have "nat ?i < length ?c" using i0 by linarith
    then have "?c ! nat ?i @ concat (drop (Suc (nat ?i)) ?c) = concat (drop (nat ?i) ?c)"
      by (metis Cons_nth_drop_Suc concat.simps(2))
    moreover have "nat (?i + 1) = Suc (nat ?i)" using i0 by simp
    ultimately show ?thesis using e False sz i i0
      by (simp add: dictNext_round_def it_todo_def it_rest_def it_ok_def it_bucket_chain Let_def)
  qed
qed

lemma dictNext_loop_spec:
  assumes "dict_ok T d" "it_ok d it"
  shows "case it_todo d it of
      [] \<Rightarrow> snd (dictNext_loop d it) = None
    | e # es \<Rightarrow> snd (dictNext_loop d it) = Some e \<and> it_todo d (fst (dictNext_loop d it)) = es \<and>
        it_ok d (fst (dictNext_loop d it))"
  using assms
proof (induction d it rule: dictNext_loop.induct)
  case (1 d it)
  note rd = dictNext_round_spec [OF "1.prems"]
  show ?case
  proof (cases "dictNext_round d it")
    case None
    then show ?thesis using rd by (simp add: dictNext_loop.simps [of d it])
  next
    case (Some it1)
    then have t: "it_todo d it = it_entry it1 @ it_rest d it1" and ok1: "it_ok d it1" using rd by simp_all
    show ?thesis
    proof (cases "it_entry it1")
      case Nil
      then have "it_todo d it1 = it_rest d it1" by (simp add: it_todo_def)
      then have td: "it_todo d it1 = it_todo d it" using t Nil by simp
      have nx: "dictNext_loop d it = dictNext_loop d it1"
        using Some Nil by (simp add: dictNext_loop.simps [of d it])
      show ?thesis using "1.IH" [OF Some Nil "1.prems"(1) ok1] unfolding td nx .
    next
      case (Cons e rest)
      then show ?thesis using Some t ok1
        by (simp add: dictNext_loop.simps [of d it] it_todo_def it_rest_def it_ok_def)
    qed
  qed
qed

text \<open>Calling \<^verbatim>\<open>dictNext\<close> until it returns \<^verbatim>\<open>NULL\<close>, at most \<open>n\<close> times.\<close>

fun dict_iterate :: "nat \<Rightarrow> ('k, 'v) dict \<Rightarrow> ('k, 'v) dictIterator \<Rightarrow> ('k \<times> 'v) list" where
  "dict_iterate 0 d it = []"
| "dict_iterate (Suc n) d it =
     (case dictNext d it of
        (d1, it1, None) \<Rightarrow> []
      | (d1, it1, Some e) \<Rightarrow> e # dict_iterate n d1 it1)"

lemma it_pause [simp]:
  "it_todo (d\<lparr>pauserehash := p\<rparr>) it = it_todo d it" "it_ok (d\<lparr>pauserehash := p\<rparr>) it = it_ok d it"
  "dict_ok T (d\<lparr>pauserehash := p\<rparr>) = dict_ok T d"
  by (simp_all add: it_todo_def it_rest_def it_chain_def it_ok_def dictIsRehashing_def dict_ok_def dict_entries_def)

lemma dictNext_spec:
  assumes "dict_ok T d" "it_ok d it" "dictNext d it = (d1, it1, r)"
  shows "case it_todo d it of
      [] \<Rightarrow> r = None
    | e # es \<Rightarrow> r = Some e \<and> it_todo d it1 = es \<and> it_ok d it1"
    and "d1 = d \<or> (\<exists>p. d1 = d\<lparr>pauserehash := p\<rparr>)"
proof -
  show d1: "d1 = d \<or> (\<exists>p. d1 = d\<lparr>pauserehash := p\<rparr>)"
    using assms(3) by (auto simp: dictNext_def Let_def split: if_splits)
  then have same: "it_todo d1 x = it_todo d x" "it_ok d1 x = it_ok d x" "dict_ok T d1" for x
    using assms(1) by auto
  have l: "dictNext_loop d1 it = (it1, r)" using assms(3) by (auto simp: dictNext_def Let_def)
  have ok: "it_ok d1 it" using assms(2) same(2) by simp
  show "case it_todo d it of [] \<Rightarrow> r = None | e # es \<Rightarrow> r = Some e \<and> it_todo d it1 = es \<and> it_ok d it1"
    using dictNext_loop_spec [OF same(3) ok] unfolding l fst_conv snd_conv same .
qed

lemma dict_iterate_todo:
  assumes "dict_ok T d" "it_ok d it" "length (it_todo d it) < n"
  shows "dict_iterate n d it = it_todo d it"
  using assms
proof (induction n arbitrary: d it)
  case (Suc n)
  obtain d1 it1 r where nx: "dictNext d it = (d1, it1, r)" using prod_cases3 by blast
  note sp = dictNext_spec [OF Suc.prems(1,2) nx]
  show ?case
  proof (cases "it_todo d it")
    case Nil
    then show ?thesis using sp(1) nx by simp
  next
    case (Cons e es)
    then have s: "r = Some e" "it_todo d it1 = es" "it_ok d it1" using sp(1) by simp_all
    have "dict_ok T d1" "it_ok d1 it1" "it_todo d1 it1 = es" using sp(2) s Suc.prems(1) by auto
    then have "dict_iterate n d1 it1 = es" using Suc.IH [of d1 it1] Suc.prems(3) Cons by simp
    then show ?thesis using nx s Cons by simp
  qed
qed simp

lemma it_ok_init: "it_ok d dictGetIterator" "it_ok d dictGetSafeIterator"
  by (simp_all add: it_ok_def dictGetIterator_def dictGetSafeIterator_def)

lemma it_todo_init:
  assumes "dict_ok T d"
  shows "it_todo d dictGetIterator = dict_entries d" "it_todo d dictGetSafeIterator = dict_entries d"
  using dict_ok_table1 [OF assms]
  by (auto simp: it_todo_def it_rest_def it_chain_def dictGetIterator_def dictGetSafeIterator_def dict_entries_def)

section \<open>Properties\<close>

text \<open>
  Claim C3. The guarantee of \<^verbatim>\<open>dictScan\<close>: a scan that starts with cursor 0 and is continued until the
  cursor is 0 again reports every key that is in the dict during the whole scan, although the
  tables may grow, shrink and be rehashed in any way between the calls.
\<close>

theorem dictScan_reports_all:
  assumes "\<forall>d \<in> set (d0 # ds). dict_ok T d \<and> k \<in> dom (dict_map d)"
    and "scan_calls (d0 # ds) 0 = Some (es, 0)"
  shows "k \<in> fst ` set es"
  using scan_calls_emits [OF assms] by simp

theorem dictScan_reports_all_witness:
  "8 \<in> fst ` set (fst (the (scan_calls (replicate 4 witness_dict) 0)))"
proof -
  obtain es where es: "scan_calls (replicate 4 witness_dict) 0 = Some (es, 0)"
    using scan_calls_constant [OF witness_dict_ok, of 0 0 4] by (auto simp: scan_exp_def witness_dict_def dictIsRehashing_def)
  have r: "replicate 4 witness_dict = witness_dict # replicate 3 witness_dict" by (simp add: numeral_eq_Suc)
  have "8 \<in> dom (dict_map witness_dict)" by (simp add: dict_map_def dict_entries_def witness_dict_def)
  then have "8 \<in> fst ` set es"
    using dictScan_reports_all [of witness_dict "replicate 3 witness_dict" witness_type 8 es] witness_dict_ok es
    unfolding r by auto
  then show ?thesis by (simp add: es)
qed

text \<open>
  A scan ends: on a dict that is left alone, empty or not, rehashing or not, the cursor is
  back at 0 after at most as many calls as the smaller table has buckets; no call runs out of its
  loop bound.
\<close>

lemma dictScan_terminates:
  assumes "dict_ok T d"
  shows "\<exists>es. scan_calls (replicate (2 ^ scan_exp d) d) 0 = Some (es, 0)"
  using scan_calls_constant [OF assms, of 0 0] by simp

text \<open>
  Claim C27. An iterator, safe or not, over a dict that is not changed returns every entry exactly once,
  the ones of the first table before those of the second, and then \<^verbatim>\<open>NULL\<close>.
\<close>

theorem dict_iterator_complete:
  assumes "dict_ok T d" "dictSize d < n"
  shows "dict_iterate n d dictGetIterator = dict_entries d \<and> dict_iterate n d dictGetSafeIterator = dict_entries d"
  using dict_iterate_todo [OF assms(1) it_ok_init(1)] dict_iterate_todo [OF assms(1) it_ok_init(2)]
    it_todo_init [OF assms(1)] assms(2) dictSize_entries [OF assms(1)] by metis

theorem dict_iterator_complete_witness:
  "dict_iterate 3 witness_dict dictGetIterator = [(4, 40), (8, 80)]"
  using dict_iterator_complete [OF witness_dict_ok, of 3]
  by (simp add: dictSize_def dict_entries_def witness_dict_def)

end
