(* ===== verification/Set_Object.thy ===== *)
theory Set_Object
  imports Intset Decimal Dict_Traverse
begin

text \<open>
  The set object of \<^verbatim>\<open>t_set.c\<close>: a set of byte strings, kept as an integer set while all elements are
  decimal notations of 64-bit integers and there are few of them, and as a hash table otherwise.

  The two encodings are the constructors of \<open>setobj\<close>. The hash table has strings as keys and no
  values. An assertion that fails, and a panic, are the result \<open>None\<close>. Of the server configuration
  the record \<open>set_env\<close> has the dict type of sets and \<^verbatim>\<open>set-max-intset-entries\<close>.
\<close>

section \<open>Model of the set type\<close>

type_synonym sds = "byte list"

datatype setobj = IntsetObj intset | HtObj "(sds, unit) dict"

record set_env =
  setDictType :: "sds dictType"
  set_max_intset_entries :: nat

definition createIntsetObject :: setobj where
  "createIntsetObject = IntsetObj intsetNew"

definition createSetObject :: setobj where
  "createSetObject = HtObj dictCreate"

definition isSdsRepresentableAsLongLong :: "sds \<Rightarrow> int option" where
  "isSdsRepresentableAsLongLong s = string2ll s"

definition setTypeCreate :: "sds \<Rightarrow> setobj" where
  "setTypeCreate v = (if isSdsRepresentableAsLongLong v \<noteq> None then createIntsetObject else createSetObject)"

definition setTypeSize :: "setobj \<Rightarrow> nat" where
  "setTypeSize s = (case s of IntsetObj is \<Rightarrow> unat (intsetLen is) | HtObj d \<Rightarrow> dictSize d)"

subsection \<open>Iterators\<close>

datatype setTypeIterator = IntIter u32 | HtIter "(sds, unit) dictIterator"

datatype setele = SdsEle sds | LlEle int

definition setTypeInitIterator :: "setobj \<Rightarrow> setTypeIterator" where
  "setTypeInitIterator s = (case s of IntsetObj is \<Rightarrow> IntIter 0 | HtObj d \<Rightarrow> HtIter dictGetIterator)"

text \<open>
  \<^verbatim>\<open>setTypeNext\<close>; the end, \<^verbatim>\<open>-1\<close>, is \<open>None\<close>. The iterator is not safe, so it leaves the dict alone. The
  combination of an iterator with an object of the other encoding does not occur.
\<close>

fun setTypeNext :: "setobj \<Rightarrow> setTypeIterator \<Rightarrow> setTypeIterator \<times> setele option" where
  "setTypeNext (HtObj d) (HtIter di) =
     (case dictNext d di of (d1, di1, r) \<Rightarrow> (HtIter di1, map_option (\<lambda>e. SdsEle (fst e)) r))"
| "setTypeNext (IntsetObj is) (IntIter ii) = (IntIter (ii + 1), map_option LlEle (intsetGet is ii))"
| "setTypeNext s it = (it, None)"

fun ele_sds :: "setele \<Rightarrow> sds" where
  "ele_sds (SdsEle s) = s"
| "ele_sds (LlEle v) = sdsll2str v"

definition setTypeNextObject :: "setobj \<Rightarrow> setTypeIterator \<Rightarrow> setTypeIterator \<times> sds option" where
  "setTypeNextObject s it = (case setTypeNext s it of (it1, r) \<Rightarrow> (it1, map_option ele_sds r))"

text \<open>
  The loop over all elements, with the loop bodies applied to the resulting list: none of them
  changes the set that is iterated. The number of calls is bounded by \<open>n\<close>; \<open>None\<close> is running out.
\<close>

fun set_iterate :: "nat \<Rightarrow> setobj \<Rightarrow> setTypeIterator \<Rightarrow> setele list option" where
  "set_iterate 0 s it = None"
| "set_iterate (Suc n) s it =
     (case setTypeNext s it of
        (it1, None) \<Rightarrow> Some []
      | (it1, Some e) \<Rightarrow> map_option ((#) e) (set_iterate n s it1))"

definition set_elements :: "setobj \<Rightarrow> setele list option" where
  "set_elements s = set_iterate (setTypeSize s + 1) s (setTypeInitIterator s)"

subsection \<open>Conversion, addition, removal, membership\<close>

fun setTypeConvert_loop :: "set_env \<Rightarrow> setele list \<Rightarrow> (sds, unit) dict \<Rightarrow> (sds, unit) dict option" where
  "setTypeConvert_loop E [] d = Some d"
| "setTypeConvert_loop E (e # es) d =
     (case dictAdd (setDictType E) d (ele_sds e) () () of
        (d1, True) \<Rightarrow> setTypeConvert_loop E es d1
      | (d1, False) \<Rightarrow> None)"

definition setTypeConvert :: "set_env \<Rightarrow> setobj \<Rightarrow> setobj option" where
  "setTypeConvert E s =
     (case s of
        HtObj d \<Rightarrow> None
      | IntsetObj is \<Rightarrow>
          (let d = fst (dictExpand dictCreate (unat (intsetLen is))) in
           case set_elements s of
             None \<Rightarrow> None
           | Some es \<Rightarrow> map_option HtObj (setTypeConvert_loop E es d)))"

definition setTypeAdd :: "set_env \<Rightarrow> setobj \<Rightarrow> sds \<Rightarrow> (setobj \<times> bool) option" where
  "setTypeAdd E s v =
     (case s of
        HtObj ht \<Rightarrow>
          (case dictAddRaw (setDictType E) ht v () of
             (ht1, Some de, ex) \<Rightarrow> Some (HtObj (dictSetVal ht1 de ()), True)
           | (ht1, None, ex) \<Rightarrow> Some (HtObj ht1, False))
      | IntsetObj is \<Rightarrow>
          (case isSdsRepresentableAsLongLong v of
             Some llval \<Rightarrow>
               (case intsetAdd is llval of
                  (is1, True) \<Rightarrow>
                    (let max_entries = min (set_max_intset_entries E) (2 ^ 30) in
                     if unat (intsetLen is1) > max_entries
                     then map_option (\<lambda>s1. (s1, True)) (setTypeConvert E (IntsetObj is1))
                     else Some (IntsetObj is1, True))
                | (is1, False) \<Rightarrow> Some (IntsetObj is1, False))
           | None \<Rightarrow>
               (case setTypeConvert E s of
                  Some (HtObj d) \<Rightarrow>
                    (case dictAdd (setDictType E) d v () () of
                       (d1, True) \<Rightarrow> Some (HtObj d1, True)
                     | (d1, False) \<Rightarrow> None)
                | _ \<Rightarrow> None)))"

definition HASHTABLE_MIN_FILL :: nat where "HASHTABLE_MIN_FILL = 10"

definition dictSlots :: "('k, 'v) dict \<Rightarrow> nat" where
  "dictSlots d = DICTHT_SIZE (ht_size_exp0 d) + DICTHT_SIZE (ht_size_exp1 d)"

definition htNeedsResize :: "('k, 'v) dict \<Rightarrow> bool" where
  "htNeedsResize d \<longleftrightarrow>
     dictSlots d > DICT_HT_INITIAL_SIZE \<and> dictSize d * 100 div dictSlots d < HASHTABLE_MIN_FILL"

definition setTypeRemove :: "set_env \<Rightarrow> setobj \<Rightarrow> sds \<Rightarrow> setobj \<times> bool" where
  "setTypeRemove E s v =
     (case s of
        HtObj ht \<Rightarrow>
          (case dictDelete (setDictType E) ht v of
             (ht1, True) \<Rightarrow> (HtObj (if htNeedsResize ht1 then fst (dictResize (setDictType E) ht1) else ht1), True)
           | (ht1, False) \<Rightarrow> (HtObj ht1, False))
      | IntsetObj is \<Rightarrow>
          (case isSdsRepresentableAsLongLong v of
             Some llval \<Rightarrow> (case intsetRemove is llval of (is1, b) \<Rightarrow> (IntsetObj is1, b))
           | None \<Rightarrow> (s, False)))"

definition setTypeIsMember :: "set_env \<Rightarrow> setobj \<Rightarrow> sds \<Rightarrow> setobj \<times> bool" where
  "setTypeIsMember E s v =
     (case s of
        HtObj ht \<Rightarrow> (case dictFind (setDictType E) ht v of (ht1, de) \<Rightarrow> (HtObj ht1, de \<noteq> None))
      | IntsetObj is \<Rightarrow>
          (case isSdsRepresentableAsLongLong v of
             Some llval \<Rightarrow> (s, intsetFind is llval)
           | None \<Rightarrow> (s, False)))"

text \<open>\<^verbatim>\<open>setTypeDup\<close>: the copy of an integer set is a copy of its bytes.\<close>

fun setTypeDup_loop :: "set_env \<Rightarrow> setele list \<Rightarrow> setobj \<Rightarrow> setobj option" where
  "setTypeDup_loop E [] s = Some s"
| "setTypeDup_loop E (e # es) s =
     (case setTypeAdd E s (ele_sds e) of None \<Rightarrow> None | Some (s1, b) \<Rightarrow> setTypeDup_loop E es s1)"

definition setTypeDup :: "set_env \<Rightarrow> setobj \<Rightarrow> setobj option" where
  "setTypeDup E s =
     (case s of
        IntsetObj is \<Rightarrow> Some (IntsetObj is)
      | HtObj d \<Rightarrow>
          (case set_elements s of
             None \<Rightarrow> None
           | Some es \<Rightarrow> setTypeDup_loop E es (HtObj (fst (dictExpand dictCreate (dictSize d))))))"

section \<open>Invariant and abstraction\<close>

definition set_ok :: "set_env \<Rightarrow> setobj \<Rightarrow> bool" where
  "set_ok E s = (case s of IntsetObj is \<Rightarrow> intset_ok is | HtObj d \<Rightarrow> dict_ok (setDictType E) d)"

definition members :: "setobj \<Rightarrow> sds set" where
  "members s = (case s of IntsetObj is \<Rightarrow> sdec ` set (elems is) | HtObj d \<Rightarrow> dom (dict_map d))"

lemma elems_int64: "intset_ok is \<Longrightarrow> x \<in> set (elems is) \<Longrightarrow> is_int64 x"
  using elems_fit [of "is" x] intset_okD(1) [of "is"]
  by (auto simp: enc_ok_def fits_def is_int64_def int_ranges)

lemma sdec_inject: "is_int64 a \<Longrightarrow> is_int64 b \<Longrightarrow> sdec a = sdec b \<longleftrightarrow> a = b"
  by (metis option.inject string2ll_sdec)

lemma mem_sdec: "intset_ok is \<Longrightarrow> is_int64 v \<Longrightarrow> sdec v \<in> sdec ` set (elems is) \<longleftrightarrow> v \<in> set (elems is)"
  using elems_int64 sdec_inject by blast

lemma not_mem_sdec: "intset_ok is \<Longrightarrow> string2ll v = None \<Longrightarrow> v \<notin> sdec ` set (elems is)"
  using elems_int64 string2ll_sdec by fastforce

lemma finite_members [simp]: "finite (members s)"
  by (simp add: members_def split: setobj.splits)

lemma setTypeSize_card:
  assumes "set_ok E s" shows "setTypeSize s = card (members s)"
proof (cases s)
  case (IntsetObj "is")
  then have ok: "intset_ok is" using assms by (simp add: set_ok_def)
  have "inj_on sdec (set (elems is))" using elems_int64 [OF ok] sdec_inject by (meson inj_onI)
  then show ?thesis using card_elems [OF ok]
    by (simp add: IntsetObj setTypeSize_def members_def intsetLen_def card_image)
next
  case (HtObj d)
  then show ?thesis using assms dictSize_card by (simp add: set_ok_def setTypeSize_def members_def)
qed

subsection \<open>The loop over all elements\<close>

lemma set_iterate_ht:
  assumes "dict_ok T d" "it_ok d it" "length (it_todo d it) < n"
  shows "set_iterate n (HtObj d) (HtIter it) = Some (map (\<lambda>e. SdsEle (fst e)) (it_todo d it))"
  using assms
proof (induction n arbitrary: it)
  case (Suc n)
  obtain d1 it1 r where nx: "dictNext d it = (d1, it1, r)" using prod_cases3 by blast
  note sp = dictNext_spec(1) [OF Suc.prems(1,2) nx]
  show ?case
  proof (cases "it_todo d it")
    case Nil
    then show ?thesis using sp nx by simp
  next
    case (Cons e es)
    then have s: "r = Some e" "it_todo d it1 = es" "it_ok d it1" using sp by simp_all
    then show ?thesis using Suc.IH [of it1] Suc.prems Cons nx by simp
  qed
qed simp

lemma set_iterate_intset:
  assumes "unat ii \<le> slen is" "slen is - unat ii < n" "slen is < 2 ^ 29"
  shows "set_iterate n (IntsetObj is) (IntIter ii) = Some (map LlEle (drop (unat ii) (elems is)))"
  using assms
proof (induction n arbitrary: ii)
  case (Suc n)
  show ?case
  proof (cases "ii < len is")
    case True
    then have lt: "unat ii < slen is" by (simp add: word_less_nat_alt)
    then have s: "unat (ii + 1) = Suc (unat ii)" using unat_add_1_32 [of ii] Suc.prems(3) by simp
    then have "set_iterate n (IntsetObj is) (IntIter (ii + 1)) = Some (map LlEle (drop (Suc (unat ii)) (elems is)))"
      using Suc.IH [of "ii + 1"] Suc.prems lt by simp
    moreover have "drop (unat ii) (elems is) = intsetGetAt is (unat ii) # drop (Suc (unat ii)) (elems is)"
      using lt Cons_nth_drop_Suc [of "unat ii" "elems is"] by simp
    ultimately show ?thesis using True by (simp add: intsetGet_def)
  next
    case False
    then have "slen is \<le> unat ii" by (simp add: word_less_nat_alt)
    then show ?thesis using False by (simp add: intsetGet_def)
  qed
qed simp

lemma set_elements_intset:
  "intset_ok is \<Longrightarrow> set_elements (IntsetObj is) = Some (map LlEle (elems is))"
  using set_iterate_intset [of 0 "is" "slen is + 1"] intset_okD(3) [of "is"]
  by (simp add: set_elements_def setTypeInitIterator_def setTypeSize_def intsetLen_def)

lemma set_elements_ht:
  "dict_ok T d \<Longrightarrow> set_elements (HtObj d) = Some (map (\<lambda>e. SdsEle (fst e)) (dict_entries d))"
  using set_iterate_ht [of T d dictGetIterator "dictSize d + 1"] it_ok_init(1) [of d] it_todo_init(1) [of T d]
    dictSize_entries [of T d]
  by (simp add: set_elements_def setTypeInitIterator_def setTypeSize_def)

text \<open>A complete iteration yields every member once.\<close>

lemma set_elements_spec:
  assumes "set_ok E s"
  obtains es where "set_elements s = Some es" "ele_sds ` set es = members s" "distinct (map ele_sds es)"
proof (cases s)
  case (IntsetObj "is")
  then have ok: "intset_ok is" using assms by (simp add: set_ok_def)
  have m: "map ele_sds (map LlEle (elems is)) = map sdec (elems is)" by (simp add: sdsll2str_correct)
  have "distinct (elems is)" using intset_okD(4) [OF ok] ssorted_distinct by blast
  moreover have "inj_on sdec (set (elems is))" using elems_int64 [OF ok] sdec_inject by (meson inj_onI)
  ultimately have d: "distinct (map sdec (elems is))" by (simp add: distinct_map)
  show ?thesis
  proof (rule that [of "map LlEle (elems is)"])
    show "set_elements s = Some (map LlEle (elems is))" unfolding IntsetObj by (rule set_elements_intset [OF ok])
    show "ele_sds ` set (map LlEle (elems is)) = members s"
      unfolding list.set_map [symmetric] m by (simp add: IntsetObj members_def)
    show "distinct (map ele_sds (map LlEle (elems is)))" unfolding m by (rule d)
  qed
next
  case (HtObj d)
  then have ok: "dict_ok (setDictType E) d" using assms by (simp add: set_ok_def)
  let ?es = "map (\<lambda>e. SdsEle (fst e)) (dict_entries d)"
  have m: "map ele_sds ?es = map fst (dict_entries d)" by simp
  show ?thesis
  proof (rule that [of ?es])
    show "set_elements s = Some ?es" unfolding HtObj by (rule set_elements_ht [OF ok])
    show "ele_sds ` set ?es = members s"
      unfolding list.set_map [symmetric] m by (simp add: HtObj members_def dict_map_def dom_map_of_conv_image_fst)
    show "distinct (map ele_sds ?es)" unfolding m using ok by (simp add: dict_ok_def)
  qed
qed

subsection \<open>Conversion\<close>

lemma setTypeConvert_loop_ok:
  assumes "dict_ok (setDictType E) d" "distinct (map ele_sds es)" "ele_sds ` set es \<inter> dom (dict_map d) = {}"
    "dictSize d + length es \<le> 2 ^ 60"
  shows "\<exists>d1. setTypeConvert_loop E es d = Some d1 \<and> dict_ok (setDictType E) d1 \<and>
    dom (dict_map d1) = dom (dict_map d) \<union> ele_sds ` set es"
  using assms
proof (induction es arbitrary: d)
  case (Cons e es)
  let ?T = "setDictType E" and ?k = "ele_sds e"
  have n: "dict_map d ?k = None" and sz: "dictSize d < 2 ^ 60" using Cons.prems by auto
  obtain d1 b where a: "dictAdd ?T d ?k () () = (d1, b)" by fastforce
  note ad = dictAdd_ok [OF Cons.prems(1) sz, of ?k "()" "()", unfolded a fst_conv snd_conv]
  have b: b and dm: "dom (dict_map d1) = insert ?k (dom (dict_map d))" using ad n by simp_all
  have "dictSize d1 = Suc (dictSize d)"
    using dictSize_card [OF ad(1)] dictSize_card [OF Cons.prems(1)] n dm by (simp add: card_insert_if domIff)
  then obtain d2 where "setTypeConvert_loop E es d1 = Some d2" "dict_ok ?T d2"
    "dom (dict_map d2) = dom (dict_map d1) \<union> ele_sds ` set es"
    using Cons.IH [OF ad(1)] Cons.prems dm by auto
  then show ?case using a b dm by auto
qed simp

lemma expanded_empty:
  fixes d :: "('k, 'v) dict"
  assumes "d = fst (dictExpand dictCreate n)"
  shows "dict_ok T d" "dict_map d = Map.empty"
proof -
  have r: "rehash_rel T dictCreate d" unfolding assms by (rule dictExpand_ok(1) [OF dict_ok_create])
  then show "dict_ok T d" by (simp add: rehash_rel_def)
  show "dict_map d = Map.empty" using rehash_rel_map(1) [OF dict_ok_create r] dict_map_create by simp
qed

lemma setTypeConvert_ok:
  assumes ok: "intset_ok is"
  shows "\<exists>d. setTypeConvert E (IntsetObj is) = Some (HtObj d) \<and> dict_ok (setDictType E) d \<and>
    dom (dict_map d) = members (IntsetObj is)"
proof -
  let ?T = "setDictType E" and ?s = "IntsetObj is"
  let ?d = "fst (dictExpand dictCreate (unat (intsetLen is))) :: (sds, unit) dict"
  have okd: "dict_ok ?T ?d" and em: "dict_map ?d = Map.empty" by (simp_all add: expanded_empty [OF refl])
  have sok: "set_ok E ?s" using ok by (simp add: set_ok_def)
  obtain es where es: "set_elements ?s = Some es" "ele_sds ` set es = members ?s" "distinct (map ele_sds es)"
    by (rule set_elements_spec [OF sok])
  have "length es = slen is" using es(1) set_elements_intset [OF ok] by auto
  then have "dictSize ?d + length es \<le> 2 ^ 60"
    using dictSize_card [OF okd] em intset_okD(3) [OF ok] by simp
  then show ?thesis using setTypeConvert_loop_ok [OF okd es(3)] em es
    by (auto simp: setTypeConvert_def)
qed

subsection \<open>The operations\<close>

lemma setTypeAdd_ht:
  assumes ok: "dict_ok (setDictType E) d" and sz: "dictSize d < 2 ^ 60"
  shows "\<exists>s. setTypeAdd E (HtObj d) v = Some (s, v \<notin> members (HtObj d)) \<and> set_ok E s \<and>
    members s = insert v (members (HtObj d))"
  using dictAddRaw_ok [OF ok, of v "()"] sz
proof (cases rule: add_outcome_cases)
  case (new d1 l)
  then show ?thesis using dictSetVal_ok [OF new(3,5), of "()"]
    by (auto simp: setTypeAdd_def set_ok_def members_def)
next
  case (old d1 l)
  then show ?thesis using rehash_rel_map(1) [OF ok old(3)]
    by (auto simp: setTypeAdd_def set_ok_def members_def rehash_rel_def insert_absorb domIff)
qed

lemma setTypeAdd_ok:
  assumes ok: "set_ok E s" and cap: "card (members s) < 2 ^ 29 - 1"
  shows "\<exists>s1. setTypeAdd E s v = Some (s1, v \<notin> members s) \<and> set_ok E s1 \<and> members s1 = insert v (members s)"
proof (cases s)
  case (HtObj d)
  then have "dict_ok (setDictType E) d" "dictSize d < 2 ^ 60"
    using ok cap setTypeSize_card [OF ok] by (simp_all add: set_ok_def setTypeSize_def)
  then show ?thesis unfolding HtObj by (rule setTypeAdd_ht)
next
  case (IntsetObj "is")
  then have iok: "intset_ok is" using ok by (simp add: set_ok_def)
  have room: "intset_room is"
    using cap setTypeSize_card [OF ok] by (simp add: IntsetObj setTypeSize_def intset_room_def intsetLen_def)
  show ?thesis
  proof (cases "string2ll v")
    case None
    obtain d where d: "setTypeConvert E (IntsetObj is) = Some (HtObj d)" "dict_ok (setDictType E) d"
      "dom (dict_map d) = members s" using setTypeConvert_ok [OF iok] IntsetObj by blast
    have n: "v \<notin> members s" using not_mem_sdec [OF iok None] by (simp add: IntsetObj members_def)
    then have nm: "dict_map d v = None" using d(3) by auto
    have sz: "dictSize d < 2 ^ 60" using dictSize_card [OF d(2)] d(3) cap by simp
    obtain d1 b where a: "dictAdd (setDictType E) d v () () = (d1, b)" by fastforce
    note ad = dictAdd_ok [OF d(2) sz, of v "()" "()", unfolded a fst_conv snd_conv]
    have "setTypeAdd E s v = Some (HtObj d1, True)"
      using d(1) a ad(2) nm by (simp add: IntsetObj setTypeAdd_def isSdsRepresentableAsLongLong_def None)
    moreover have "members (HtObj d1) = insert v (members s)" using ad(3) nm d(3) by (simp add: members_def)
    ultimately show ?thesis using n ad(1) by (auto simp: set_ok_def)
  next
    case (Some ll)
    then have ll: "is_int64 ll" "v = sdec ll" by (simp_all add: string2ll_iff)
    obtain is1 b where a: "intsetAdd is ll = (is1, b)" by fastforce
    note ad = intsetAdd_correct [OF iok ll(1) room, unfolded a fst_conv snd_conv]
    have b: "b \<longleftrightarrow> v \<notin> members s"
      using ad mem_sdec [OF iok ll(1)] by (simp add: IntsetObj members_def ll(2))
    have m: "members (IntsetObj is1) = insert v (members s)"
      using ad by (simp add: IntsetObj members_def ll(2))
    obtain d where d: "setTypeConvert E (IntsetObj is1) = Some (HtObj d)" "dict_ok (setDictType E) d"
      "dom (dict_map d) = members (IntsetObj is1)" using setTypeConvert_ok [of is1] ad by blast
    show ?thesis
    proof (cases "b \<and> unat (intsetLen is1) > min (set_max_intset_entries E) (2 ^ 30)")
      case True
      then have "setTypeAdd E s v = Some (HtObj d, True)"
        using a d(1) by (simp add: IntsetObj setTypeAdd_def isSdsRepresentableAsLongLong_def Some)
      then show ?thesis using b True d(2,3) m by (auto simp: set_ok_def members_def [of "HtObj d"])
    next
      case False
      then have "setTypeAdd E s v = Some (IntsetObj is1, b)"
        using a by (cases b) (simp_all add: IntsetObj setTypeAdd_def isSdsRepresentableAsLongLong_def Some Let_def)
      then show ?thesis using b ad m by (auto simp: set_ok_def)
    qed
  qed
qed

lemma setTypeRemove_ok:
  assumes ok: "set_ok E s"
  shows "set_ok E (fst (setTypeRemove E s v)) \<and> members (fst (setTypeRemove E s v)) = members s - {v} \<and>
    snd (setTypeRemove E s v) = (v \<in> members s)"
proof (cases s)
  case (HtObj d)
  let ?T = "setDictType E"
  have dok: "dict_ok ?T d" using ok HtObj by (simp add: set_ok_def)
  obtain d1 b where a: "dictDelete ?T d v = (d1, b)" by fastforce
  note dl = dictDelete_ok [OF dok, of v, unfolded a fst_conv snd_conv]
  have r: "rehash_rel ?T d1 (if htNeedsResize d1 then fst (dictResize ?T d1) else d1)"
    using dict_maintain_rel [OF dl(1), of Resize] rehash_rel_refl [OF dl(1)] by simp
  have "dict_ok ?T (if htNeedsResize d1 then fst (dictResize ?T d1) else d1)" using r by (simp add: rehash_rel_def)
  moreover have "dict_map (if htNeedsResize d1 then fst (dictResize ?T d1) else d1) = dict_map d1"
    by (rule rehash_rel_map(1) [OF dl(1) r])
  ultimately show ?thesis using dl a
    by (cases b) (auto simp: HtObj setTypeRemove_def set_ok_def members_def domIff)
next
  case (IntsetObj "is")
  then have iok: "intset_ok is" using ok by (simp add: set_ok_def)
  show ?thesis
  proof (cases "string2ll v")
    case None
    then show ?thesis using ok not_mem_sdec [OF iok None]
      by (auto simp: IntsetObj setTypeRemove_def members_def isSdsRepresentableAsLongLong_def)
  next
    case (Some ll)
    then have ll: "is_int64 ll" "v = sdec ll" by (simp_all add: string2ll_iff)
    obtain is1 b where a: "intsetRemove is ll = (is1, b)" by fastforce
    note rm = intsetRemove_correct [OF iok ll(1), unfolded a fst_conv snd_conv]
    have "sdec ` (set (elems is) - {ll}) = sdec ` set (elems is) - {v}"
      using elems_int64 [OF iok] ll sdec_inject by blast
    then show ?thesis using rm a mem_sdec [OF iok ll(1)] Some
      by (simp add: IntsetObj setTypeRemove_def members_def set_ok_def isSdsRepresentableAsLongLong_def ll(2))
  qed
qed

lemma setTypeIsMember_ok:
  assumes ok: "set_ok E s"
  shows "set_ok E (fst (setTypeIsMember E s v)) \<and> members (fst (setTypeIsMember E s v)) = members s \<and>
    snd (setTypeIsMember E s v) = (v \<in> members s)"
proof (cases s)
  case (HtObj d)
  let ?T = "setDictType E"
  have dok: "dict_ok ?T d" using ok HtObj by (simp add: set_ok_def)
  obtain d1 r where a: "dictFind ?T d v = (d1, r)" by fastforce
  note f = dictFind_ok(1,2) [OF dok, of v, unfolded a fst_conv snd_conv]
  have "dict_ok ?T d1" using f(1) by (simp add: rehash_rel_def)
  moreover have "r = None \<longleftrightarrow> dict_map d v = None" using f(2) by (metis option.map_disc_iff)
  ultimately show ?thesis using rehash_rel_map(1) [OF dok f(1)] a
    by (auto simp: HtObj setTypeIsMember_def set_ok_def members_def domIff)
next
  case (IntsetObj "is")
  then have iok: "intset_ok is" using ok by (simp add: set_ok_def)
  show ?thesis
  proof (cases "string2ll v")
    case None
    then show ?thesis using ok not_mem_sdec [OF iok None]
      by (simp add: IntsetObj setTypeIsMember_def members_def isSdsRepresentableAsLongLong_def)
  next
    case (Some ll)
    then have ll: "is_int64 ll" "v = sdec ll" by (simp_all add: string2ll_iff)
    show ?thesis using ok intsetFind_correct [OF iok ll(1)] mem_sdec [OF iok ll(1)] Some
      by (simp add: IntsetObj setTypeIsMember_def members_def isSdsRepresentableAsLongLong_def ll(2))
  qed
qed

lemma createIntsetObject_ok: "set_ok E createIntsetObject" "members createIntsetObject = {}"
  by (simp_all add: set_ok_def members_def createIntsetObject_def intset_ok_new)

lemma createSetObject_ok: "set_ok E createSetObject" "members createSetObject = {}"
  by (simp_all add: set_ok_def members_def createSetObject_def dict_ok_create dict_map_create)

lemma setTypeCreate_ok: "set_ok E (setTypeCreate v)" "members (setTypeCreate v) = {}"
  by (simp_all add: setTypeCreate_def createIntsetObject_ok createSetObject_ok)

interpretation sobj: set_impl createIntsetObject "\<lambda>s v. the (setTypeAdd E s v)" "setTypeRemove E" "setTypeIsMember E"
    setTypeSize "set_ok E" members "\<lambda>_. True" "2 ^ 29 - 1"
  for E :: set_env
proof (unfold_locales, goal_cases)
  case (4 s x)
  obtain s1 where "setTypeAdd E s x = Some (s1, x \<notin> members s)" "set_ok E s1" "members s1 = insert x (members s)"
    using setTypeAdd_ok [OF 4(1,3)] by blast
  then show ?case by simp
qed (simp_all add: createIntsetObject_ok setTypeRemove_ok setTypeIsMember_ok setTypeSize_card)

lemma setTypeDup_loop_ok:
  assumes "set_ok E s" "card (members s) + length es < 2 ^ 29"
  shows "\<exists>s1. setTypeDup_loop E es s = Some s1 \<and> set_ok E s1 \<and> members s1 = members s \<union> ele_sds ` set es"
  using assms
proof (induction es arbitrary: s)
  case (Cons e es)
  obtain s1 where s1: "setTypeAdd E s (ele_sds e) = Some (s1, ele_sds e \<notin> members s)" "set_ok E s1"
    "members s1 = insert (ele_sds e) (members s)"
    using setTypeAdd_ok [OF Cons.prems(1), of "ele_sds e"] Cons.prems(2) by auto
  have "card (members s1) \<le> Suc (card (members s))" unfolding s1(3) by (simp add: card_insert_if)
  then obtain s2 where "setTypeDup_loop E es s1 = Some s2" "set_ok E s2" "members s2 = members s1 \<union> ele_sds ` set es"
    using Cons.IH [OF s1(2)] Cons.prems(2) by auto
  then show ?case using s1 by auto
qed simp

lemma setTypeDup_loop_encoding: "setTypeDup_loop E es (HtObj d) = Some s \<Longrightarrow> \<exists>d1. s = HtObj d1"
  by (induction es arbitrary: d) (auto simp: setTypeAdd_def Let_def split: option.splits prod.splits if_splits)

text \<open>A sequence of calls on one object, which ends at the first failed assertion.\<close>

fun set_calls :: "set_env \<Rightarrow> setobj \<Rightarrow> sds set_op list \<Rightarrow> (setobj \<times> bool list) option" where
  "set_calls E s [] = Some (s, [])"
| "set_calls E s (c # cs) =
     (case (case c of
              Add v \<Rightarrow> setTypeAdd E s v
            | Remove v \<Rightarrow> Some (setTypeRemove E s v)
            | Member v \<Rightarrow> Some (setTypeIsMember E s v)) of
        None \<Rightarrow> None
      | Some (s1, b) \<Rightarrow> map_option (apsnd ((#) b)) (set_calls E s1 cs))"

abbreviation set_machine :: "set_env \<Rightarrow> setobj \<Rightarrow> sds set_op \<Rightarrow> setobj \<times> bool" where
  "set_machine E \<equiv> set_exec (\<lambda>s v. the (setTypeAdd E s v)) (setTypeRemove E) (setTypeIsMember E)"

lemma set_calls_machine:
  assumes "set_ok E s" "card (members s) + length cs < 2 ^ 29"
  shows "set_calls E s cs = Some (run_ops (set_machine E) s cs)"
  using assms
proof (induction cs arbitrary: s)
  case (Cons c cs)
  have small: "card (members s) < 2 ^ 29 - 1" using Cons.prems(2) by simp
  obtain s1 b where s1: "set_machine E s c = (s1, b)" by fastforce
  have "\<exists>r. setTypeAdd E s v = Some r" for v using setTypeAdd_ok [OF Cons.prems(1) small] by blast
  then have step: "(case c of Add v \<Rightarrow> setTypeAdd E s v | Remove v \<Rightarrow> Some (setTypeRemove E s v)
      | Member v \<Rightarrow> Some (setTypeIsMember E s v)) = Some (s1, b)"
    using s1 by (cases c) (simp_all, metis option.sel)
  have "set_ok E s1" "members s1 = fst (set_spec (members s) c)"
    using sobj.exec_refines [OF Cons.prems(1) _ small, of c] by (auto simp: s1 prod_eq_iff)
  moreover have "card (members s1) \<le> Suc (card (members s))" unfolding calculation(2) by (rule sobj.card_spec) simp
  ultimately have "set_calls E s1 cs = Some (run_ops (set_machine E) s1 cs)"
    using Cons.IH [of s1] Cons.prems(2) by simp
  then show ?case using s1 by (simp add: step split: prod.splits)
qed simp

section \<open>Properties\<close>

text \<open>A configuration for the examples.\<close>

definition ex_env :: set_env where
  "ex_env = \<lparr>setDictType = \<lparr>hashFunction = \<lambda>s. of_nat (length s), expandAllowed = \<lambda>_ _ _. True, dict_can_resize = True\<rparr>,
     set_max_intset_entries = 512\<rparr>"

text \<open>
  Claim C6. Whatever sequence of additions, removals and membership tests is applied to a new set
  object, no assertion of the code fails, every call answers as the mathematical set does, and the
  object ends with exactly the elements of that set, across every change of the integer width of the
  integer set, every conversion to a hash table and every resizing of that table.
\<close>

theorem set_object_simulates:
  assumes "length cs < 2 ^ 29"
  shows "\<exists>s. set_calls E (setTypeCreate v) cs = Some (s, snd (run_ops set_spec {} cs)) \<and> set_ok E s \<and>
    members s = fst (run_ops set_spec {} cs) \<and> setTypeSize s = card (fst (run_ops set_spec {} cs))"
proof -
  obtain s rs where s: "run_ops (set_machine E) (setTypeCreate v) cs = (s, rs)" by fastforce
  have "set_calls E (setTypeCreate v) cs = Some (s, rs)"
    using set_calls_machine [OF setTypeCreate_ok(1), of v cs E] assms s by (simp add: setTypeCreate_ok)
  moreover have r: "set_ok E s" "run_ops set_spec {} cs = (members s, rs)"
    using sobj.runs.run_refines [OF setTypeCreate_ok(1), of cs v E] assms by (simp_all add: s setTypeCreate_ok)
  ultimately show ?thesis using setTypeSize_card [OF r(1)] by simp
qed

theorem set_object_simulates_witness:
  "\<exists>s. set_calls ex_env (setTypeCreate []) [Add [49], Add [97], Remove [49], Member [97]] =
     Some (s, [True, True, True, True]) \<and> members s = {[97]}"
  using set_object_simulates [of "[Add [49], Add [97], Remove [49], Member [97]]" ex_env "[]"] by auto

text \<open>
  \<^verbatim>\<open>setTypeDup\<close> gives an equal, well-formed set object of the same encoding.
\<close>

lemma setTypeDup_correct:
  assumes "set_ok E s" "card (members s) < 2 ^ 29"
  shows "\<exists>s1. setTypeDup E s = Some s1 \<and> set_ok E s1 \<and> members s1 = members s \<and>
    ((\<exists>is. s = IntsetObj is) \<longleftrightarrow> (\<exists>is. s1 = IntsetObj is))"
proof (cases s)
  case (HtObj d)
  let ?d = "fst (dictExpand dictCreate (dictSize d)) :: (sds, unit) dict"
  have d: "set_ok E (HtObj ?d)" "members (HtObj ?d) = {}" by (simp_all add: set_ok_def members_def expanded_empty [OF refl])
  obtain es where es: "set_elements s = Some es" "ele_sds ` set es = members s" "distinct (map ele_sds es)"
    by (rule set_elements_spec [OF assms(1)])
  have "card (members (HtObj ?d)) + length es < 2 ^ 29"
    using assms(2) distinct_card [OF es(3)] es(2) by (simp add: d(2))
  from setTypeDup_loop_ok [OF d(1) this] obtain s1 where
    s1: "setTypeDup_loop E es (HtObj ?d) = Some s1" "set_ok E s1" "members s1 = members s"
    unfolding d(2) es(2) Un_empty_left by blast
  then show ?thesis using setTypeDup_loop_encoding [OF s1(1)] es(1) HtObj by (auto simp: setTypeDup_def)
qed (use assms(1) in \<open>simp add: setTypeDup_def\<close>)

end
