(* ===== verification/Set_Commands.thy ===== *)
theory Set_Commands
  imports Set_Object
begin

text \<open>
  The set commands of \<^verbatim>\<open>t_set.c\<close>, on a keyspace of objects.

  A key holds a set object or an object of another type. The state also has the counter
  \<^verbatim>\<open>server.dirty\<close> and the log of \<^verbatim>\<open>signalModifiedKey\<close> and \<^verbatim>\<open>notifyKeyspaceEvent\<close> calls. A handler gets the
  arguments of the command and returns the new state and the reply; \<open>None\<close> is a failed assertion.
  Objects are identified by their key: a set object belongs to one key. Expiry of keys, access
  statistics and the freeing of objects are not part of the state. \<^verbatim>\<open>qsort\<close> is a stable sort.
\<close>

section \<open>Model of the commands\<close>

datatype 'x robj = SetVal setobj | OtherVal 'x

datatype event = Signal sds | Notify string sds

record 'x server =
  keyspace :: "sds \<rightharpoonup> 'x robj"
  dirty :: int
  events :: "event list"

datatype reply = IntReply int | WrongType | IntsReply "int list" | SetReply nat "sds list"

definition log_events :: "event list \<Rightarrow> 'x server \<Rightarrow> 'x server" where
  "log_events evs S = S\<lparr>events := events S @ evs\<rparr>"

definition set_key :: "sds \<Rightarrow> setobj \<Rightarrow> 'x server \<Rightarrow> 'x server" where
  "set_key k s S = S\<lparr>keyspace := (keyspace S)(k \<mapsto> SetVal s)\<rparr>"

definition del_key :: "sds \<Rightarrow> 'x server \<Rightarrow> 'x server" where
  "del_key k S = S\<lparr>keyspace := (keyspace S)(k := None)\<rparr>"

definition add_dirty :: "int \<Rightarrow> 'x server \<Rightarrow> 'x server" where
  "add_dirty n S = S\<lparr>dirty := dirty S + n\<rparr>"

subsection \<open>SADD, SREM, SMOVE, SISMEMBER, SMISMEMBER, SCARD\<close>

fun sadd_loop :: "set_env \<Rightarrow> setobj \<Rightarrow> sds list \<Rightarrow> nat \<Rightarrow> (setobj \<times> nat) option" where
  "sadd_loop E s [] added = Some (s, added)"
| "sadd_loop E s (v # vs) added =
     (case setTypeAdd E s v of
        None \<Rightarrow> None
      | Some (s1, b) \<Rightarrow> sadd_loop E s1 vs (if b then added + 1 else added))"

definition sadd_into :: "set_env \<Rightarrow> 'x server \<Rightarrow> sds \<Rightarrow> setobj \<Rightarrow> sds list \<Rightarrow> ('x server \<times> reply) option" where
  "sadd_into E S key s vals =
     (case sadd_loop E s vals 0 of
        None \<Rightarrow> None
      | Some (s1, added) \<Rightarrow>
          (let S1 = set_key key s1 S;
               S2 = (if added > 0 then log_events [Signal key, Notify ''sadd'' key] S1 else S1)
           in Some (add_dirty (int added) S2, IntReply (int added))))"

definition saddCommand :: "set_env \<Rightarrow> 'x server \<Rightarrow> sds \<Rightarrow> sds list \<Rightarrow> ('x server \<times> reply) option" where
  "saddCommand E S key vals =
     (case keyspace S key of
        Some (OtherVal x) \<Rightarrow> Some (S, WrongType)
      | Some (SetVal s) \<Rightarrow> sadd_into E S key s vals
      | None \<Rightarrow> sadd_into E S key (setTypeCreate (hd vals)) vals)"

fun srem_loop :: "set_env \<Rightarrow> setobj \<Rightarrow> sds list \<Rightarrow> nat \<Rightarrow> setobj \<times> nat \<times> bool" where
  "srem_loop E s [] deleted = (s, deleted, False)"
| "srem_loop E s (v # vs) deleted =
     (case setTypeRemove E s v of
        (s1, True) \<Rightarrow>
          if setTypeSize s1 = 0 then (s1, deleted + 1, True) else srem_loop E s1 vs (deleted + 1)
      | (s1, False) \<Rightarrow> srem_loop E s1 vs deleted)"

definition sremCommand :: "set_env \<Rightarrow> 'x server \<Rightarrow> sds \<Rightarrow> sds list \<Rightarrow> 'x server \<times> reply" where
  "sremCommand E S key vals =
     (case keyspace S key of
        None \<Rightarrow> (S, IntReply 0)
      | Some (OtherVal x) \<Rightarrow> (S, WrongType)
      | Some (SetVal s) \<Rightarrow>
          (case srem_loop E s vals 0 of
             (s1, deleted, keyremoved) \<Rightarrow>
               (let S1 = (if keyremoved then del_key key S else set_key key s1 S);
                    S2 = (if deleted > 0
                          then add_dirty (int deleted)
                            (log_events ([Signal key, Notify ''srem'' key] @
                               (if keyremoved then [Notify ''del'' key] else [])) S1)
                          else S1)
                in (S2, IntReply (int deleted)))))"

definition smoveCommand :: "set_env \<Rightarrow> 'x server \<Rightarrow> sds \<Rightarrow> sds \<Rightarrow> sds \<Rightarrow> ('x server \<times> reply) option" where
  "smoveCommand E S src dst ele =
     (case keyspace S src of
        None \<Rightarrow> Some (S, IntReply 0)
      | Some (OtherVal x) \<Rightarrow> Some (S, WrongType)
      | Some (SetVal srcset) \<Rightarrow>
          (case keyspace S dst of
             Some (OtherVal x) \<Rightarrow> Some (S, WrongType)
           | dstobj \<Rightarrow>
               (if src = dst then
                  (case setTypeIsMember E srcset ele of
                     (s1, b) \<Rightarrow> Some (set_key src s1 S, IntReply (if b then 1 else 0)))
                else
                  (case setTypeRemove E srcset ele of
                     (s1, False) \<Rightarrow> Some (set_key src s1 S, IntReply 0)
                   | (s1, True) \<Rightarrow>
                       (let S1 = log_events [Notify ''srem'' src] (set_key src s1 S);
                            S2 = (if setTypeSize s1 = 0 then log_events [Notify ''del'' src] (del_key src S1) else S1);
                            dstset = (case dstobj of Some (SetVal d) \<Rightarrow> d | _ \<Rightarrow> setTypeCreate ele);
                            S3 = add_dirty 1 (log_events [Signal src] S2)
                        in case setTypeAdd E dstset ele of
                             None \<Rightarrow> None
                           | Some (d1, b) \<Rightarrow>
                               (let S4 = set_key dst d1 S3;
                                    S5 = (if b then log_events [Signal dst, Notify ''sadd'' dst] (add_dirty 1 S4) else S4)
                                in Some (S5, IntReply 1)))))))"

definition sismemberCommand :: "set_env \<Rightarrow> 'x server \<Rightarrow> sds \<Rightarrow> sds \<Rightarrow> 'x server \<times> reply" where
  "sismemberCommand E S key v =
     (case keyspace S key of
        None \<Rightarrow> (S, IntReply 0)
      | Some (OtherVal x) \<Rightarrow> (S, WrongType)
      | Some (SetVal s) \<Rightarrow>
          (case setTypeIsMember E s v of (s1, b) \<Rightarrow> (set_key key s1 S, IntReply (if b then 1 else 0))))"

fun smismember_loop :: "set_env \<Rightarrow> setobj \<Rightarrow> sds list \<Rightarrow> setobj \<times> int list" where
  "smismember_loop E s [] = (s, [])"
| "smismember_loop E s (v # vs) =
     (case setTypeIsMember E s v of
        (s1, b) \<Rightarrow> (case smismember_loop E s1 vs of (s2, rs) \<Rightarrow> (s2, (if b then 1 else 0) # rs)))"

definition smismemberCommand :: "set_env \<Rightarrow> 'x server \<Rightarrow> sds \<Rightarrow> sds list \<Rightarrow> 'x server \<times> reply" where
  "smismemberCommand E S key vals =
     (case keyspace S key of
        None \<Rightarrow> (S, IntsReply (map (\<lambda>_. 0) vals))
      | Some (OtherVal x) \<Rightarrow> (S, WrongType)
      | Some (SetVal s) \<Rightarrow>
          (case smismember_loop E s vals of (s1, rs) \<Rightarrow> (set_key key s1 S, IntsReply rs)))"

definition scardCommand :: "'x server \<Rightarrow> sds \<Rightarrow> 'x server \<times> reply" where
  "scardCommand S key =
     (case keyspace S key of
        None \<Rightarrow> (S, IntReply 0)
      | Some (OtherVal x) \<Rightarrow> (S, WrongType)
      | Some (SetVal s) \<Rightarrow> (S, IntReply (int (setTypeSize s))))"

subsection \<open>SINTER, SINTERSTORE, SINTERCARD\<close>

text \<open>The first loop: \<open>None\<close> is the type error, \<^verbatim>\<open>NULL\<close> for a missing key is \<open>None\<close> in the list.\<close>

fun lookup_sets :: "'x server \<Rightarrow> sds list \<Rightarrow> sds option list option" where
  "lookup_sets S [] = Some []"
| "lookup_sets S (k # ks) =
     (case keyspace S k of
        None \<Rightarrow> map_option ((#) None) (lookup_sets S ks)
      | Some (OtherVal x) \<Rightarrow> None
      | Some (SetVal s) \<Rightarrow> map_option ((#) (Some k)) (lookup_sets S ks))"

definition set_at :: "'x server \<Rightarrow> sds \<Rightarrow> setobj" where
  "set_at S k = (case keyspace S k of Some (SetVal s) \<Rightarrow> s | _ \<Rightarrow> createIntsetObject)"

definition key_size :: "'x server \<Rightarrow> sds \<Rightarrow> nat" where
  "key_size S k = setTypeSize (set_at S k)"

text \<open>Testing one element of the first set against the other sets.\<close>

fun sinter_test :: "set_env \<Rightarrow> 'x server \<Rightarrow> sds \<Rightarrow> setele \<Rightarrow> sds list \<Rightarrow> 'x server \<times> bool" where
  "sinter_test E S k0 e [] = (S, True)"
| "sinter_test E S k0 e (k # ks) =
     (if k = k0 then sinter_test E S k0 e ks
      else
        (case (e, set_at S k) of
           (LlEle v, IntsetObj is) \<Rightarrow> if intsetFind is v then sinter_test E S k0 e ks else (S, False)
         | _ \<Rightarrow>
             (case setTypeIsMember E (set_at S k) (ele_sds e) of
                (s1, True) \<Rightarrow> sinter_test E (set_key k s1 S) k0 e ks
              | (s1, False) \<Rightarrow> (set_key k s1 S, False))))"

datatype sinter_mode = Members | Store sds | Card nat

text \<open>The loop over the first set, with the set to store, the elements sent and the cardinality.\<close>

fun sinter_loop :: "set_env \<Rightarrow> sinter_mode \<Rightarrow> sds \<Rightarrow> sds list \<Rightarrow> setele list \<Rightarrow>
    'x server \<times> setobj \<times> sds list \<times> nat \<Rightarrow> ('x server \<times> setobj \<times> sds list \<times> nat) option" where
  "sinter_loop E mode k0 ks [] st = Some st"
| "sinter_loop E mode k0 ks (e # es) (S, dst, out, crd) =
     (case sinter_test E S k0 e ks of
        (S1, False) \<Rightarrow> sinter_loop E mode k0 ks es (S1, dst, out, crd)
      | (S1, True) \<Rightarrow>
          (case mode of
             Card limit \<Rightarrow>
               (if limit \<noteq> 0 \<and> crd + 1 \<ge> limit then Some (S1, dst, out, crd + 1)
                else sinter_loop E mode k0 ks es (S1, dst, out, crd + 1))
           | Members \<Rightarrow> sinter_loop E mode k0 ks es (S1, dst, out @ [ele_sds e], crd + 1)
           | Store dk \<Rightarrow>
               (case setTypeAdd E dst (ele_sds e) of
                  None \<Rightarrow> None
                | Some (dst1, b) \<Rightarrow> sinter_loop E mode k0 ks es (S1, dst1, out, crd))))"

text \<open>Storing a result set, or deleting the destination when it is empty.\<close>

definition store_result :: "'x server \<Rightarrow> sds \<Rightarrow> setobj \<Rightarrow> string \<Rightarrow> 'x server \<times> reply" where
  "store_result S dk dst name =
     (if setTypeSize dst > 0 then
        (add_dirty 1 (log_events [Signal dk, Notify name dk] (set_key dk dst S)), IntReply (int (setTypeSize dst)))
      else if keyspace S dk \<noteq> None then
        (log_events [Signal dk, Notify ''del'' dk] (add_dirty 1 (del_key dk S)), IntReply 0)
      else (S, IntReply 0))"

definition sinterGenericCommand :: "set_env \<Rightarrow> 'x server \<Rightarrow> sds list \<Rightarrow> sinter_mode \<Rightarrow> ('x server \<times> reply) option" where
  "sinterGenericCommand E S keys mode =
     (case lookup_sets S keys of
        None \<Rightarrow> Some (S, WrongType)
      | Some sets \<Rightarrow>
          (if None \<in> set sets then
             (case mode of
                Store dk \<Rightarrow>
                  (if keyspace S dk \<noteq> None
                   then Some (add_dirty 1 (log_events [Signal dk, Notify ''del'' dk] (del_key dk S)), IntReply 0)
                   else Some (S, IntReply 0))
              | Card limit \<Rightarrow> Some (S, IntReply 0)
              | Members \<Rightarrow> Some (S, SetReply 0 []))
           else
             (let ks = sort_key (key_size S) (map the sets); k0 = hd ks in
              case set_elements (set_at S k0) of
                None \<Rightarrow> None
              | Some es \<Rightarrow>
                  (case sinter_loop E mode k0 (tl ks) es (S, createIntsetObject, [], 0) of
                     None \<Rightarrow> None
                   | Some (S1, dst, out, crd) \<Rightarrow>
                       (case mode of
                          Card limit \<Rightarrow> Some (S1, IntReply (int crd))
                        | Store dk \<Rightarrow> Some (store_result S1 dk dst ''sinterstore'')
                        | Members \<Rightarrow> Some (S1, SetReply crd out))))))"

subsection \<open>SUNION, SDIFF and their STORE forms\<close>

datatype setop = SET_OP_UNION | SET_OP_DIFF

fun add_elements :: "set_env \<Rightarrow> setele list \<Rightarrow> setobj \<times> nat \<Rightarrow> (setobj \<times> nat) option" where
  "add_elements E [] st = Some st"
| "add_elements E (e # es) (dst, crd) =
     (case setTypeAdd E dst (ele_sds e) of
        None \<Rightarrow> None
      | Some (dst1, b) \<Rightarrow> add_elements E es (dst1, if b then crd + 1 else crd))"

fun remove_elements :: "set_env \<Rightarrow> setele list \<Rightarrow> setobj \<times> nat \<Rightarrow> setobj \<times> nat" where
  "remove_elements E [] st = st"
| "remove_elements E (e # es) (dst, crd) =
     (case setTypeRemove E dst (ele_sds e) of
        (dst1, b) \<Rightarrow> remove_elements E es (dst1, if b then crd - 1 else crd))"

text \<open>The estimate of the work of the two algorithms, the first one with an advantage of two.\<close>

definition diff_algo :: "'x server \<Rightarrow> sds option list \<Rightarrow> nat" where
  "diff_algo S sets =
     (case sets of
        Some k0 # _ \<Rightarrow>
          (let present = filter (\<lambda>s. s \<noteq> None) sets;
               one = length present * key_size S k0;
               two = sum_list (map (\<lambda>s. key_size S (the s)) present)
           in if one div 2 \<le> two then 1 else 2)
      | _ \<Rightarrow> 1)"

text \<open>The order for algorithm 1: by decreasing size, missing keys counting as empty.\<close>

definition rev_cardinality :: "'x server \<Rightarrow> sds option \<Rightarrow> int" where
  "rev_cardinality S s = - int (case s of None \<Rightarrow> 0 | Some k \<Rightarrow> key_size S k)"

fun sunion_loop :: "set_env \<Rightarrow> 'x server \<Rightarrow> sds option list \<Rightarrow> setobj \<times> nat \<Rightarrow> (setobj \<times> nat) option" where
  "sunion_loop E S [] st = Some st"
| "sunion_loop E S (None # sets) st = sunion_loop E S sets st"
| "sunion_loop E S (Some k # sets) st =
     (case set_elements (set_at S k) of
        None \<Rightarrow> None
      | Some es \<Rightarrow> (case add_elements E es st of None \<Rightarrow> None | Some st1 \<Rightarrow> sunion_loop E S sets st1))"

fun sdiff_test :: "set_env \<Rightarrow> 'x server \<Rightarrow> sds \<Rightarrow> sds \<Rightarrow> sds option list \<Rightarrow> 'x server \<times> bool" where
  "sdiff_test E S k0 x [] = (S, True)"
| "sdiff_test E S k0 x (None # sets) = sdiff_test E S k0 x sets"
| "sdiff_test E S k0 x (Some k # sets) =
     (if k = k0 then (S, False)
      else
        (case setTypeIsMember E (set_at S k) x of
           (s1, True) \<Rightarrow> (set_key k s1 S, False)
         | (s1, False) \<Rightarrow> sdiff_test E (set_key k s1 S) k0 x sets))"

fun sdiff1_loop :: "set_env \<Rightarrow> sds \<Rightarrow> sds option list \<Rightarrow> setele list \<Rightarrow> 'x server \<times> setobj \<times> nat \<Rightarrow>
    ('x server \<times> setobj \<times> nat) option" where
  "sdiff1_loop E k0 sets [] st = Some st"
| "sdiff1_loop E k0 sets (e # es) (S, dst, crd) =
     (case sdiff_test E S k0 (ele_sds e) sets of
        (S1, False) \<Rightarrow> sdiff1_loop E k0 sets es (S1, dst, crd)
      | (S1, True) \<Rightarrow>
          (case setTypeAdd E dst (ele_sds e) of
             None \<Rightarrow> None
           | Some (dst1, b) \<Rightarrow> sdiff1_loop E k0 sets es (S1, dst1, crd + 1)))"

text \<open>Algorithm 2 after the first set: the elements of every other set are removed, until none is left.\<close>

fun sdiff2_loop :: "set_env \<Rightarrow> 'x server \<Rightarrow> sds option list \<Rightarrow> setobj \<times> nat \<Rightarrow> (setobj \<times> nat) option" where
  "sdiff2_loop E S [] st = Some st"
| "sdiff2_loop E S (None # sets) st = sdiff2_loop E S sets st"
| "sdiff2_loop E S (Some k # sets) st =
     (case set_elements (set_at S k) of
        None \<Rightarrow> None
      | Some es \<Rightarrow>
          (let st1 = remove_elements E es st in if snd st1 = 0 then Some st1 else sdiff2_loop E S sets st1))"

definition sdiff_compute :: "set_env \<Rightarrow> 'x server \<Rightarrow> sds option list \<Rightarrow> ('x server \<times> setobj \<times> nat) option" where
  "sdiff_compute E S sets =
     (case sets of
        Some k0 # rest \<Rightarrow>
          (case set_elements (set_at S k0) of
             None \<Rightarrow> None
           | Some es \<Rightarrow>
               (if diff_algo S sets = 1
                then sdiff1_loop E k0 (sort_key (rev_cardinality S) rest) es (S, createIntsetObject, 0)
                else
                  (case add_elements E es (createIntsetObject, 0) of
                     None \<Rightarrow> None
                   | Some st \<Rightarrow>
                       (if snd st = 0 then Some (S, st)
                        else map_option (Pair S) (sdiff2_loop E S rest st)))))
      | _ \<Rightarrow> Some (S, createIntsetObject, 0))"

definition sunionDiffGenericCommand ::
    "set_env \<Rightarrow> 'x server \<Rightarrow> sds list \<Rightarrow> sds option \<Rightarrow> setop \<Rightarrow> ('x server \<times> reply) option" where
  "sunionDiffGenericCommand E S keys dstkey op =
     (case lookup_sets S keys of
        None \<Rightarrow> Some (S, WrongType)
      | Some sets \<Rightarrow>
          (case (case op of
                   SET_OP_UNION \<Rightarrow> map_option (Pair S) (sunion_loop E S sets (createIntsetObject, 0))
                 | SET_OP_DIFF \<Rightarrow> sdiff_compute E S sets) of
             None \<Rightarrow> None
           | Some (S1, dst, crd) \<Rightarrow>
               (case dstkey of
                  None \<Rightarrow> map_option (\<lambda>es. (S1, SetReply crd (map ele_sds es))) (set_elements dst)
                | Some dk \<Rightarrow>
                    Some (store_result S1 dk dst (if op = SET_OP_UNION then ''sunionstore'' else ''sdiffstore'')))))"

text \<open>The commands themselves.\<close>

definition sinterCommand :: "set_env \<Rightarrow> 'x server \<Rightarrow> sds list \<Rightarrow> ('x server \<times> reply) option" where
  "sinterCommand E S keys = sinterGenericCommand E S keys Members"

definition sinterstoreCommand :: "set_env \<Rightarrow> 'x server \<Rightarrow> sds \<Rightarrow> sds list \<Rightarrow> ('x server \<times> reply) option" where
  "sinterstoreCommand E S dst keys = sinterGenericCommand E S keys (Store dst)"

definition sunionCommand :: "set_env \<Rightarrow> 'x server \<Rightarrow> sds list \<Rightarrow> ('x server \<times> reply) option" where
  "sunionCommand E S keys = sunionDiffGenericCommand E S keys None SET_OP_UNION"

definition sunionstoreCommand :: "set_env \<Rightarrow> 'x server \<Rightarrow> sds \<Rightarrow> sds list \<Rightarrow> ('x server \<times> reply) option" where
  "sunionstoreCommand E S dst keys = sunionDiffGenericCommand E S keys (Some dst) SET_OP_UNION"

definition sdiffCommand :: "set_env \<Rightarrow> 'x server \<Rightarrow> sds list \<Rightarrow> ('x server \<times> reply) option" where
  "sdiffCommand E S keys = sunionDiffGenericCommand E S keys None SET_OP_DIFF"

definition sdiffstoreCommand :: "set_env \<Rightarrow> 'x server \<Rightarrow> sds \<Rightarrow> sds list \<Rightarrow> ('x server \<times> reply) option" where
  "sdiffstoreCommand E S dst keys = sunionDiffGenericCommand E S keys (Some dst) SET_OP_DIFF"

section \<open>Keyspaces of well-formed sets\<close>

definition db_ok :: "set_env \<Rightarrow> 'x server \<Rightarrow> bool" where
  "db_ok E S \<longleftrightarrow> (\<forall>k s. keyspace S k = Some (SetVal s) \<longrightarrow> set_ok E s)"

text \<open>The set a key stands for; a missing key is an empty set.\<close>

definition key_set :: "'x server \<Rightarrow> sds \<Rightarrow> sds set" where
  "key_set S k = (case keyspace S k of Some (SetVal s) \<Rightarrow> members s | _ \<Rightarrow> {})"

text \<open>Two states that differ at most in the representation of sets.\<close>

definition same_obj :: "set_env \<Rightarrow> 'x robj option \<Rightarrow> 'x robj option \<Rightarrow> bool" where
  "same_obj E a b \<longleftrightarrow>
     b = a \<or> (\<exists>s t. a = Some (SetVal s) \<and> b = Some (SetVal t) \<and> set_ok E t \<and> members t = members s)"

definition same_db :: "set_env \<Rightarrow> 'x server \<Rightarrow> 'x server \<Rightarrow> bool" where
  "same_db E S S' \<longleftrightarrow>
     (\<forall>k. same_obj E (keyspace S k) (keyspace S' k)) \<and> dirty S' = dirty S \<and> events S' = events S"

definition has_set :: "'x server \<Rightarrow> sds \<Rightarrow> bool" where
  "has_set S k \<longleftrightarrow> (\<exists>s. keyspace S k = Some (SetVal s))"

lemma same_db_refl [simp]: "same_db E S S"
  by (simp add: same_db_def same_obj_def)

lemma same_obj_trans: "same_obj E a b \<Longrightarrow> same_obj E b c \<Longrightarrow> same_obj E a c"
  by (auto simp: same_obj_def)

lemma same_db_trans: "same_db E S S1 \<Longrightarrow> same_db E S1 S2 \<Longrightarrow> same_db E S S2"
  by (auto simp: same_db_def intro: same_obj_trans)

lemma same_db_cases:
  assumes "same_db E S S'"
  obtains (same) "keyspace S' k = keyspace S k"
  | (repr) s t where "keyspace S k = Some (SetVal s)" "keyspace S' k = Some (SetVal t)" "set_ok E t"
      "members t = members s"
  using assms unfolding same_db_def same_obj_def by blast

lemma same_db_ok:
  assumes "db_ok E S" "same_db E S S'" shows "db_ok E S'"
  unfolding db_ok_def
proof (intro allI impI)
  fix k s
  assume s: "keyspace S' k = Some (SetVal s)"
  from assms(2) show "set_ok E s"
    by (rule same_db_cases [of E S S' k]) (use s assms(1) in \<open>auto simp: db_ok_def\<close>)
qed

lemma same_db_key_set: "same_db E S S' \<Longrightarrow> key_set S' k = key_set S k"
  by (erule same_db_cases [of E S S' k]) (auto simp: key_set_def)

lemma same_db_has_set: "same_db E S S' \<Longrightarrow> has_set S' k = has_set S k"
  by (erule same_db_cases [of E S S' k]) (auto simp: has_set_def)

lemma has_setD:
  assumes "db_ok E S" "has_set S k"
  shows "keyspace S k = Some (SetVal (set_at S k))" "set_ok E (set_at S k)" "members (set_at S k) = key_set S k"
  using assms by (auto simp: db_ok_def has_set_def set_at_def key_set_def)

lemma same_db_set_key:
  assumes "db_ok E S" "has_set S k" "set_ok E t" "members t = key_set S k"
  shows "same_db E S (set_key k t S)"
  using has_setD [OF assms(1,2)] assms(3,4) by (auto simp: same_db_def same_obj_def set_key_def)

lemma member_same_db:
  assumes "db_ok E S" "has_set S k" "setTypeIsMember E (set_at S k) v = (t, b)"
  shows "same_db E S (set_key k t S)" and "b \<longleftrightarrow> v \<in> key_set S k"
proof -
  note h = has_setD [OF assms(1,2)]
  note m = setTypeIsMember_ok [OF h(2), of v, unfolded assms(3) fst_conv snd_conv h(3)]
  show "same_db E S (set_key k t S)" using m by (intro same_db_set_key [OF assms(1,2)]) simp_all
  show "b \<longleftrightarrow> v \<in> key_set S k" using m by simp
qed

lemma lookup_sets_None: "lookup_sets S keys = None \<longleftrightarrow> (\<exists>k \<in> set keys. \<exists>x. keyspace S k = Some (OtherVal x))"
  by (induction keys) (auto split: option.splits robj.splits)

lemma lookup_sets_Some:
  "lookup_sets S keys = Some sets \<Longrightarrow> sets = map (\<lambda>k. if has_set S k then Some k else None) keys"
  by (induction keys arbitrary: sets) (auto simp: has_set_def split: option.splits robj.splits)

text \<open>The size of a set bounds what an intersection or a difference can add.\<close>

definition small :: "'x server \<Rightarrow> sds \<Rightarrow> bool" where
  "small S k \<longleftrightarrow> card (key_set S k) < 2 ^ 29 - 1"

section \<open>Intersection\<close>

definition valid_ele :: "setele \<Rightarrow> bool" where
  "valid_ele e = (case e of SdsEle s \<Rightarrow> True | LlEle v \<Rightarrow> is_int64 v)"

lemma set_elements_valid:
  assumes "set_ok E s" "set_elements s = Some es" shows "\<forall>e \<in> set es. valid_ele e"
proof (cases s)
  case (IntsetObj "is")
  then have ok: "intset_ok is" using assms(1) by (simp add: set_ok_def)
  show ?thesis using assms(2) set_elements_intset [OF ok] elems_int64 [OF ok] by (auto simp: IntsetObj valid_ele_def)
next
  case (HtObj d)
  then have ok: "dict_ok (setDictType E) d" using assms(1) by (simp add: set_ok_def)
  show ?thesis using assms(2) set_elements_ht [OF ok] by (auto simp: HtObj valid_ele_def)
qed

lemma intsetFind_ele:
  assumes "db_ok E S" "has_set S k" "set_at S k = IntsetObj is" "is_int64 v"
  shows "intsetFind is v \<longleftrightarrow> ele_sds (LlEle v) \<in> key_set S k"
proof -
  have ok: "intset_ok is" using has_setD(2) [OF assms(1,2)] assms(3) by (simp add: set_ok_def)
  have "key_set S k = sdec ` set (elems is)" using has_setD(3) [OF assms(1,2)] assms(3) by (simp add: members_def)
  then show ?thesis
    using intsetFind_correct [OF ok assms(4)] mem_sdec [OF ok assms(4)] by (simp add: sdsll2str_correct)
qed

lemma sinter_test_ok:
  assumes "db_ok E S" "\<forall>k \<in> set ks. has_set S k" "valid_ele e"
  shows "same_db E S (fst (sinter_test E S k0 e ks)) \<and>
    snd (sinter_test E S k0 e ks) = (\<forall>k \<in> set ks - {k0}. ele_sds e \<in> key_set S k)"
  using assms
proof (induction ks arbitrary: S)
  case (Cons k ks)
  show ?case
  proof (cases "k = k0")
    case True
    then show ?thesis using Cons by simp
  next
    case ne: False
    have h: "has_set S k" using Cons.prems(2) by simp
    show ?thesis
    proof (cases "\<exists>v is. e = LlEle v \<and> set_at S k = IntsetObj is")
      case True
      then obtain v "is" where e: "e = LlEle v" and s: "set_at S k = IntsetObj is" by blast
      have "intsetFind is v \<longleftrightarrow> ele_sds e \<in> key_set S k"
        using intsetFind_ele [OF Cons.prems(1) h s] Cons.prems(3) by (simp add: e valid_ele_def)
      then show ?thesis using Cons ne by (auto simp: e s)
    next
      case False
      obtain t b where m: "setTypeIsMember E (set_at S k) (ele_sds e) = (t, b)" by fastforce
      note mm = member_same_db [OF Cons.prems(1) h m]
      let ?S = "set_key k t S"
      have step: "sinter_test E S k0 e (k # ks) = (if b then sinter_test E ?S k0 e ks else (?S, False))"
        using ne False m by (cases e; cases "set_at S k") auto
      have "\<forall>k \<in> set ks. has_set ?S k" using Cons.prems(2) same_db_has_set [OF mm(1)] by simp
      then have "same_db E ?S (fst (sinter_test E ?S k0 e ks)) \<and>
          snd (sinter_test E ?S k0 e ks) = (\<forall>k \<in> set ks - {k0}. ele_sds e \<in> key_set ?S k)"
        using Cons.IH same_db_ok [OF Cons.prems(1) mm(1)] Cons.prems(3) by blast
      then show ?thesis unfolding step
        using mm same_db_trans [OF mm(1)] same_db_key_set [OF mm(1)] ne by auto
    qed
  qed
qed simp

definition in_others :: "'x server \<Rightarrow> sds \<Rightarrow> sds list \<Rightarrow> sds \<Rightarrow> bool" where
  "in_others S k0 ks x \<longleftrightarrow> (\<forall>k \<in> set ks - {k0}. x \<in> key_set S k)"

lemma in_others_same: "same_db E S S' \<Longrightarrow> in_others S' k0 ks = in_others S k0 ks"
  unfolding in_others_def by (rule ext) (simp add: same_db_key_set)

text \<open>What the loop over the first set needs of the state, and what a test gives.\<close>

definition loop_ok :: "set_env \<Rightarrow> 'x server \<Rightarrow> sds list \<Rightarrow> setele list \<Rightarrow> bool" where
  "loop_ok E S ks es \<longleftrightarrow> db_ok E S \<and> (\<forall>k \<in> set ks. has_set S k) \<and> (\<forall>e \<in> set es. valid_ele e)"

lemma loop_test:
  assumes "loop_ok E S ks (e # es)" "sinter_test E S k0 e ks = (S1, b)"
  shows "same_db E S S1" "b = in_others S k0 ks (ele_sds e)" "loop_ok E S1 ks es"
    "in_others S1 k0 ks = in_others S k0 ks"
proof -
  have t: "same_db E S S1 \<and> b = (\<forall>k \<in> set ks - {k0}. ele_sds e \<in> key_set S k)"
    using sinter_test_ok [of E S ks e k0] assms by (simp add: loop_ok_def)
  then show s: "same_db E S S1" and "b = in_others S k0 ks (ele_sds e)" by (simp_all add: in_others_def)
  show "loop_ok E S1 ks es"
    using assms(1) same_db_ok [OF _ s] same_db_has_set [OF s] by (simp add: loop_ok_def)
  show "in_others S1 k0 ks = in_others S k0 ks" by (rule in_others_same [OF s])
qed

lemma sinter_loop_members:
  assumes "loop_ok E S ks es"
  shows "\<exists>S1. sinter_loop E Members k0 ks es (S, dst, out, n) =
      Some (S1, dst, out @ filter (in_others S k0 ks) (map ele_sds es),
        n + length (filter (in_others S k0 ks) (map ele_sds es))) \<and> same_db E S S1"
  using assms
proof (induction es arbitrary: S out n)
  case (Cons e es)
  obtain S1 b where t: "sinter_test E S k0 e ks = (S1, b)" by fastforce
  note lt = loop_test [OF Cons.prems t]
  note ih = Cons.IH [OF lt(3), unfolded lt(4)]
  show ?case
  proof (cases b)
    case True
    obtain S2 where "sinter_loop E Members k0 ks es (S1, dst, out @ [ele_sds e], n + 1) =
        Some (S2, dst, (out @ [ele_sds e]) @ filter (in_others S k0 ks) (map ele_sds es),
          n + 1 + length (filter (in_others S k0 ks) (map ele_sds es)))" "same_db E S1 S2"
      using ih [of "out @ [ele_sds e]" "n + 1"] by blast
    then show ?thesis using True t lt(1,2) same_db_trans by auto
  next
    case False
    then show ?thesis using ih [of out n] t lt(1,2) same_db_trans by auto
  qed
qed simp

lemma sinter_loop_store:
  assumes "loop_ok E S ks es" "set_ok E dst" "card (members dst) + length es < 2 ^ 29"
  shows "\<exists>S1 dst1 n1. sinter_loop E (Store dk) k0 ks es (S, dst, out, n) = Some (S1, dst1, out, n1) \<and>
    same_db E S S1 \<and> set_ok E dst1 \<and>
    members dst1 = members dst \<union> set (filter (in_others S k0 ks) (map ele_sds es))"
  using assms
proof (induction es arbitrary: S dst)
  case (Cons e es)
  obtain S1 b where t: "sinter_test E S k0 e ks = (S1, b)" by fastforce
  note lt = loop_test [OF Cons.prems(1) t]
  note ih = Cons.IH [OF lt(3), unfolded lt(4)]
  show ?case
  proof (cases b)
    case True
    obtain d1 where d1: "setTypeAdd E dst (ele_sds e) = Some (d1, ele_sds e \<notin> members dst)" "set_ok E d1"
      "members d1 = insert (ele_sds e) (members dst)"
      using setTypeAdd_ok [OF Cons.prems(2), of "ele_sds e"] Cons.prems(3) by auto
    have "card (members d1) \<le> Suc (card (members dst))" unfolding d1(3) by (simp add: card_insert_if)
    then have "card (members d1) + length es < 2 ^ 29" using Cons.prems(3) by simp
    from ih [OF d1(2) this] obtain S2 d2 n2 where
      "sinter_loop E (Store dk) k0 ks es (S1, d1, out, n) = Some (S2, d2, out, n2)" "same_db E S1 S2" "set_ok E d2"
      "members d2 = members d1 \<union> set (filter (in_others S k0 ks) (map ele_sds es))" by blast
    then show ?thesis using True t lt(1,2) same_db_trans d1 by auto
  next
    case False
    have "card (members dst) + length es < 2 ^ 29" using Cons.prems(3) by simp
    from ih [OF Cons.prems(2) this] show ?thesis using False t lt(1,2) same_db_trans by auto
  qed
qed simp

lemma sinter_loop_card:
  assumes "loop_ok E S ks es" "limit = 0 \<or> n < limit"
  shows "\<exists>S1. sinter_loop E (Card limit) k0 ks es (S, dst, out, n) =
      Some (S1, dst, out,
        let m = n + length (filter (in_others S k0 ks) (map ele_sds es)) in if limit = 0 then m else min limit m) \<and>
    same_db E S S1"
  using assms
proof (induction es arbitrary: S n)
  case (Cons e es)
  obtain S1 b where t: "sinter_test E S k0 e ks = (S1, b)" by fastforce
  note lt = loop_test [OF Cons.prems(1) t]
  note ih = Cons.IH [OF lt(3), unfolded lt(4)]
  show ?case
  proof (cases b)
    case False
    then show ?thesis using ih [OF Cons.prems(2)] t lt(1,2) same_db_trans by auto
  next
    case True
    show ?thesis
    proof (cases "limit \<noteq> 0 \<and> n + 1 \<ge> limit")
      case lim: True
      then show ?thesis using True t lt(1,2) Cons.prems(2) by (auto simp: Let_def)
    next
      case lim: False
      then have "limit = 0 \<or> n + 1 < limit" by auto
      from ih [OF this] show ?thesis using True lim t lt(1,2) same_db_trans by (auto simp: Let_def)
    qed
  qed
qed (auto simp: Let_def min_def)

lemma inter_list:
  assumes "set es = key_set S k0" "k0 \<in> set keys" "set ks \<union> {k0} = set keys"
  shows "set (filter (in_others S k0 ks) es) = (\<Inter>k \<in> set keys. key_set S k)"
proof -
  have "set keys = insert k0 (set ks - {k0})" using assms(2,3) by auto
  then show ?thesis using assms(1) by (auto simp: in_others_def)
qed

text \<open>The start of the command when all keys hold sets.\<close>

lemma sinter_start:
  assumes ok: "db_ok E S" and keys: "keys \<noteq> []" "\<forall>k \<in> set keys. has_set S k"
  obtains k0 ks es where "lookup_sets S keys = Some (map Some keys)"
    "sort_key (key_size S) keys = k0 # ks" "set_elements (set_at S k0) = Some es"
    "loop_ok E S ks es" "distinct (map ele_sds es)" "length es = card (key_set S k0)" "k0 \<in> set keys"
    "set (filter (in_others S k0 ks) (map ele_sds es)) = (\<Inter>k \<in> set keys. key_set S k)"
proof -
  have l: "lookup_sets S keys = Some (map Some keys)"
  proof (cases "lookup_sets S keys")
    case None
    then show ?thesis using keys(2) by (auto simp: lookup_sets_None has_set_def)
  next
    case (Some sets)
    then show ?thesis using lookup_sets_Some [OF Some] keys(2) by simp
  qed
  obtain k0 ks where s: "sort_key (key_size S) keys = k0 # ks"
    using keys(1) by (metis length_0_conv length_sort neq_Nil_conv)
  have st: "set keys = set (k0 # ks)" unfolding s [symmetric] by simp
  have h: "has_set S k0" using keys(2) st by simp
  note hd0 = has_setD [OF ok h]
  obtain es where es: "set_elements (set_at S k0) = Some es" "ele_sds ` set es = key_set S k0" "distinct (map ele_sds es)"
    using set_elements_spec [OF hd0(2)] hd0(3) by metis
  have lo: "loop_ok E S ks es"
    using ok keys(2) st set_elements_valid [OF hd0(2) es(1)] by (simp add: loop_ok_def)
  have "length es = card (key_set S k0)" using distinct_card [OF es(3)] es(2) by simp
  moreover have "set (filter (in_others S k0 ks) (map ele_sds es)) = (\<Inter>k \<in> set keys. key_set S k)"
    by (rule inter_list) (use es(2) st in auto)
  ultimately show ?thesis using that [OF l s es(1) lo es(3)] st by simp
qed

section \<open>Union and difference\<close>

lemma add_elements_ok:
  assumes "set_ok E dst" "card (members dst) + length es < 2 ^ 29" "n = card (members dst)"
  shows "\<exists>d1. add_elements E es (dst, n) = Some (d1, card (members d1)) \<and> set_ok E d1 \<and>
    members d1 = members dst \<union> ele_sds ` set es"
  using assms
proof (induction es arbitrary: dst n)
  case (Cons e es)
  let ?x = "ele_sds e"
  obtain d1 where d1: "setTypeAdd E dst ?x = Some (d1, ?x \<notin> members dst)" "set_ok E d1"
    "members d1 = insert ?x (members dst)"
    using setTypeAdd_ok [OF Cons.prems(1), of ?x] Cons.prems(2) by auto
  have c: "(if ?x \<notin> members dst then n + 1 else n) = card (members d1)"
    using Cons.prems(3) unfolding d1(3) by (simp add: card_insert_if)
  have "card (members d1) + length es < 2 ^ 29" using Cons.prems(2) c Cons.prems(3) by (simp split: if_splits)
  from Cons.IH [OF d1(2) this refl] show ?case using d1 c by auto
qed simp

lemma remove_elements_ok:
  assumes "set_ok E dst" "n = card (members dst)"
  shows "\<exists>d1. remove_elements E es (dst, n) = (d1, card (members d1)) \<and> set_ok E d1 \<and>
    members d1 = members dst - ele_sds ` set es"
  using assms
proof (induction es arbitrary: dst n)
  case (Cons e es)
  let ?x = "ele_sds e"
  obtain d1 b where r: "setTypeRemove E dst ?x = (d1, b)" by fastforce
  note d1 = setTypeRemove_ok [OF Cons.prems(1), of ?x, unfolded r fst_conv snd_conv]
  have "(if b then n - 1 else n) = card (members d1)" using d1 Cons.prems(2) by (simp add: card_Diff_singleton_if)
  then show ?case using Cons.IH [of d1 "if b then n - 1 else n"] d1 r by auto
qed simp

text \<open>The keys that hold sets, in the list of looked up keys.\<close>

definition keys_of :: "sds option list \<Rightarrow> sds list" where
  "keys_of sets = map the (filter (\<lambda>s. s \<noteq> None) sets)"

lemma keys_of_simps [simp]:
  "keys_of [] = []" "keys_of (None # sets) = keys_of sets" "keys_of (Some k # sets) = k # keys_of sets"
  by (simp_all add: keys_of_def)

lemma set_keys_of: "set (keys_of sets) = {k. Some k \<in> set sets}"
  by (force simp: keys_of_def)

lemma key_elements:
  assumes "db_ok E S" "has_set S k"
  obtains es where "set_elements (set_at S k) = Some es" "ele_sds ` set es = key_set S k"
    "distinct (map ele_sds es)" "length es = card (key_set S k)"
proof -
  note h = has_setD [OF assms]
  obtain es where es: "set_elements (set_at S k) = Some es" "ele_sds ` set es = key_set S k" "distinct (map ele_sds es)"
    using set_elements_spec [OF h(2)] h(3) by metis
  then show ?thesis using that distinct_card [OF es(3)] by simp
qed

lemma sunion_loop_ok:
  assumes "db_ok E S" "\<forall>k \<in> set (keys_of sets). has_set S k" "set_ok E dst" "n = card (members dst)"
    "card (members dst) + (\<Sum>k \<leftarrow> keys_of sets. card (key_set S k)) < 2 ^ 29"
  shows "\<exists>d1. sunion_loop E S sets (dst, n) = Some (d1, card (members d1)) \<and> set_ok E d1 \<and>
    members d1 = members dst \<union> (\<Union>k \<in> set (keys_of sets). key_set S k)"
  using assms(2-)
proof (induction sets arbitrary: dst n)
  case (Cons s sets)
  show ?case
  proof (cases s)
    case None
    then show ?thesis using Cons by simp
  next
    case (Some k)
    then have h: "has_set S k" using Cons.prems(1) by simp
    obtain es where es: "set_elements (set_at S k) = Some es" "ele_sds ` set es = key_set S k"
      "length es = card (key_set S k)" by (rule key_elements [OF assms(1) h])
    have "card (members dst) + length es < 2 ^ 29" using Cons.prems(4) es(3) Some by simp
    from add_elements_ok [OF Cons.prems(2) this Cons.prems(3)] obtain d1 where
      d1: "add_elements E es (dst, n) = Some (d1, card (members d1))" "set_ok E d1"
        "members d1 = members dst \<union> key_set S k" using es(2) by auto
    have "card (members d1) \<le> card (members dst) + card (key_set S k)" unfolding d1(3) by (rule card_Un_le)
    then have "card (members d1) + (\<Sum>k \<leftarrow> keys_of sets. card (key_set S k)) < 2 ^ 29"
      using Cons.prems(4) Some by simp
    from Cons.IH [OF _ d1(2) refl this] show ?thesis using Cons.prems(1) Some es(1) d1 by auto
  qed
qed simp

lemma sdiff_test_ok:
  assumes "db_ok E S" "\<forall>k \<in> set (keys_of sets). has_set S k" "x \<in> key_set S k0"
  shows "same_db E S (fst (sdiff_test E S k0 x sets)) \<and>
    snd (sdiff_test E S k0 x sets) = (\<forall>k \<in> set (keys_of sets). x \<notin> key_set S k)"
  using assms
proof (induction sets arbitrary: S)
  case (Cons s sets)
  show ?case
  proof (cases s)
    case None
    then show ?thesis using Cons by simp
  next
    case (Some k)
    show ?thesis
    proof (cases "k = k0")
      case True
      then show ?thesis using Some Cons.prems(3) by simp
    next
      case ne: False
      have h: "has_set S k" using Cons.prems(2) Some by simp
      obtain t b where m: "setTypeIsMember E (set_at S k) x = (t, b)" by fastforce
      note mm = member_same_db [OF Cons.prems(1) h m]
      let ?S = "set_key k t S"
      have "\<forall>k \<in> set (keys_of sets). has_set ?S k" using Cons.prems(2) same_db_has_set [OF mm(1)] Some by simp
      then have "same_db E ?S (fst (sdiff_test E ?S k0 x sets)) \<and>
          snd (sdiff_test E ?S k0 x sets) = (\<forall>k \<in> set (keys_of sets). x \<notin> key_set ?S k)"
        using Cons.IH same_db_ok [OF Cons.prems(1) mm(1)] Cons.prems(3) same_db_key_set [OF mm(1)] by blast
      then show ?thesis
        using Some ne m mm same_db_trans [OF mm(1)] same_db_key_set [OF mm(1)] by (cases b) auto
    qed
  qed
qed simp

definition diff_ok :: "set_env \<Rightarrow> 'x server \<Rightarrow> sds option list \<Rightarrow> bool" where
  "diff_ok E S sets \<longleftrightarrow> db_ok E S \<and> (\<forall>k \<in> set (keys_of sets). has_set S k)"

definition other_sets :: "'x server \<Rightarrow> sds option list \<Rightarrow> sds set" where
  "other_sets S sets = (\<Union>k \<in> set (keys_of sets). key_set S k)"

lemma sdiff1_loop_ok:
  assumes "diff_ok E S sets" "ele_sds ` set es \<subseteq> key_set S k0" "set_ok E dst" "distinct (map ele_sds es)"
    "members dst \<inter> ele_sds ` set es = {}" "n = card (members dst)" "card (members dst) + length es < 2 ^ 29"
  shows "\<exists>S1 d1. sdiff1_loop E k0 sets es (S, dst, n) = Some (S1, d1, card (members d1)) \<and> same_db E S S1 \<and>
    set_ok E d1 \<and> members d1 = members dst \<union> (ele_sds ` set es - other_sets S sets)"
  using assms
proof (induction es arbitrary: S dst n)
  case (Cons e es)
  let ?x = "ele_sds e"
  obtain S1 b where t: "sdiff_test E S k0 ?x sets = (S1, b)" by fastforce
  have tt: "same_db E S S1" "b \<longleftrightarrow> ?x \<notin> other_sets S sets"
    using sdiff_test_ok [of E S sets ?x k0] Cons.prems(1,2) t by (simp_all add: diff_ok_def other_sets_def)
  have d: "diff_ok E S1 sets"
    using Cons.prems(1) same_db_ok [OF _ tt(1)] same_db_has_set [OF tt(1)] by (simp add: diff_ok_def)
  have o: "other_sets S1 sets = other_sets S sets" by (simp add: other_sets_def same_db_key_set [OF tt(1)])
  have s1: "ele_sds ` set es \<subseteq> key_set S1 k0" using Cons.prems(2) same_db_key_set [OF tt(1)] by simp
  note ih = Cons.IH [OF d s1, unfolded o]
  show ?case
  proof (cases b)
    case False
    have "members dst \<inter> ele_sds ` set es = {}" "card (members dst) + length es < 2 ^ 29" "distinct (map ele_sds es)"
      using Cons.prems by auto
    then show ?thesis using ih [OF Cons.prems(3) _ _ Cons.prems(6)] False t tt same_db_trans by fastforce
  next
    case True
    obtain d1 where d1: "setTypeAdd E dst ?x = Some (d1, ?x \<notin> members dst)" "set_ok E d1"
      "members d1 = insert ?x (members dst)"
      using setTypeAdd_ok [OF Cons.prems(3), of ?x] Cons.prems(7) by auto
    have "?x \<notin> members dst" using Cons.prems(5) by auto
    then have c: "n + 1 = card (members d1)" using Cons.prems(6) unfolding d1(3) by simp
    have "members d1 \<inter> ele_sds ` set es = {}" "card (members d1) + length es < 2 ^ 29" "distinct (map ele_sds es)"
      using Cons.prems(4,5,6,7) c unfolding d1(3) by auto
    from ih [OF d1(2) this(3,1) c this(2)] obtain S2 d2 where
      "sdiff1_loop E k0 sets es (S1, d1, n + 1) = Some (S2, d2, card (members d2))" "same_db E S1 S2" "set_ok E d2"
      "members d2 = members d1 \<union> (ele_sds ` set es - other_sets S sets)" by blast
    then show ?thesis using True t tt d1 same_db_trans by auto
  qed
qed simp

lemma sdiff2_loop_ok:
  assumes "diff_ok E S sets" "set_ok E dst" "n = card (members dst)"
  shows "\<exists>d1. sdiff2_loop E S sets (dst, n) = Some (d1, card (members d1)) \<and> set_ok E d1 \<and>
    members d1 = members dst - other_sets S sets"
  using assms
proof (induction sets arbitrary: dst n)
  case Nil
  then show ?case by (simp add: other_sets_def)
next
  case (Cons s sets)
  show ?case
  proof (cases s)
    case None
    then show ?thesis using Cons by (simp add: diff_ok_def other_sets_def)
  next
    case (Some k)
    have ok: "db_ok E S" and h: "has_set S k" and d: "diff_ok E S sets"
      using Cons.prems(1) Some by (simp_all add: diff_ok_def)
    obtain es where es: "set_elements (set_at S k) = Some es" "ele_sds ` set es = key_set S k"
      by (rule key_elements [OF ok h])
    obtain d1 where d1: "remove_elements E es (dst, n) = (d1, card (members d1))" "set_ok E d1"
      "members d1 = members dst - key_set S k"
      using remove_elements_ok [OF Cons.prems(2,3)] es(2) by metis
    have o: "other_sets S (Some k # sets) = key_set S k \<union> other_sets S sets" by (simp add: other_sets_def)
    show ?thesis
    proof (cases "card (members d1) = 0")
      case True
      then have "members d1 = {}" by simp
      then show ?thesis using True Some es(1) d1 by (intro exI [of _ d1]) (auto simp: o Let_def)
    next
      case False
      from Cons.IH [OF d d1(2) refl] show ?thesis using False Some es(1) d1 by (auto simp: o Let_def)
    qed
  qed
qed

lemma sdiff_compute_ok:
  assumes ok: "diff_ok E S (Some k0 # rest)" and sm: "card (key_set S k0) < 2 ^ 29 - 1"
  shows "\<exists>S1 d1. sdiff_compute E S (Some k0 # rest) = Some (S1, d1, card (members d1)) \<and> same_db E S S1 \<and>
    set_ok E d1 \<and> members d1 = key_set S k0 - other_sets S rest"
proof -
  have db: "db_ok E S" and h: "has_set S k0" and d: "diff_ok E S rest" using ok by (simp_all add: diff_ok_def)
  obtain es where es: "set_elements (set_at S k0) = Some es" "ele_sds ` set es = key_set S k0"
    "distinct (map ele_sds es)" "length es = card (key_set S k0)" by (rule key_elements [OF db h])
  let ?o = "createIntsetObject"
  have o: "set_ok E ?o" "members ?o = {}" by (simp_all add: createIntsetObject_ok)
  have lt: "card (members ?o) + length es < 2 ^ 29" using sm es(4) by (simp add: o)
  show ?thesis
  proof (cases "diff_algo S (Some k0 # rest) = 1")
    case True
    let ?r = "sort_key (rev_cardinality S) rest"
    have r: "set (keys_of ?r) = set (keys_of rest)" by (simp add: set_keys_of)
    have "diff_ok E S ?r" "other_sets S ?r = other_sets S rest" using d by (simp_all add: diff_ok_def other_sets_def r)
    then show ?thesis using sdiff1_loop_ok [of E S ?r es k0 ?o 0] es o lt True by (simp add: sdiff_compute_def)
  next
    case False
    obtain d1 where d1: "add_elements E es (?o, 0) = Some (d1, card (members d1))" "set_ok E d1"
      "members d1 = key_set S k0" using add_elements_ok [OF o(1) lt] es(2) o(2) by auto
    show ?thesis
    proof (cases "card (members d1) = 0")
      case z: True
      then have "key_set S k0 = {}" using finite_members [of d1] d1(3) by simp
      then show ?thesis using False z es(1) d1 by (auto simp: sdiff_compute_def)
    next
      case z: False
      from sdiff2_loop_ok [OF d d1(2) refl] show ?thesis using False z es(1) d1 by (auto simp: sdiff_compute_def)
    qed
  qed
qed

lemma store_result_spec:
  assumes "db_ok E S" "set_ok E d" "store_result S dk d name = (S1, r)"
  shows "db_ok E S1" "key_set S1 dk = members d" "\<forall>k. k \<noteq> dk \<longrightarrow> keyspace S1 k = keyspace S k"
    "r = IntReply (int (card (members d)))" "members d = {} \<Longrightarrow> keyspace S1 dk = None"
proof -
  have sz: "setTypeSize d = card (members d)" by (rule setTypeSize_card [OF assms(2)])
  have "members d = {} \<or> 0 < card (members d)" by (simp add: card_gt_0_iff)
  then show "db_ok E S1" "key_set S1 dk = members d" "\<forall>k. k \<noteq> dk \<longrightarrow> keyspace S1 k = keyspace S k"
    "r = IntReply (int (card (members d)))" "members d = {} \<Longrightarrow> keyspace S1 dk = None"
    using assms sz
    by (auto simp: store_result_def db_ok_def key_set_def set_key_def del_key_def log_events_def add_dirty_def
        split: if_splits)
qed

section \<open>Adding, removing, moving\<close>

lemma sadd_loop_ok:
  assumes "set_ok E s" "card (members s) + length vals < 2 ^ 29"
  shows "\<exists>s1. sadd_loop E s vals n = Some (s1, n + card (set vals - members s)) \<and> set_ok E s1 \<and>
    members s1 = members s \<union> set vals"
  using assms
proof (induction vals arbitrary: s n)
  case (Cons v vals)
  obtain s1 where s1: "setTypeAdd E s v = Some (s1, v \<notin> members s)" "set_ok E s1" "members s1 = insert v (members s)"
    using setTypeAdd_ok [OF Cons.prems(1), of v] Cons.prems(2) by auto
  have "card (members s1) \<le> Suc (card (members s))" unfolding s1(3) by (simp add: card_insert_if)
  then have lt: "card (members s1) + length vals < 2 ^ 29" using Cons.prems(2) by simp
  have "set (v # vals) - members s = (if v \<in> members s then {} else {v}) \<union> (set vals - members s1)"
    unfolding s1(3) by auto
  then have "card (set (v # vals) - members s) = (if v \<in> members s then 0 else 1) + card (set vals - members s1)"
    unfolding s1(3) by simp
  then show ?case using Cons.IH [OF s1(2) lt, of "if v \<notin> members s then n + 1 else n"] s1 by auto
qed simp

lemma srem_loop_ok:
  assumes "set_ok E s"
  shows "\<exists>s1. srem_loop E s vals n = (s1, n + card (members s \<inter> set vals), members s \<noteq> {} \<and> members s \<subseteq> set vals) \<and>
    set_ok E s1 \<and> members s1 = members s - set vals"
  using assms
proof (induction vals arbitrary: s n)
  case (Cons v vals)
  obtain s1 b where r: "setTypeRemove E s v = (s1, b)" by fastforce
  note s1 = setTypeRemove_ok [OF Cons.prems, of v, unfolded r fst_conv snd_conv]
  then have ok: "set_ok E s1" and m: "members s1 = members s - {v}" and b: "b \<longleftrightarrow> v \<in> members s" by simp_all
  have sz: "setTypeSize s1 = 0 \<longleftrightarrow> members s1 = {}" using setTypeSize_card [OF ok] by simp
  have "members s \<inter> set (v # vals) = (if v \<in> members s then {v} else {}) \<union> (members s1 \<inter> set vals)"
    unfolding m by auto
  then have c: "card (members s \<inter> set (v # vals)) = (if v \<in> members s then 1 else 0) + card (members s1 \<inter> set vals)"
    unfolding m by simp
  obtain s2 where s2: "srem_loop E s1 vals (if b then n + 1 else n) =
      (s2, (if b then n + 1 else n) + card (members s1 \<inter> set vals), members s1 \<noteq> {} \<and> members s1 \<subseteq> set vals)"
    "set_ok E s2" "members s2 = members s1 - set vals" using Cons.IH [OF ok] by blast
  show ?case
  proof (cases "b \<and> members s1 = {}")
    case True
    then show ?thesis using r sz b ok m c by (intro exI [of _ s1]) auto
  next
    case False
    then have "srem_loop E s (v # vals) n = srem_loop E s1 vals (if b then n + 1 else n)" using r sz by (auto split: bool.splits)
    moreover have "(members s1 \<noteq> {} \<and> members s1 \<subseteq> set vals) \<longleftrightarrow> (members s \<noteq> {} \<and> members s \<subseteq> set (v # vals))"
      using False b m by auto
    ultimately show ?thesis using s2 c b m by (intro exI [of _ s2]) auto
  qed
qed simp

text \<open>The server keeps no empty set under a key.\<close>

definition db_inv :: "set_env \<Rightarrow> 'x server \<Rightarrow> bool" where
  "db_inv E S \<longleftrightarrow> db_ok E S \<and> (\<forall>k. has_set S k \<longrightarrow> key_set S k \<noteq> {})"

lemma key_cases:
  obtains (missing) "keyspace S k = None" "\<not> has_set S k" "key_set S k = {}"
  | (other) x where "keyspace S k = Some (OtherVal x)" "\<not> has_set S k" "key_set S k = {}"
  | (set) s where "keyspace S k = Some (SetVal s)" "has_set S k" "key_set S k = members s"
proof (cases "keyspace S k")
  case None
  then show ?thesis using missing by (simp add: has_set_def key_set_def)
next
  case (Some x)
  then show ?thesis using other set by (cases x) (auto simp: has_set_def key_set_def)
qed

section \<open>Properties\<close>

definition no_other :: "'x server \<Rightarrow> sds list \<Rightarrow> bool" where
  "no_other S keys \<longleftrightarrow> (\<forall>k \<in> set keys. keyspace S k = None \<or> has_set S k)"

lemma lookup_no_other:
  assumes "no_other S keys"
  shows "lookup_sets S keys = Some (map (\<lambda>k. if has_set S k then Some k else None) keys)"
proof (cases "lookup_sets S keys")
  case None
  then show ?thesis using assms by (force simp: lookup_sets_None no_other_def has_set_def)
next
  case (Some sets)
  then show ?thesis using lookup_sets_Some [OF Some] by simp
qed

lemma key_set_missing: "no_other S keys \<Longrightarrow> k \<in> set keys \<Longrightarrow> \<not> has_set S k \<Longrightarrow> key_set S k = {}"
  by (auto simp: no_other_def key_set_def split: option.splits robj.splits)

lemma sinter_missing:
  assumes "no_other S keys" "\<not> (\<forall>k \<in> set keys. has_set S k)"
  shows "\<exists>sets. lookup_sets S keys = Some sets \<and> None \<in> set sets" "(\<Inter>k \<in> set keys. key_set S k) = {}"
proof -
  show "\<exists>sets. lookup_sets S keys = Some sets \<and> None \<in> set sets" using lookup_no_other [OF assms(1)] assms(2) by auto
  show "(\<Inter>k \<in> set keys. key_set S k) = {}" using key_set_missing [OF assms(1)] assms(2) by fastforce
qed

text \<open>The set that the union and the difference of the sets of the keys stand for.\<close>

fun op_result :: "setop \<Rightarrow> 'x server \<Rightarrow> sds list \<Rightarrow> sds set" where
  "op_result SET_OP_UNION S keys = (\<Union>k \<in> set keys. key_set S k)"
| "op_result SET_OP_DIFF S keys = key_set S (hd keys) - (\<Union>k \<in> set (tl keys). key_set S k)"

definition op_compute :: "set_env \<Rightarrow> 'x server \<Rightarrow> sds option list \<Rightarrow> setop \<Rightarrow> ('x server \<times> setobj \<times> nat) option" where
  "op_compute E S sets op =
     (case op of
        SET_OP_UNION \<Rightarrow> map_option (Pair S) (sunion_loop E S sets (createIntsetObject, 0))
      | SET_OP_DIFF \<Rightarrow> sdiff_compute E S sets)"

lemma keys_of_lookup:
  "keys_of (map (\<lambda>k. if has_set S k then Some k else None) keys) = filter (has_set S) keys"
  by (induction keys) simp_all

lemma union_present:
  assumes "no_other S keys"
  shows "(\<Union>k \<in> set (filter (has_set S) keys). key_set S k) = (\<Union>k \<in> set keys. key_set S k)"
  using key_set_missing [OF assms] by auto

lemma sum_present: "(\<Sum>k \<leftarrow> filter P keys. f k) \<le> (\<Sum>k \<leftarrow> keys. f k :: nat)"
  by (induction keys) simp_all

lemma op_compute_ok:
  assumes ok: "db_ok E S" and keys: "keys \<noteq> []" and no: "no_other S keys"
    and sm: "(\<Sum>k \<leftarrow> keys. card (key_set S k)) < 2 ^ 29 - 1"
  shows "\<exists>S1 d. op_compute E S (map (\<lambda>k. if has_set S k then Some k else None) keys) op = Some (S1, d, card (members d)) \<and>
    same_db E S S1 \<and> set_ok E d \<and> members d = op_result op S keys"
proof -
  let ?sets = "map (\<lambda>k. if has_set S k then Some k else None) keys"
  have ks: "keys_of ?sets = filter (has_set S) keys" by (rule keys_of_lookup)
  have d: "diff_ok E S ?sets" using ok by (simp add: diff_ok_def ks)
  show ?thesis
  proof (cases op)
    case SET_OP_UNION
    have lt: "card (members createIntsetObject) + (\<Sum>k \<leftarrow> keys_of ?sets. card (key_set S k)) < 2 ^ 29"
      using sm sum_present [of "\<lambda>k. card (key_set S k)" "has_set S" keys] by (simp add: ks createIntsetObject_ok)
    obtain d1 where "sunion_loop E S ?sets (createIntsetObject, 0) = Some (d1, card (members d1))" "set_ok E d1"
      "members d1 = (\<Union>k \<in> set (keys_of ?sets). key_set S k)"
      using sunion_loop_ok [OF ok _ createIntsetObject_ok(1) _ lt] d
      by (auto simp: diff_ok_def createIntsetObject_ok(2))
    then show ?thesis using union_present [OF no] by (simp add: SET_OP_UNION op_compute_def ks)
  next
    case SET_OP_DIFF
    obtain k0 rest where k: "keys = k0 # rest" using keys by (cases keys) auto
    have no': "no_other S rest" using no by (simp add: k no_other_def)
    show ?thesis
    proof (cases "has_set S k0")
      case False
      then have "key_set S k0 = {}" using key_set_missing [OF no] by (simp add: k)
      then show ?thesis using False
        by (simp add: SET_OP_DIFF op_compute_def sdiff_compute_def k createIntsetObject_ok)
    next
      case True
      let ?r = "map (\<lambda>k. if has_set S k then Some k else None) rest"
      have "other_sets S ?r = (\<Union>k \<in> set rest. key_set S k)"
        using union_present [OF no'] by (simp add: other_sets_def keys_of_lookup)
      moreover have "card (key_set S k0) < 2 ^ 29 - 1" using sm by (simp add: k)
      moreover have "diff_ok E S (Some k0 # ?r)" using d True by (simp add: k)
      ultimately show ?thesis using sdiff_compute_ok [of E S k0 ?r] True
        by (simp add: SET_OP_DIFF op_compute_def k)
    qed
  qed
qed

lemma sunionDiff_unfold:
  assumes "no_other S keys"
    "op_compute E S (map (\<lambda>k. if has_set S k then Some k else None) keys) op = Some (S1, d, n)"
  shows "sunionDiffGenericCommand E S keys dstkey op =
    (case dstkey of
       None \<Rightarrow> map_option (\<lambda>es. (S1, SetReply n (map ele_sds es))) (set_elements d)
     | Some dk \<Rightarrow> Some (store_result S1 dk d (if op = SET_OP_UNION then ''sunionstore'' else ''sdiffstore'')))"
  using assms(2) unfolding sunionDiffGenericCommand_def lookup_no_other [OF assms(1)] op_compute_def by simp

section \<open>Single key commands\<close>

lemma put_set_inv:
  "db_inv E S \<Longrightarrow> keyspace S1 = (keyspace S)(k \<mapsto> SetVal s) \<Longrightarrow> set_ok E s \<Longrightarrow> members s \<noteq> {} \<Longrightarrow> db_inv E S1"
  by (auto simp: db_inv_def db_ok_def has_set_def key_set_def)

lemma drop_key_inv: "db_inv E S \<Longrightarrow> keyspace S1 = (keyspace S)(k := None) \<Longrightarrow> db_inv E S1"
  by (auto simp: db_inv_def db_ok_def has_set_def key_set_def)

lemma same_db_inv: "db_inv E S \<Longrightarrow> same_db E S S1 \<Longrightarrow> db_inv E S1"
  using same_db_ok [of E S S1] by (simp add: db_inv_def same_db_has_set same_db_key_set)

lemma sadd_into_ok:
  assumes "set_ok E s" "members s = key_set S key" "card (key_set S key) + length vals < 2 ^ 29"
  shows "\<exists>s1 S1. sadd_into E S key s vals = Some (S1, IntReply (int (card (set vals - key_set S key)))) \<and>
    keyspace S1 = (keyspace S)(key \<mapsto> SetVal s1) \<and> set_ok E s1 \<and> members s1 = key_set S key \<union> set vals"
proof -
  obtain s1 where "sadd_loop E s vals 0 = Some (s1, card (set vals - key_set S key))" "set_ok E s1"
    "members s1 = key_set S key \<union> set vals"
    using sadd_loop_ok [OF assms(1), of vals 0] assms(2,3) by auto
  then show ?thesis by (auto simp: sadd_into_def Let_def set_key_def log_events_def add_dirty_def)
qed

lemma sadd_ok:
  assumes inv: "db_inv E S" and no: "no_other S [key]" and sm: "card (key_set S key) + length vals < 2 ^ 29"
  shows "\<exists>s1 S1. saddCommand E S key vals = Some (S1, IntReply (int (card (set vals - key_set S key)))) \<and>
    keyspace S1 = (keyspace S)(key \<mapsto> SetVal s1) \<and> set_ok E s1 \<and> members s1 = key_set S key \<union> set vals"
proof (cases rule: key_cases [of S key])
  case missing
  then have "members (setTypeCreate (hd vals)) = key_set S key" by (simp add: setTypeCreate_ok)
  from sadd_into_ok [OF setTypeCreate_ok(1) this sm] missing show ?thesis by (simp add: saddCommand_def)
next
  case (other x)
  then show ?thesis using no by (simp add: no_other_def)
next
  case (set s)
  have ok: "set_ok E s" using inv set by (auto simp: db_inv_def db_ok_def)
  from sadd_into_ok [OF ok set(3) [symmetric] sm] set show ?thesis by (simp add: saddCommand_def)
qed

lemma srem_ok:
  assumes inv: "db_inv E S" and no: "no_other S [key]"
  shows "\<exists>S1. sremCommand E S key vals = (S1, IntReply (int (card (key_set S key \<inter> set vals)))) \<and> db_inv E S1 \<and>
    key_set S1 key = key_set S key - set vals \<and> (keyspace S1 key = None \<longleftrightarrow> key_set S key \<subseteq> set vals) \<and>
    (\<forall>k. k \<noteq> key \<longrightarrow> keyspace S1 k = keyspace S k)"
proof (cases rule: key_cases [of S key])
  case missing
  then show ?thesis using inv by (simp add: sremCommand_def)
next
  case (other x)
  then show ?thesis using no by (simp add: no_other_def)
next
  case (set s)
  have ok: "set_ok E s" and ne: "members s \<noteq> {}" using inv set by (auto simp: db_inv_def db_ok_def)
  obtain s2 where s2: "srem_loop E s vals 0 = (s2, card (members s \<inter> set vals), members s \<subseteq> set vals)"
    "set_ok E s2" "members s2 = members s - set vals" using srem_loop_ok [OF ok, of vals 0] ne by auto
  obtain S1 where S1: "sremCommand E S key vals = (S1, IntReply (int (card (key_set S key \<inter> set vals))))"
    "keyspace S1 = (if members s \<subseteq> set vals then (keyspace S)(key := None) else (keyspace S)(key \<mapsto> SetVal s2))"
    using set s2(1) by (auto simp: sremCommand_def set_key_def del_key_def log_events_def add_dirty_def Let_def)
  show ?thesis
  proof (cases "members s \<subseteq> set vals")
    case True
    then show ?thesis using S1 set drop_key_inv [OF inv] by (auto simp: key_set_def)
  next
    case False
    then have "members s2 \<noteq> {}" using s2(3) by auto
    then show ?thesis using False S1 set s2 put_set_inv [OF inv] by (auto simp: key_set_def)
  qed
qed


lemma smove_ok:
  assumes inv: "db_inv E S" and no: "no_other S [src, dst]" and sm: "card (key_set S dst) < 2 ^ 29 - 1"
  shows "\<exists>S1. smoveCommand E S src dst ele = Some (S1, IntReply (if ele \<in> key_set S src then 1 else 0)) \<and> db_inv E S1 \<and>
    (\<forall>k. k \<noteq> src \<and> k \<noteq> dst \<longrightarrow> keyspace S1 k = keyspace S k) \<and>
    key_set S1 src = (if src = dst then key_set S src else key_set S src - {ele}) \<and>
    key_set S1 dst = (if ele \<in> key_set S src then insert ele (key_set S dst) else key_set S dst)"
proof (cases "has_set S src")
  case False
  then have "keyspace S src = None" using no by (simp add: no_other_def)
  moreover have "key_set S src = {}" using key_set_missing [OF no] False by simp
  ultimately show ?thesis using inv by (auto simp: smoveCommand_def)
next
  case True
  have ok: "db_ok E S" using inv by (simp add: db_inv_def)
  note hs = has_setD [OF ok True]
  have dst_case: "keyspace S dst = None \<or> (\<exists>d. keyspace S dst = Some (SetVal d))"
    using no by (auto simp: no_other_def has_set_def)
  show ?thesis
  proof (cases "src = dst")
    case same: True
    obtain t b where m: "setTypeIsMember E (set_at S src) ele = (t, b)" by fastforce
    note mm = member_same_db [OF ok True m]
    have r: "smoveCommand E S src dst ele = Some (set_key src t S, IntReply (if b then 1 else 0))"
      using hs(1) same m by (simp add: smoveCommand_def)
    have "db_inv E (set_key src t S)"
      using inv same_db_ok [OF ok mm(1)] same_db_key_set [OF mm(1)] same_db_has_set [OF mm(1)] by (simp add: db_inv_def)
    then show ?thesis using r mm(2) same same_db_key_set [OF mm(1)] by (auto simp: set_key_def insert_absorb)
  next
    case ne: False
    obtain t b where r: "setTypeRemove E (set_at S src) ele = (t, b)" by fastforce
    note rm = setTypeRemove_ok [OF hs(2), of ele, unfolded r fst_conv snd_conv hs(3)]
    show ?thesis
    proof (cases b)
      case False
      then have ms: "members t = key_set S src" using rm by simp
      have sd: "same_db E S (set_key src t S)" using rm ms by (intro same_db_set_key [OF ok True]) simp_all
      have "smoveCommand E S src dst ele = Some (set_key src t S, IntReply 0)"
        using hs(1) ne r False dst_case by (auto simp: smoveCommand_def)
      moreover have "db_inv E (set_key src t S)"
        using inv same_db_ok [OF ok sd] same_db_key_set [OF sd] same_db_has_set [OF sd] by (simp add: db_inv_def)
      ultimately show ?thesis using False rm ne same_db_key_set [OF sd] by (auto simp: set_key_def)
    next
      case b: True
      define d0 where "d0 = (case keyspace S dst of Some (SetVal d) \<Rightarrow> d | _ \<Rightarrow> setTypeCreate ele)"
      have d0: "set_ok E d0" "members d0 = key_set S dst"
        using ok no by (auto simp: d0_def no_other_def has_set_def db_ok_def key_set_def setTypeCreate_ok split: option.splits)
      obtain d1 where d1: "setTypeAdd E d0 ele = Some (d1, ele \<notin> members d0)" "set_ok E d1"
        "members d1 = insert ele (members d0)" using setTypeAdd_ok [OF d0(1)] sm d0(2) by metis
      have sz: "setTypeSize t = 0 \<longleftrightarrow> members t = {}" using setTypeSize_card [of E t] rm finite_members [of t] by (metis card_0_eq)
      have "\<exists>S1. smoveCommand E S src dst ele = Some (S1, IntReply 1) \<and>
        keyspace S1 = (if members t = {} then (keyspace S)(src := None, dst \<mapsto> SetVal d1)
           else (keyspace S)(src \<mapsto> SetVal t, dst \<mapsto> SetVal d1))"
        using hs(1) ne r b d1(1) sz dst_case
        by (cases "members t = {}"; cases "ele \<in> members d0")
          (auto simp: smoveCommand_def d0_def Let_def set_key_def del_key_def log_events_def add_dirty_def)
      then obtain S1 where S1: "smoveCommand E S src dst ele = Some (S1, IntReply 1)"
        "keyspace S1 = (if members t = {} then (keyspace S)(src := None, dst \<mapsto> SetVal d1)
           else (keyspace S)(src \<mapsto> SetVal t, dst \<mapsto> SetVal d1))" by blast
      have k: "key_set S1 src = members t" "key_set S1 dst = members d1"
        "k \<noteq> src \<Longrightarrow> k \<noteq> dst \<Longrightarrow> keyspace S1 k = keyspace S k" for k
        using ne by (auto simp: key_set_def S1(2))
      have "db_inv E S1"
        unfolding db_inv_def
      proof (intro conjI allI impI)
        show "db_ok E S1" using ok rm d1(2) by (auto simp: db_ok_def S1(2))
        fix k
        assume h: "has_set S1 k"
        show "key_set S1 k \<noteq> {}"
          using h k inv d1(3) ne by (cases "k = src"; cases "k = dst") (auto simp: db_inv_def has_set_def key_set_def S1(2) split: if_splits)
      qed
      then show ?thesis using S1(1) k rm d1(3) d0(2) ne b by auto
    qed
  qed
qed

end
