(* ===== verification/Set_Server.thy ===== *)
theory Set_Server
  imports Set_Commands
begin

text \<open>
  The properties of the set commands, and the states a server reaches by executing them.
\<close>

section \<open>Example\<close>

text \<open>A small server for the examples below: the sets \<open>{3, 7}\<close> and \<open>{7, 9}\<close>.\<close>

definition ex_server :: "unit server" where
  "ex_server = \<lparr>keyspace = [[1] \<mapsto> SetVal (IntsetObj \<lparr>encoding = 2, len = 2, contents = [3, 0, 7, 0]\<rparr>),
     [2] \<mapsto> SetVal (IntsetObj \<lparr>encoding = 2, len = 2, contents = [7, 0, 9, 0]\<rparr>)], dirty = 0, events = []\<rparr>"

lemma ex_intsets:
  "elems \<lparr>encoding = 2, len = 2, contents = [3, 0, 7, 0]\<rparr> = [3, 7]"
  "elems \<lparr>encoding = 2, len = 2, contents = [7, 0, 9, 0]\<rparr> = [7, 9]"
  by code_simp+

lemma ex_server_sets:
  "key_set ex_server [1] = {sdec 3, sdec 7}" "key_set ex_server [2] = {sdec 7, sdec 9}" "key_set ex_server [3] = {}"
  by (simp_all add: key_set_def ex_server_def members_def ex_intsets)

lemma ex_server_ok: "db_ok ex_env ex_server" "no_other ex_server [[1], [2]]" "has_set ex_server [1]" "has_set ex_server [2]"
  using ex_intsets
  by (auto simp: db_ok_def ex_server_def set_ok_def intset_ok_def enc_ok_def no_other_def has_set_def split: if_splits)

lemma ex_server_inv: "db_inv ex_env ex_server"
  unfolding db_inv_def
proof (intro conjI allI impI ex_server_ok(1))
  fix k
  assume "has_set ex_server k"
  then show "key_set ex_server k \<noteq> {}"
    by (auto simp: has_set_def ex_server_def key_set_def members_def ex_intsets split: if_splits)
qed

lemma ex_sdec: "sdec 3 \<noteq> sdec 7" "sdec 3 \<noteq> sdec 9" "sdec 7 \<noteq> sdec 9"
  by code_simp+

lemma ex_inter: "(\<Inter>k \<in> set [[1], [2]]. key_set ex_server k) = {sdec 7}"
  using ex_sdec by (auto simp: ex_server_sets)

text \<open>
  Claim C18. \<^verbatim>\<open>SINTER\<close> replies with every element of the intersection exactly once and with its true size,
  whatever the encodings and sizes of the sets and also when keys are missing or repeated, and
  leaves the keyspace as it was up to the representation of its sets.
\<close>

theorem sinter_computes_intersection:
  assumes "db_ok E S" "keys \<noteq> []" "no_other S keys"
  shows "\<exists>S1 xs. sinterCommand E S keys = Some (S1, SetReply (length xs) xs) \<and> distinct xs \<and>
    set xs = (\<Inter>k \<in> set keys. key_set S k) \<and> same_db E S S1"
proof (cases "\<forall>k \<in> set keys. has_set S k")
  case False
  from sinter_missing [OF assms(3) False] show ?thesis
    by (auto simp: sinterCommand_def sinterGenericCommand_def)
next
  case True
  obtain k0 ks es where st: "lookup_sets S keys = Some (map Some keys)"
    "sort_key (key_size S) keys = k0 # ks" "set_elements (set_at S k0) = Some es"
    "loop_ok E S ks es" "distinct (map ele_sds es)"
    "set (filter (in_others S k0 ks) (map ele_sds es)) = (\<Inter>k \<in> set keys. key_set S k)"
    by (rule sinter_start [OF assms(1,2) True])
  let ?xs = "filter (in_others S k0 ks) (map ele_sds es)"
  obtain S1 where "sinter_loop E Members k0 ks es (S, createIntsetObject, [], 0) =
      Some (S1, createIntsetObject, ?xs, length ?xs)" "same_db E S S1"
    using sinter_loop_members [OF st(4), of k0 createIntsetObject "[]" 0] by auto
  then have "sinterCommand E S keys = Some (S1, SetReply (length ?xs) ?xs)"
    using st(1-3) by (simp add: sinterCommand_def sinterGenericCommand_def comp_def)
  moreover have "distinct ?xs" by (rule distinct_filter [OF st(5)])
  ultimately show ?thesis using st(6) \<open>same_db E S S1\<close> by blast
qed

theorem sinter_computes_intersection_witness:
  "\<exists>S1 xs. sinterCommand ex_env ex_server [[1], [2]] = Some (S1, SetReply (length xs) xs) \<and> set xs = {sdec 7}"
  using sinter_computes_intersection [OF ex_server_ok(1) _ ex_server_ok(2)] unfolding ex_inter by blast

text \<open>
  \<^verbatim>\<open>SINTERCARD\<close> replies with the size of the intersection, cut off at the limit when one is given.
\<close>

lemma sintercard_correct:
  assumes "db_ok E S" "keys \<noteq> []" "no_other S keys"
  shows "\<exists>S1. sinterGenericCommand E S keys (Card limit) =
    Some (S1, IntReply (int (if limit = 0 then card (\<Inter>k \<in> set keys. key_set S k)
                             else min limit (card (\<Inter>k \<in> set keys. key_set S k))))) \<and> same_db E S S1"
proof (cases "\<forall>k \<in> set keys. has_set S k")
  case False
  from sinter_missing [OF assms(3) False] show ?thesis by (auto simp: sinterGenericCommand_def)
next
  case True
  obtain k0 ks es where st: "lookup_sets S keys = Some (map Some keys)"
    "sort_key (key_size S) keys = k0 # ks" "set_elements (set_at S k0) = Some es"
    "loop_ok E S ks es" "distinct (map ele_sds es)"
    "set (filter (in_others S k0 ks) (map ele_sds es)) = (\<Inter>k \<in> set keys. key_set S k)"
    by (rule sinter_start [OF assms(1,2) True])
  let ?xs = "filter (in_others S k0 ks) (map ele_sds es)"
  have "length ?xs = card (\<Inter>k \<in> set keys. key_set S k)"
    using distinct_card [OF distinct_filter [OF st(5)]] st(6) by metis
  then show ?thesis
    using st(1-3) sinter_loop_card [OF st(4), of limit 0 k0 createIntsetObject "[]"]
    by (auto simp: sinterGenericCommand_def comp_def Let_def)
qed

text \<open>
  Claim C19. \<^verbatim>\<open>SUNION\<close> and \<^verbatim>\<open>SDIFF\<close> reply with every element of the union, or of the difference of the first
  set and the others, exactly once; for \<^verbatim>\<open>SDIFF\<close> it makes no difference which of its two algorithms
  the estimate of their cost selects.
\<close>

theorem sunion_sdiff_reply:
  assumes "db_ok E S" "keys \<noteq> []" "no_other S keys" "(\<Sum>k \<leftarrow> keys. card (key_set S k)) < 2 ^ 29 - 1"
  shows "\<exists>S1 xs. sunionDiffGenericCommand E S keys None op = Some (S1, SetReply (length xs) xs) \<and> distinct xs \<and>
    set xs = op_result op S keys \<and> same_db E S S1"
proof -
  obtain S1 d where c: "op_compute E S (map (\<lambda>k. if has_set S k then Some k else None) keys) op = Some (S1, d, card (members d))"
    "same_db E S S1" "set_ok E d" "members d = op_result op S keys" using op_compute_ok [OF assms] by blast
  obtain es where es: "set_elements d = Some es" "ele_sds ` set es = members d" "distinct (map ele_sds es)"
    by (rule set_elements_spec [OF c(3)])
  have "card (members d) = length (map ele_sds es)" using distinct_card [OF es(3)] es(2) by simp
  then have "sunionDiffGenericCommand E S keys None op =
      Some (S1, SetReply (length (map ele_sds es)) (map ele_sds es))"
    using sunionDiff_unfold [OF assms(3) c(1)] es(1) by simp
  then show ?thesis using es(2,3) c(2,4) by (metis list.set_map)
qed

theorem sunion_sdiff_reply_witness:
  "\<exists>S1 xs. sunionDiffGenericCommand ex_env ex_server [[1], [2]] None SET_OP_DIFF = Some (S1, SetReply (length xs) xs) \<and>
     set xs = {sdec 3}"
proof -
  have "op_result SET_OP_DIFF ex_server [[1], [2]] = {sdec 3}" using ex_sdec by (auto simp: ex_server_sets)
  moreover have "(\<Sum>k \<leftarrow> [[1], [2]]. card (key_set ex_server k)) < 2 ^ 29 - 1"
    using ex_sdec by (simp add: ex_server_sets)
  ultimately show ?thesis
    using sunion_sdiff_reply [OF ex_server_ok(1) _ ex_server_ok(2), of SET_OP_DIFF] by auto
qed

text \<open>
  Claim C32. \<^verbatim>\<open>SUNIONSTORE\<close> and \<^verbatim>\<open>SDIFFSTORE\<close> make the destination key the union or the difference, delete it
  when that is empty, reply with the number of elements, and change no other key; the destination
  may be one of the source keys.
\<close>

theorem sunion_sdiff_store:
  assumes "db_ok E S" "keys \<noteq> []" "no_other S keys" "(\<Sum>k \<leftarrow> keys. card (key_set S k)) < 2 ^ 29 - 1"
  shows "\<exists>S1. sunionDiffGenericCommand E S keys (Some dk) op = Some (S1, IntReply (int (card (op_result op S keys)))) \<and>
    db_ok E S1 \<and> key_set S1 dk = op_result op S keys \<and> (op_result op S keys = {} \<longrightarrow> keyspace S1 dk = None) \<and>
    (\<forall>k. k \<noteq> dk \<longrightarrow> same_obj E (keyspace S k) (keyspace S1 k))"
proof -
  obtain S1 d where c: "op_compute E S (map (\<lambda>k. if has_set S k then Some k else None) keys) op = Some (S1, d, card (members d))"
    "same_db E S S1" "set_ok E d" "members d = op_result op S keys" using op_compute_ok [OF assms] by blast
  obtain S2 r where s: "store_result S1 dk d (if op = SET_OP_UNION then ''sunionstore'' else ''sdiffstore'') = (S2, r)"
    by fastforce
  note sp = store_result_spec [OF same_db_ok [OF assms(1) c(2)] c(3) s]
  have "sunionDiffGenericCommand E S keys (Some dk) op = Some (S2, r)"
    using sunionDiff_unfold [OF assms(3) c(1), of "Some dk"] s by simp
  then show ?thesis using sp c(2,4) by (auto simp: same_db_def)
qed

theorem sunion_sdiff_store_witness:
  "\<exists>S1. sunionDiffGenericCommand ex_env ex_server [[1], [2]] (Some [1]) SET_OP_UNION = Some (S1, IntReply 3) \<and>
     key_set S1 [1] = {sdec 3, sdec 7, sdec 9}"
proof -
  have r: "op_result SET_OP_UNION ex_server [[1], [2]] = {sdec 3, sdec 7, sdec 9}" by (auto simp: ex_server_sets)
  have "(\<Sum>k \<leftarrow> [[1], [2]]. card (key_set ex_server k)) < 2 ^ 29 - 1"
    using ex_sdec by (simp add: ex_server_sets)
  from sunion_sdiff_store [OF ex_server_ok(1) _ ex_server_ok(2) this, of "[1]" SET_OP_UNION]
  show ?thesis unfolding r using ex_sdec by auto
qed

text \<open>
  \<^verbatim>\<open>SINTERSTORE\<close> makes the destination key the intersection of the sets, with the same guarantees.
\<close>

lemma sinterstore_correct:
  assumes "db_ok E S" "keys \<noteq> []" "no_other S keys" "\<forall>k \<in> set keys. card (key_set S k) < 2 ^ 29 - 1"
  shows "\<exists>S1. sinterstoreCommand E S dk keys = Some (S1, IntReply (int (card (\<Inter>k \<in> set keys. key_set S k)))) \<and>
    db_ok E S1 \<and> key_set S1 dk = (\<Inter>k \<in> set keys. key_set S k) \<and>
    ((\<Inter>k \<in> set keys. key_set S k) = {} \<longrightarrow> keyspace S1 dk = None) \<and>
    (\<forall>k. k \<noteq> dk \<longrightarrow> same_obj E (keyspace S k) (keyspace S1 k))"
proof (cases "\<forall>k \<in> set keys. has_set S k")
  case False
  from sinter_missing [OF assms(3) False] assms(1) show ?thesis
    by (auto simp: sinterstoreCommand_def sinterGenericCommand_def add_dirty_def log_events_def del_key_def
        key_set_def same_obj_def db_ok_def)
next
  case True
  obtain k0 ks es where st: "lookup_sets S keys = Some (map Some keys)"
    "sort_key (key_size S) keys = k0 # ks" "set_elements (set_at S k0) = Some es"
    "loop_ok E S ks es" "length es = card (key_set S k0)" "k0 \<in> set keys"
    "set (filter (in_others S k0 ks) (map ele_sds es)) = (\<Inter>k \<in> set keys. key_set S k)"
    by (rule sinter_start [OF assms(1,2) True])
  have lt: "card (members createIntsetObject) + length es < 2 ^ 29"
    using assms(4) st(5,6) by (auto simp: createIntsetObject_ok)
  obtain S1 d n where l: "sinter_loop E (Store dk) k0 ks es (S, createIntsetObject, [], 0) = Some (S1, d, [], n)"
    "same_db E S S1" "set_ok E d" "members d = (\<Inter>k \<in> set keys. key_set S k)"
    using sinter_loop_store [OF st(4) createIntsetObject_ok(1) lt, of dk k0 "[]" 0]
    unfolding st(7) createIntsetObject_ok(2) Un_empty_left by blast
  obtain S2 r where s: "store_result S1 dk d ''sinterstore'' = (S2, r)" by fastforce
  note sp = store_result_spec [OF same_db_ok [OF assms(1) l(2)] l(3) s]
  have "sinterstoreCommand E S dk keys = Some (S2, r)"
    using st(1-3) l(1) s by (simp add: sinterstoreCommand_def sinterGenericCommand_def comp_def)
  then show ?thesis using sp l(2,4) by (auto simp: same_db_def)
qed

text \<open>
  Claim C33. \<^verbatim>\<open>SADD\<close> adds exactly the given elements and replies with the number of new ones; \<^verbatim>\<open>SREM\<close> removes
  exactly the given ones, replies with the number that were there, and deletes the key when, and
  only when, nothing is left. Neither touches another key, and both refuse a key of another type.
\<close>

theorem sadd_srem_correct:
  assumes inv: "db_inv E S" and sm: "card (key_set S key) + length vals < 2 ^ 29"
  shows "(if \<exists>x. keyspace S key = Some (OtherVal x)
    then saddCommand E S key vals = Some (S, WrongType) \<and> sremCommand E S key vals = (S, WrongType)
    else
      (\<exists>S1. saddCommand E S key vals = Some (S1, IntReply (int (card (set vals - key_set S key)))) \<and>
         key_set S1 key = key_set S key \<union> set vals \<and> (\<forall>k. k \<noteq> key \<longrightarrow> keyspace S1 k = keyspace S k)) \<and>
      (\<exists>S1. sremCommand E S key vals = (S1, IntReply (int (card (key_set S key \<inter> set vals)))) \<and>
         key_set S1 key = key_set S key - set vals \<and> (keyspace S1 key = None \<longleftrightarrow> key_set S key \<subseteq> set vals) \<and>
         (\<forall>k. k \<noteq> key \<longrightarrow> keyspace S1 k = keyspace S k)))"
proof (cases "\<exists>x. keyspace S key = Some (OtherVal x)")
  case True
  then show ?thesis by (auto simp: saddCommand_def sremCommand_def)
next
  case False
  then have no: "no_other S [key]" by (cases rule: key_cases [of S key]) (auto simp: no_other_def)
  show ?thesis unfolding if_not_P [OF False] using sadd_ok [OF inv no sm] srem_ok [OF inv no, of vals]
    by (auto simp: key_set_def)
qed

theorem sadd_srem_correct_witness:
  "\<exists>S1. saddCommand ex_env ex_server [1] [sdec 7, sdec 9] = Some (S1, IntReply 1) \<and>
     key_set S1 [1] = {sdec 3, sdec 7, sdec 9}"
proof -
  have "card (set [sdec 7, sdec 9] - key_set ex_server [1]) = 1"
    using ex_sdec by (simp add: ex_server_sets insert_Diff_if)
  moreover have "key_set ex_server [1] \<union> set [sdec 7, sdec 9] = {sdec 3, sdec 7, sdec 9}" by (auto simp: ex_server_sets)
  moreover have "\<nexists>x. keyspace ex_server [1] = Some (OtherVal x)" by (simp add: ex_server_def)
  moreover have "card (key_set ex_server [1]) + length [sdec 7, sdec 9] < 2 ^ 29" using ex_sdec by (simp add: ex_server_sets)
  ultimately show ?thesis using sadd_srem_correct [OF ex_server_inv, of "[1]" "[sdec 7, sdec 9]"] by auto
qed

text \<open>
  \<^verbatim>\<open>SMOVE\<close> moves an element from one set to another in one step, creating the destination and
  deleting an emptied source as needed; it replies 1 exactly when the element was in the source,
  otherwise no set changes, and moving within one set changes nothing. With a value of another type
  at one of the keys it does nothing.
\<close>

lemma smove_correct:
  assumes inv: "db_inv E S" and sm: "card (key_set S dst) < 2 ^ 29 - 1"
  shows "if keyspace S src = None then smoveCommand E S src dst ele = Some (S, IntReply 0)
    else if no_other S [src, dst] then
      \<exists>S1. smoveCommand E S src dst ele = Some (S1, IntReply (if ele \<in> key_set S src then 1 else 0)) \<and>
        (\<forall>k. k \<noteq> src \<and> k \<noteq> dst \<longrightarrow> keyspace S1 k = keyspace S k) \<and>
        key_set S1 src = (if src = dst then key_set S src else key_set S src - {ele}) \<and>
        key_set S1 dst = (if ele \<in> key_set S src then insert ele (key_set S dst) else key_set S dst)
    else smoveCommand E S src dst ele = Some (S, WrongType)"
proof (cases "no_other S [src, dst]")
  case True
  then show ?thesis using smove_ok [OF inv True sm, of ele] by (auto simp: smoveCommand_def)
next
  case False
  then show ?thesis
    by (cases rule: key_cases [of S src]; cases rule: key_cases [of S dst]) (auto simp: no_other_def smoveCommand_def)
qed

section \<open>Reachable states\<close>

datatype set_cmd = SADD sds "sds list" | SREM sds "sds list" | SMOVE sds sds sds | SISMEMBER sds sds
  | SMISMEMBER sds "sds list" | SCARD sds | SINTER "sds list" | SINTERCARD nat "sds list" | SINTERSTORE sds "sds list"
  | SUNION "sds list" | SUNIONSTORE sds "sds list" | SDIFF "sds list" | SDIFFSTORE sds "sds list"

fun set_command :: "set_env \<Rightarrow> 'x server \<Rightarrow> set_cmd \<Rightarrow> ('x server \<times> reply) option" where
  "set_command E S (SADD k vs) = saddCommand E S k vs"
| "set_command E S (SREM k vs) = Some (sremCommand E S k vs)"
| "set_command E S (SMOVE src dst v) = smoveCommand E S src dst v"
| "set_command E S (SISMEMBER k v) = Some (sismemberCommand E S k v)"
| "set_command E S (SMISMEMBER k vs) = Some (smismemberCommand E S k vs)"
| "set_command E S (SCARD k) = Some (scardCommand S k)"
| "set_command E S (SINTER ks) = sinterCommand E S ks"
| "set_command E S (SINTERCARD limit ks) = sinterGenericCommand E S ks (Card limit)"
| "set_command E S (SINTERSTORE dst ks) = sinterstoreCommand E S dst ks"
| "set_command E S (SUNION ks) = sunionCommand E S ks"
| "set_command E S (SUNIONSTORE dst ks) = sunionstoreCommand E S dst ks"
| "set_command E S (SDIFF ks) = sdiffCommand E S ks"
| "set_command E S (SDIFFSTORE dst ks) = sdiffstoreCommand E S dst ks"

text \<open>
  The arity of the commands, and a bound on the sizes involved: the integer set counts its elements
  in 32 bits and its bytes in 32 bits.
\<close>

definition total_size :: "'x server \<Rightarrow> sds list \<Rightarrow> nat" where
  "total_size S ks = (\<Sum>k \<leftarrow> ks. card (key_set S k))"

fun cmd_ok :: "'x server \<Rightarrow> set_cmd \<Rightarrow> bool" where
  "cmd_ok S (SADD k vs) \<longleftrightarrow> vs \<noteq> [] \<and> card (key_set S k) + length vs < 2 ^ 29"
| "cmd_ok S (SMOVE src dst v) \<longleftrightarrow> card (key_set S dst) < 2 ^ 29 - 1"
| "cmd_ok S (SINTER ks) \<longleftrightarrow> ks \<noteq> []"
| "cmd_ok S (SINTERCARD limit ks) \<longleftrightarrow> ks \<noteq> []"
| "cmd_ok S (SINTERSTORE dst ks) \<longleftrightarrow> ks \<noteq> [] \<and> total_size S ks < 2 ^ 29 - 1"
| "cmd_ok S (SUNION ks) \<longleftrightarrow> ks \<noteq> [] \<and> total_size S ks < 2 ^ 29 - 1"
| "cmd_ok S (SUNIONSTORE dst ks) \<longleftrightarrow> ks \<noteq> [] \<and> total_size S ks < 2 ^ 29 - 1"
| "cmd_ok S (SDIFF ks) \<longleftrightarrow> ks \<noteq> [] \<and> total_size S ks < 2 ^ 29 - 1"
| "cmd_ok S (SDIFFSTORE dst ks) \<longleftrightarrow> ks \<noteq> [] \<and> total_size S ks < 2 ^ 29 - 1"
| "cmd_ok S c \<longleftrightarrow> True"

inductive reaches :: "set_env \<Rightarrow> 'x server \<Rightarrow> 'x server \<Rightarrow> bool" for E S0 where
  start: "reaches E S0 S0"
| step: "reaches E S0 S \<Longrightarrow> cmd_ok S c \<Longrightarrow> set_command E S c = Some (S1, r) \<Longrightarrow> reaches E S0 S1"

subsection \<open>Every command keeps the invariant\<close>

definition keeps :: "set_env \<Rightarrow> ('x server \<times> reply) option \<Rightarrow> bool" where
  "keeps E res \<longleftrightarrow> (\<exists>S1 r. res = Some (S1, r) \<and> db_inv E S1)"

lemma keeps_returns: "keeps E res \<Longrightarrow> res \<noteq> None"
  by (auto simp: keeps_def)

lemma not_no_other: "\<not> no_other S keys \<Longrightarrow> lookup_sets S keys = None"
  unfolding lookup_sets_None no_other_def has_set_def by (metis option.exhaust robj.exhaust)

lemma no_other_single: "no_other S [k] \<or> (\<exists>x. keyspace S k = Some (OtherVal x))"
  by (cases rule: key_cases [of S k]) (auto simp: no_other_def)

lemma key_le_total: "k \<in> set ks \<Longrightarrow> card (key_set S k) \<le> total_size S ks"
  unfolding total_size_def by (induction ks) auto

lemma store_result_inv:
  assumes "db_inv E S" "set_ok E d"
  shows "keeps E (Some (store_result S dk d name))"
proof -
  have ok: "db_ok E S" using assms(1) by (simp add: db_inv_def)
  obtain S1 r where s: "store_result S dk d name = (S1, r)" by fastforce
  note sp = store_result_spec [OF ok assms(2) s]
  have "key_set S1 k \<noteq> {}" if "has_set S1 k" for k
    using that sp(2,3,5) assms(1) by (cases "k = dk") (auto simp: has_set_def db_inv_def key_set_def)
  then show ?thesis using sp(1) s by (simp add: keeps_def db_inv_def)
qed

lemma sunionDiff_keeps:
  assumes "db_inv E S" "keys \<noteq> []" "total_size S keys < 2 ^ 29 - 1"
  shows "keeps E (sunionDiffGenericCommand E S keys dstkey op)"
proof (cases "no_other S keys")
  case False
  then show ?thesis using assms(1) not_no_other [OF False] by (simp add: keeps_def sunionDiffGenericCommand_def)
next
  case True
  have ok: "db_ok E S" using assms(1) by (simp add: db_inv_def)
  obtain S1 d where c: "op_compute E S (map (\<lambda>k. if has_set S k then Some k else None) keys) op = Some (S1, d, card (members d))"
    "same_db E S S1" "set_ok E d"
    using op_compute_ok [OF ok assms(2) True, of op] assms(3) by (auto simp: total_size_def)
  have inv: "db_inv E S1" by (rule same_db_inv [OF assms(1) c(2)])
  obtain es where "set_elements d = Some es" by (rule set_elements_spec [OF c(3)])
  then show ?thesis unfolding sunionDiff_unfold [OF True c(1)]
    using inv store_result_inv [OF inv c(3)] by (auto simp: keeps_def split: option.splits)
qed

lemma sinter_keeps:
  assumes "db_inv E S" "keys \<noteq> []" "(\<exists>dk. mode = Store dk) \<longrightarrow> total_size S keys < 2 ^ 29 - 1"
  shows "keeps E (sinterGenericCommand E S keys mode)"
proof (cases "no_other S keys")
  case False
  then show ?thesis using assms(1) not_no_other [OF False] by (simp add: keeps_def sinterGenericCommand_def)
next
  case no: True
  show ?thesis
  proof (cases "\<forall>k \<in> set keys. has_set S k")
    case False
    have "db_inv E (add_dirty 1 (log_events evs (del_key dk S)))" for evs dk
      by (rule drop_key_inv [OF assms(1), of _ dk]) (simp add: add_dirty_def log_events_def del_key_def)
    then show ?thesis using sinter_missing(1) [OF no False] assms(1)
      by (auto simp: keeps_def sinterGenericCommand_def split: sinter_mode.splits)
  next
    case True
    have ok: "db_ok E S" using assms(1) by (simp add: db_inv_def)
    obtain k0 ks es where st: "lookup_sets S keys = Some (map Some keys)"
      "sort_key (key_size S) keys = k0 # ks" "set_elements (set_at S k0) = Some es"
      "loop_ok E S ks es" "length es = card (key_set S k0)" "k0 \<in> set keys"
      by (rule sinter_start [OF ok assms(2) True])
    have u: "sinterGenericCommand E S keys mode =
      (case sinter_loop E mode k0 ks es (S, createIntsetObject, [], 0) of
         None \<Rightarrow> None
       | Some (S1, dst, out, crd) \<Rightarrow>
           (case mode of
              Card limit \<Rightarrow> Some (S1, IntReply (int crd))
            | Store dk \<Rightarrow> Some (store_result S1 dk dst ''sinterstore'')
            | Members \<Rightarrow> Some (S1, SetReply crd out)))"
      using st(1-3) by (simp add: sinterGenericCommand_def comp_def)
    show ?thesis
    proof (cases mode)
      case Members
      then show ?thesis unfolding u using sinter_loop_members [OF st(4), of k0 createIntsetObject "[]" 0] same_db_inv [OF assms(1)]
        by (auto simp: keeps_def)
    next
      case (Card limit)
      have "limit = 0 \<or> 0 < limit" by auto
      from sinter_loop_card [OF st(4) this, of k0 createIntsetObject "[]"] show ?thesis
        unfolding u using Card same_db_inv [OF assms(1)] by (auto simp: keeps_def)
    next
      case (Store dk)
      have "card (members createIntsetObject) + length es < 2 ^ 29"
        using assms(3) Store key_le_total [OF st(6), of S] st(5) by (simp add: createIntsetObject_ok)
      from sinter_loop_store [OF st(4) createIntsetObject_ok(1) this, of dk k0 "[]" 0] obtain S1 d n where
        "sinter_loop E (Store dk) k0 ks es (S, createIntsetObject, [], 0) = Some (S1, d, [], n)"
        "same_db E S S1" "set_ok E d" by blast
      then show ?thesis unfolding u using store_result_inv [OF same_db_inv [OF assms(1)]] Store by simp
    qed
  qed
qed

lemma smismember_loop_ok:
  assumes "set_ok E s"
  shows "\<exists>s1. smismember_loop E s vs = (s1, map (\<lambda>v. if v \<in> members s then 1 else 0) vs) \<and> set_ok E s1 \<and>
    members s1 = members s"
  using assms
proof (induction vs arbitrary: s)
  case (Cons v vs)
  obtain s1 b where s1: "setTypeIsMember E s v = (s1, b)" by fastforce
  note m = setTypeIsMember_ok [OF Cons.prems, of v, unfolded s1 fst_conv snd_conv]
  then show ?case using Cons.IH [of s1] s1 by auto
qed simp

lemma single_key_keeps:
  assumes "db_inv E S" "vs \<noteq> []" "card (key_set S k) + length vs < 2 ^ 29"
  shows "keeps E (saddCommand E S k vs)"
  using no_other_single [of S k]
proof
  assume "no_other S [k]"
  from sadd_ok [OF assms(1) this assms(3)] obtain s1 S1 r where s1: "saddCommand E S k vs = Some (S1, r)"
    "keyspace S1 = (keyspace S)(k \<mapsto> SetVal s1)" "set_ok E s1" "members s1 = key_set S k \<union> set vs" by blast
  have "members s1 \<noteq> {}" using s1(4) assms(2) by simp
  then show ?thesis using put_set_inv [OF assms(1) s1(2,3)] s1(1) by (simp add: keeps_def)
qed (use assms(1) in \<open>auto simp: keeps_def saddCommand_def\<close>)

lemma lookup_keeps:
  assumes "db_inv E S"
  shows "keeps E (Some (sremCommand E S k vs))" "keeps E (Some (sismemberCommand E S k v))"
    "keeps E (Some (smismemberCommand E S k vs))" "keeps E (Some (scardCommand S k))"
proof -
  show "keeps E (Some (sremCommand E S k vs))"
    using no_other_single [of S k] srem_ok [OF assms, of k vs] assms by (auto simp: keeps_def sremCommand_def)
  show "keeps E (Some (scardCommand S k))"
    using assms by (auto simp: keeps_def scardCommand_def split: option.splits robj.splits)
  have put: "db_inv E (set_key k s1 S)" if "keyspace S k = Some (SetVal s)" "set_ok E s1" "members s1 = members s" for s s1
  proof (rule put_set_inv [OF assms _ that(2)])
    show "members s1 \<noteq> {}" using assms that by (auto simp: db_inv_def has_set_def key_set_def)
  qed (simp add: set_key_def)
  have ok: "set_ok E s" if "keyspace S k = Some (SetVal s)" for s using assms that by (auto simp: db_inv_def db_ok_def)
  show "keeps E (Some (sismemberCommand E S k v))"
    using assms put setTypeIsMember_ok [OF ok, of _ v]
    by (auto simp: keeps_def sismemberCommand_def split: option.splits robj.splits prod.splits)
  show "keeps E (Some (smismemberCommand E S k vs))"
    using assms put smismember_loop_ok [OF ok, of _ vs]
    by (fastforce simp: keeps_def smismemberCommand_def split: option.splits robj.splits prod.splits)
qed

lemma smove_keeps:
  assumes "db_inv E S" "card (key_set S dst) < 2 ^ 29 - 1"
  shows "keeps E (smoveCommand E S src dst v)"
proof (cases "no_other S [src, dst]")
  case True
  then show ?thesis using smove_ok [OF assms(1) True assms(2), of v] by (auto simp: keeps_def)
next
  case False
  then show ?thesis using assms(1)
    by (cases rule: key_cases [of S src]; cases rule: key_cases [of S dst])
      (auto simp: no_other_def smoveCommand_def keeps_def)
qed

lemma set_command_keeps: "db_inv E S \<Longrightarrow> cmd_ok S c \<Longrightarrow> keeps E (set_command E S c)"
  by (cases c) (simp_all add: single_key_keeps lookup_keeps smove_keeps sinterCommand_def sinterstoreCommand_def
      sunionCommand_def sunionstoreCommand_def sdiffCommand_def sdiffstoreCommand_def sunionDiff_keeps sinter_keeps)

text \<open>
  In every state a server reaches by set commands, every set is well-formed and no key
  holds an empty set, and every set command of legal size returns: no assertion fails, no panic is
  reached and no loop fails to end.
\<close>

lemma set_commands_invariant:
  assumes "db_inv E S0" "reaches E S0 S"
  shows "db_inv E S \<and> (\<forall>c. cmd_ok S c \<longrightarrow> set_command E S c \<noteq> None)"
  using assms(2)
proof (induction rule: reaches.induct)
  case start
  then show ?case using assms(1) set_command_keeps [OF assms(1)] keeps_returns by blast
next
  case (step S c S1 r)
  then have "db_inv E S1" using set_command_keeps [of E S c] by (simp add: keeps_def)
  then show ?case using set_command_keeps [of E S1] keeps_returns by blast
qed

end
