(* ===== verification/Listpack.thy ===== *)
theory Listpack
  imports Decimal
begin

text \<open>
  The listpack of \<^verbatim>\<open>listpack.c\<close>: a list of strings and integers in one buffer, every element
  followed by its length, written so that it can be read backwards.

  A listpack is the list of its bytes; the slack that the allocator may add behind them is not
  part of it, so \<^verbatim>\<open>lp_realloc\<close> and \<^verbatim>\<open>lpShrinkToFit\<close> set the size. A pointer into it is an offset, \<^verbatim>\<open>NULL\<close>
  is \<open>None\<close>. A read outside the buffer, which C leaves undefined, gives 0. An assertion that fails
  is \<open>None\<close>, or \<open>Abort\<close> where the function can also return \<^verbatim>\<open>NULL\<close> for lack of space. An \<^verbatim>\<open>or\<close> of disjoint bits
  is a sum. \<^verbatim>\<open>lpCurrentEncodedSizeUnsafe\<close> and the replaced length keep their 32 bits.

  This theory has the model and the facts on single elements; lists of elements are the subject of
  \<open>Listpack_List\<close>.
\<close>

section \<open>Model of listpack.c\<close>

definition rd :: "byte list \<Rightarrow> nat \<Rightarrow> byte" where
  "rd m i = (if i < length m then m ! i else 0)"

definition LP_HDR_SIZE :: nat where "LP_HDR_SIZE = 6"
definition LP_HDR_NUMELE_UNKNOWN :: nat where "LP_HDR_NUMELE_UNKNOWN = 65535"
definition LP_EOF :: byte where "LP_EOF = 0xFF"
definition UINT32_MAX :: nat where "UINT32_MAX = 2 ^ 32 - 1"
definition UINT64_MAX :: nat where "UINT64_MAX = 2 ^ 64 - 1"
definition LISTPACK_MAX_SAFETY_SIZE :: nat where "LISTPACK_MAX_SAFETY_SIZE = 2 ^ 30"

definition LP_ENCODING_IS_7BIT_UINT :: "byte \<Rightarrow> bool" where "LP_ENCODING_IS_7BIT_UINT b \<longleftrightarrow> b AND 0x80 = 0"
definition LP_ENCODING_IS_6BIT_STR :: "byte \<Rightarrow> bool" where "LP_ENCODING_IS_6BIT_STR b \<longleftrightarrow> b AND 0xC0 = 0x80"
definition LP_ENCODING_IS_13BIT_INT :: "byte \<Rightarrow> bool" where "LP_ENCODING_IS_13BIT_INT b \<longleftrightarrow> b AND 0xE0 = 0xC0"
definition LP_ENCODING_IS_12BIT_STR :: "byte \<Rightarrow> bool" where "LP_ENCODING_IS_12BIT_STR b \<longleftrightarrow> b AND 0xF0 = 0xE0"
definition LP_ENCODING_IS_16BIT_INT :: "byte \<Rightarrow> bool" where "LP_ENCODING_IS_16BIT_INT b \<longleftrightarrow> b AND 0xFF = 0xF1"
definition LP_ENCODING_IS_24BIT_INT :: "byte \<Rightarrow> bool" where "LP_ENCODING_IS_24BIT_INT b \<longleftrightarrow> b AND 0xFF = 0xF2"
definition LP_ENCODING_IS_32BIT_INT :: "byte \<Rightarrow> bool" where "LP_ENCODING_IS_32BIT_INT b \<longleftrightarrow> b AND 0xFF = 0xF3"
definition LP_ENCODING_IS_64BIT_INT :: "byte \<Rightarrow> bool" where "LP_ENCODING_IS_64BIT_INT b \<longleftrightarrow> b AND 0xFF = 0xF4"
definition LP_ENCODING_IS_32BIT_STR :: "byte \<Rightarrow> bool" where "LP_ENCODING_IS_32BIT_STR b \<longleftrightarrow> b AND 0xFF = 0xF0"

text \<open>The length of a string element from its first bytes; \<open>m\<close> is the memory from the element on.\<close>

definition LP_ENCODING_6BIT_STR_LEN :: "byte list \<Rightarrow> nat" where
  "LP_ENCODING_6BIT_STR_LEN m = unat (rd m 0 AND 0x3F)"

definition LP_ENCODING_12BIT_STR_LEN :: "byte list \<Rightarrow> nat" where
  "LP_ENCODING_12BIT_STR_LEN m = 256 * unat (rd m 0 AND 0xF) + unat (rd m 1)"

definition LP_ENCODING_32BIT_STR_LEN :: "byte list \<Rightarrow> nat" where
  "LP_ENCODING_32BIT_STR_LEN m =
     unat (rd m 1) + 2 ^ 8 * unat (rd m 2) + 2 ^ 16 * unat (rd m 3) + 2 ^ 24 * unat (rd m 4)"

text \<open>The header: the total number of bytes and the number of elements, little-endian.\<close>

definition lpGetTotalBytes :: "byte list \<Rightarrow> nat" where
  "lpGetTotalBytes lp = nat (get_le (read_at 0 4 lp))"

definition lpGetNumElements :: "byte list \<Rightarrow> nat" where
  "lpGetNumElements lp = nat (get_le (read_at 4 2 lp))"

definition lpSetTotalBytes :: "byte list \<Rightarrow> nat \<Rightarrow> byte list" where
  "lpSetTotalBytes lp v = write_at 0 (put_le 4 (int v)) lp"

definition lpSetNumElements :: "byte list \<Rightarrow> nat \<Rightarrow> byte list" where
  "lpSetNumElements lp v = write_at 4 (put_le 2 (int v)) lp"

definition lpBytes :: "byte list \<Rightarrow> nat" where
  "lpBytes lp = lpGetTotalBytes lp"

definition lpSafeToAdd :: "byte list option \<Rightarrow> nat \<Rightarrow> bool" where
  "lpSafeToAdd lp add =
     (let l = (case lp of None \<Rightarrow> 0 | Some b \<Rightarrow> lpGetTotalBytes b) in \<not> (l + add > LISTPACK_MAX_SAFETY_SIZE))"

subsection \<open>Encoding of one element\<close>

fun lpStringToInt64_loop :: "u64 \<Rightarrow> byte list \<Rightarrow> (u64 \<times> byte list) option" where
  "lpStringToInt64_loop v [] = Some (v, [])"
| "lpStringToInt64_loop v (c # p) =
     (if \<not> (c \<ge> ch CHR ''0'' \<and> c \<le> ch CHR ''9'') then Some (v, c # p)
      else if v > ULLONG_MAX div 10 then None
      else if v * 10 > ULLONG_MAX - ucast (c - ch CHR ''0'') then None
      else lpStringToInt64_loop (v * 10 + ucast (c - ch CHR ''0'')) p)"

definition lpStringToInt64 :: "byte list \<Rightarrow> int option" where
  "lpStringToInt64 s =
     (let slen = length s in
      if slen = 0 \<or> slen \<ge> LONG_STR_SIZE then None
      else if slen = 1 \<and> s ! 0 = ch CHR ''0'' then Some 0
      else
        (let negative = (s ! 0 = ch CHR ''-''); p = (if negative then tl s else s) in
         if p = [] then None
         else if \<not> (p ! 0 \<ge> ch CHR ''1'' \<and> p ! 0 \<le> ch CHR ''9'') then None
         else
           (case lpStringToInt64_loop (ucast (p ! 0 - ch CHR ''0'')) (tl p) of
              None \<Rightarrow> None
            | Some (v, rest) \<Rightarrow>
                (if rest \<noteq> [] then None
                 else if negative then
                   (if v > word_of_int (- (INT64_MIN + 1)) + 1 then None else Some (sint (- v)))
                 else (if v > word_of_int INT64_MAX then None else Some (sint v))))))"

text \<open>The bytes stored in \<^verbatim>\<open>intenc\<close>; \<^verbatim>\<open>*enclen\<close> is their number.\<close>

definition lpEncodeIntegerGetType :: "int \<Rightarrow> byte list" where
  "lpEncodeIntegerGetType v =
     (if 0 \<le> v \<and> v \<le> 127 then [word_of_int v]
      else if - 4096 \<le> v \<and> v \<le> 4095 then
        (let v = (if v < 0 then 2 ^ 13 + v else v) in [word_of_int (v div 2 ^ 8) + 0xC0, word_of_int v])
      else if - 32768 \<le> v \<and> v \<le> 32767 then
        (let v = (if v < 0 then 2 ^ 16 + v else v) in 0xF1 # put_le 2 v)
      else if - 8388608 \<le> v \<and> v \<le> 8388607 then
        (let v = (if v < 0 then 2 ^ 24 + v else v) in 0xF2 # put_le 3 v)
      else if - 2147483648 \<le> v \<and> v \<le> 2147483647 then
        (let v = (if v < 0 then 2 ^ 32 + v else v) in 0xF3 # put_le 4 v)
      else 0xF4 # put_le 8 v)"

text \<open>\<^verbatim>\<open>lpEncodeGetType\<close>: the integer encoding, if there is one, and the length of the encoding.\<close>

definition lpEncodeGetType :: "byte list \<Rightarrow> byte list option \<times> nat" where
  "lpEncodeGetType ele =
     (case lpStringToInt64 ele of
        Some v \<Rightarrow> (Some (lpEncodeIntegerGetType v), length (lpEncodeIntegerGetType v))
      | None \<Rightarrow>
          (None, if length ele < 64 then 1 + length ele
                 else if length ele < 4096 then 2 + length ele
                 else 5 + length ele))"

text \<open>\<^verbatim>\<open>lpEncodeBacklen\<close>: the bytes it stores; it returns their number, also for a null buffer.\<close>

definition lpEncodeBacklen :: "nat \<Rightarrow> byte list" where
  "lpEncodeBacklen l =
     (if l \<le> 127 then [of_nat l]
      else if l < 16383 then [of_nat (l div 2 ^ 7), of_nat (l mod 128 + 128)]
      else if l < 2097151 then [of_nat (l div 2 ^ 14), of_nat (l div 2 ^ 7 mod 128 + 128), of_nat (l mod 128 + 128)]
      else if l < 268435455 then
        [of_nat (l div 2 ^ 21), of_nat (l div 2 ^ 14 mod 128 + 128), of_nat (l div 2 ^ 7 mod 128 + 128),
         of_nat (l mod 128 + 128)]
      else
        [of_nat (l div 2 ^ 28), of_nat (l div 2 ^ 21 mod 128 + 128), of_nat (l div 2 ^ 14 mod 128 + 128),
         of_nat (l div 2 ^ 7 mod 128 + 128), of_nat (l mod 128 + 128)])"

text \<open>The loop of \<^verbatim>\<open>lpDecodeBacklen\<close>, from the byte at \<open>p\<close> towards lower addresses.\<close>

function lpDecodeBacklen_loop :: "byte list \<Rightarrow> nat \<Rightarrow> nat \<Rightarrow> nat \<Rightarrow> nat" where
  "lpDecodeBacklen_loop m p val shift =
     (let val1 = val + unat (rd m p AND 127) * 2 ^ shift in
      if rd m p AND 128 = 0 then val1
      else if shift + 7 > 28 then UINT64_MAX
      else lpDecodeBacklen_loop m (p - 1) val1 (shift + 7))"
  by pat_completeness auto
termination by (relation "measure (\<lambda>(m, p, v, s). 29 - s)") auto

declare lpDecodeBacklen_loop.simps [simp del]

definition lpDecodeBacklen :: "byte list \<Rightarrow> nat \<Rightarrow> nat" where
  "lpDecodeBacklen m p = lpDecodeBacklen_loop m p 0 0"

definition lpEncodeString :: "byte list \<Rightarrow> byte list" where
  "lpEncodeString s =
     (if length s < 64 then (of_nat (length s) + 0x80) # s
      else if length s < 4096 then (of_nat (length s div 2 ^ 8) + 0xE0) # of_nat (length s) # s
      else 0xF0 # put_le 4 (int (length s)) @ s)"

definition lpCurrentEncodedSizeUnsafe :: "byte list \<Rightarrow> nat" where
  "lpCurrentEncodedSizeUnsafe m =
     (let b = rd m 0 in
      if LP_ENCODING_IS_7BIT_UINT b then 1
      else if LP_ENCODING_IS_6BIT_STR b then 1 + LP_ENCODING_6BIT_STR_LEN m
      else if LP_ENCODING_IS_13BIT_INT b then 2
      else if LP_ENCODING_IS_16BIT_INT b then 3
      else if LP_ENCODING_IS_24BIT_INT b then 4
      else if LP_ENCODING_IS_32BIT_INT b then 5
      else if LP_ENCODING_IS_64BIT_INT b then 9
      else if LP_ENCODING_IS_12BIT_STR b then 2 + LP_ENCODING_12BIT_STR_LEN m
      else if LP_ENCODING_IS_32BIT_STR b then (5 + LP_ENCODING_32BIT_STR_LEN m) mod 2 ^ 32
      else if b = LP_EOF then 1
      else 0)"

definition lpCurrentEncodedSizeBytes :: "byte \<Rightarrow> nat" where
  "lpCurrentEncodedSizeBytes b =
     (if LP_ENCODING_IS_7BIT_UINT b then 1
      else if LP_ENCODING_IS_6BIT_STR b then 1
      else if LP_ENCODING_IS_13BIT_INT b then 1
      else if LP_ENCODING_IS_16BIT_INT b then 1
      else if LP_ENCODING_IS_24BIT_INT b then 1
      else if LP_ENCODING_IS_32BIT_INT b then 1
      else if LP_ENCODING_IS_64BIT_INT b then 1
      else if LP_ENCODING_IS_12BIT_STR b then 2
      else if LP_ENCODING_IS_32BIT_STR b then 5
      else if b = LP_EOF then 1
      else 0)"

text \<open>
  \<^verbatim>\<open>lpGetWithSize\<close>: a string is its offset from the element and its length, an integer is given as a value
  or, with \<^verbatim>\<open>intbuf\<close>, as the string in that buffer. \<open>old\<close> is the former content of \<^verbatim>\<open>*entry_size\<close>, which an
  invalid encoding leaves as it is.
\<close>

datatype lpvalue = StrAt nat nat | IntBuf "byte list" | IntVal int

definition LP_INTBUF_SIZE :: nat where "LP_INTBUF_SIZE = 21"

definition lp_signed :: "int \<Rightarrow> int \<Rightarrow> int \<Rightarrow> int" where
  "lp_signed uval negstart negmax = (if uval \<ge> negstart then - (negmax - uval) - 1 else uval)"

definition lp_int :: "bool \<Rightarrow> int \<Rightarrow> lpvalue" where
  "lp_int intbuf v =
     (if intbuf
      then (case ll2string (replicate LP_INTBUF_SIZE 0) LP_INTBUF_SIZE v of (n, buf) \<Rightarrow> IntBuf (take n buf))
      else IntVal v)"

definition lpGetWithSize :: "byte list \<Rightarrow> bool \<Rightarrow> nat \<Rightarrow> lpvalue \<times> nat" where
  "lpGetWithSize m intbuf old =
     (let b = rd m 0; uv = (\<lambda>n. get_le (map (rd m) [1..<Suc n])) in
      if LP_ENCODING_IS_7BIT_UINT b then (lp_int intbuf (lp_signed (uint (b AND 0x7f)) (int UINT64_MAX) 0), 2)
      else if LP_ENCODING_IS_6BIT_STR b then
        (let c = LP_ENCODING_6BIT_STR_LEN m in (StrAt 1 c, 1 + c + length (lpEncodeBacklen (c + 1))))
      else if LP_ENCODING_IS_13BIT_INT b then
        (lp_int intbuf (lp_signed (uint (b AND 0x1f) * 2 ^ 8 + uint (rd m 1)) (2 ^ 12) 8191), 3)
      else if LP_ENCODING_IS_16BIT_INT b then (lp_int intbuf (lp_signed (uv 2) (2 ^ 15) (2 ^ 16 - 1)), 4)
      else if LP_ENCODING_IS_24BIT_INT b then (lp_int intbuf (lp_signed (uv 3) (2 ^ 23) (2 ^ 24 - 1)), 5)
      else if LP_ENCODING_IS_32BIT_INT b then (lp_int intbuf (lp_signed (uv 4) (2 ^ 31) (2 ^ 32 - 1)), 6)
      else if LP_ENCODING_IS_64BIT_INT b then (lp_int intbuf (lp_signed (uv 8) (2 ^ 63) (2 ^ 64 - 1)), 10)
      else if LP_ENCODING_IS_12BIT_STR b then
        (let c = LP_ENCODING_12BIT_STR_LEN m in (StrAt 2 c, 2 + c + length (lpEncodeBacklen (c + 2))))
      else if LP_ENCODING_IS_32BIT_STR b then
        (let c = LP_ENCODING_32BIT_STR_LEN m in (StrAt 5 c, 5 + c + length (lpEncodeBacklen (c + 5))))
      else (lp_int intbuf (lp_signed (12345678900000000 + uint b) (int UINT64_MAX) 0), old))"

definition lpGet :: "byte list \<Rightarrow> bool \<Rightarrow> lpvalue" where
  "lpGet m intbuf = fst (lpGetWithSize m intbuf 0)"

definition lpGetValue :: "byte list \<Rightarrow> lpvalue" where
  "lpGetValue m = lpGet m False"

definition lpCompare :: "byte list \<Rightarrow> byte list \<Rightarrow> bool" where
  "lpCompare m s =
     (if rd m 0 = LP_EOF then False
      else
        (case lpGet m False of
           StrAt off sz \<Rightarrow> length s = sz \<and> map (rd m) [off..<off + sz] = s
         | IntVal v \<Rightarrow> (case lpStringToInt64 s of Some sval \<Rightarrow> v = sval | None \<Rightarrow> False)
         | IntBuf t \<Rightarrow> False))"

subsection \<open>Walking through a listpack\<close>

definition lpSkip :: "byte list \<Rightarrow> nat \<Rightarrow> nat" where
  "lpSkip lp p =
     (let entrylen = lpCurrentEncodedSizeUnsafe (drop p lp) in p + (entrylen + length (lpEncodeBacklen entrylen)))"

text \<open>
  \<^verbatim>\<open>lpValidateNext\<close>: \<open>None\<close> is the result 0; otherwise the new content of \<^verbatim>\<open>*pp\<close>, which is null at the end.
\<close>

definition out_of_range :: "nat \<Rightarrow> nat \<Rightarrow> bool" where
  "out_of_range lpbytes p \<longleftrightarrow> p < LP_HDR_SIZE \<or> p > lpbytes - 1"

definition lpValidateNext :: "byte list \<Rightarrow> nat option \<Rightarrow> nat \<Rightarrow> nat option option" where
  "lpValidateNext lp pp lpbytes =
     (case pp of
        None \<Rightarrow> None
      | Some p \<Rightarrow>
          (if out_of_range lpbytes p then None
           else if rd lp p = LP_EOF then Some None
           else
             (let lenbytes = lpCurrentEncodedSizeBytes (rd lp p) in
              if lenbytes = 0 then None
              else if out_of_range lpbytes (p + lenbytes) then None
              else
                (let entrylen0 = lpCurrentEncodedSizeUnsafe (drop p lp);
                     encodedBacklen = length (lpEncodeBacklen entrylen0);
                     entrylen = entrylen0 + encodedBacklen
                 in if out_of_range lpbytes (p + entrylen) then None
                    else
                      (let p1 = p + entrylen; prevlen = lpDecodeBacklen lp (p1 - 1) in
                       if (prevlen + encodedBacklen) mod 2 ^ 64 \<noteq> entrylen then None else Some (Some p1))))))"

definition lpAssertValidEntry :: "byte list \<Rightarrow> nat \<Rightarrow> nat \<Rightarrow> bool" where
  "lpAssertValidEntry lp lpbytes p \<longleftrightarrow> lpValidateNext lp (Some p) lpbytes \<noteq> None"

text \<open>The functions below return \<open>None\<close> for a failed assertion and \<open>Some None\<close> for a null pointer.\<close>

definition lpNext :: "byte list \<Rightarrow> nat \<Rightarrow> nat option option" where
  "lpNext lp p =
     (let p1 = lpSkip lp p in
      if rd lp p1 = LP_EOF then Some None
      else if \<not> lpAssertValidEntry lp (lpBytes lp) p1 then None
      else Some (Some p1))"

definition lpPrev :: "byte list \<Rightarrow> nat \<Rightarrow> nat option option" where
  "lpPrev lp p =
     (if p = LP_HDR_SIZE then Some None
      else
        (let prevlen0 = lpDecodeBacklen lp (p - 1);
             prevlen = (prevlen0 + length (lpEncodeBacklen prevlen0)) mod 2 ^ 64
         in if prevlen > p then None
            else if \<not> lpAssertValidEntry lp (lpBytes lp) (p - prevlen) then None
            else Some (Some (p - prevlen))))"

definition lpFirst :: "byte list \<Rightarrow> nat option option" where
  "lpFirst lp =
     (if rd lp LP_HDR_SIZE = LP_EOF then Some None
      else if \<not> lpAssertValidEntry lp (lpBytes lp) LP_HDR_SIZE then None
      else Some (Some LP_HDR_SIZE))"

definition lpLast :: "byte list \<Rightarrow> nat option option" where
  "lpLast lp = lpPrev lp (lpGetTotalBytes lp - 1)"

lemma length_backlen_pos: "0 < length (lpEncodeBacklen l)"
  by (simp add: lpEncodeBacklen_def)

lemma lpSkip_gt: "p < lpSkip lp p"
  using length_backlen_pos by (simp add: lpSkip_def Let_def)

lemma valid_entry_range: "lpAssertValidEntry lp n p \<Longrightarrow> LP_HDR_SIZE \<le> p \<and> p < n"
  by (auto simp: lpAssertValidEntry_def lpValidateNext_def out_of_range_def LP_HDR_SIZE_def split: if_splits)

lemma lpNext_gt: "lpNext lp p = Some (Some q) \<Longrightarrow> p < q \<and> q < lpBytes lp"
  using lpSkip_gt [of p lp] valid_entry_range by (fastforce simp: lpNext_def Let_def split: if_splits)

text \<open>The loop of \<^verbatim>\<open>lpLength\<close>.\<close>

function lpCount :: "byte list \<Rightarrow> nat option \<Rightarrow> nat \<Rightarrow> nat option" where
  "lpCount lp None count = Some count"
| "lpCount lp (Some p) count = (case lpNext lp p of None \<Rightarrow> None | Some q \<Rightarrow> lpCount lp q (count + 1))"
  by pat_completeness auto
termination
  by (relation "measure (\<lambda>(lp, p, c). case p of None \<Rightarrow> 0 | Some p \<Rightarrow> Suc (lpBytes lp - p))")
    (auto dest: lpNext_gt split: option.splits)

definition lpLength :: "byte list \<Rightarrow> (nat \<times> byte list) option" where
  "lpLength lp =
     (let numele = lpGetNumElements lp in
      if numele \<noteq> LP_HDR_NUMELE_UNKNOWN then Some (numele, lp)
      else
        (case lpFirst lp of
           None \<Rightarrow> None
         | Some p \<Rightarrow>
             (case lpCount lp p 0 of
                None \<Rightarrow> None
              | Some count \<Rightarrow>
                  Some (count, if count < LP_HDR_NUMELE_UNKNOWN then lpSetNumElements lp count else lp))))"

fun lpSeek_forward :: "byte list \<Rightarrow> nat \<Rightarrow> nat option \<Rightarrow> nat option option" where
  "lpSeek_forward lp (Suc i) (Some ele) =
     (case lpNext lp ele of None \<Rightarrow> None | Some q \<Rightarrow> lpSeek_forward lp i q)"
| "lpSeek_forward lp i ele = Some ele"

fun lpSeek_backward :: "byte list \<Rightarrow> nat \<Rightarrow> nat option \<Rightarrow> nat option option" where
  "lpSeek_backward lp (Suc i) (Some ele) =
     (case lpPrev lp ele of None \<Rightarrow> None | Some q \<Rightarrow> lpSeek_backward lp i q)"
| "lpSeek_backward lp i ele = Some ele"

text \<open>The two loops of \<^verbatim>\<open>lpSeek\<close> count the index to 0 and to -1.\<close>

definition lpSeek_scan :: "byte list \<Rightarrow> bool \<Rightarrow> int \<Rightarrow> nat option option" where
  "lpSeek_scan lp forward index =
     (if forward then (case lpFirst lp of None \<Rightarrow> None | Some ele \<Rightarrow> lpSeek_forward lp (nat index) ele)
      else (case lpLast lp of None \<Rightarrow> None | Some ele \<Rightarrow> lpSeek_backward lp (nat (- 1 - index)) ele))"

definition lpSeek :: "byte list \<Rightarrow> int \<Rightarrow> nat option option" where
  "lpSeek lp index =
     (let numele = lpGetNumElements lp in
      if numele \<noteq> LP_HDR_NUMELE_UNKNOWN then
        (let index1 = (if index < 0 then int numele + index else index) in
         if index1 < 0 then Some None
         else if index1 \<ge> int numele then Some None
         else if index1 > int numele div 2 then lpSeek_scan lp False (index1 - int numele)
         else lpSeek_scan lp True index1)
      else lpSeek_scan lp (\<not> index < 0) index)"

text \<open>
  The loop of \<^verbatim>\<open>lpFind\<close>. An entry size of 0 does not occur: every encoding has a positive one, and the
  initial value is positive. \<open>venc\<close> is the state of \<^verbatim>\<open>vencoding\<close> and \<^verbatim>\<open>vll\<close>: not tried yet, no integer (\<^verbatim>\<open>UCHAR_MAX\<close>), or
  the integer.
\<close>

datatype lp_venc = NotTried | NoInt | VInt int

definition lpFind_encode :: "lp_venc \<Rightarrow> byte list \<Rightarrow> lp_venc" where
  "lpFind_encode venc s =
     (case venc of
        NotTried \<Rightarrow>
          (if length s \<ge> 32 \<or> length s = 0 then NoInt
           else (case lpStringToInt64 s of None \<Rightarrow> NoInt | Some v \<Rightarrow> VInt v))
      | _ \<Rightarrow> venc)"

text \<open>One comparison: \<open>None\<close> is a failed assertion; otherwise the result, the encoding and the entry size.\<close>

definition lpFind_compare :: "byte list \<Rightarrow> nat \<Rightarrow> byte list \<Rightarrow> lp_venc \<Rightarrow> nat \<Rightarrow> (bool \<times> lp_venc \<times> nat) option" where
  "lpFind_compare lp p s venc entry_size =
     (case lpGetWithSize (drop p lp) False entry_size of
        (StrAt off ll, es) \<Rightarrow>
          (if \<not> (p \<ge> LP_HDR_SIZE \<and> p + es < lpBytes lp) then None
           else Some (length s = ll \<and> map (rd lp) [p + off..<p + off + ll] = s, venc, es))
      | (IntVal ll, es) \<Rightarrow>
          (let venc1 = lpFind_encode venc s in Some (venc1 = VInt ll, venc1, es))
      | (IntBuf t, es) \<Rightarrow> None)"

definition lpFind_assert :: "byte list \<Rightarrow> nat \<Rightarrow> bool" where
  "lpFind_assert lp p \<longleftrightarrow>
     (if p + 8 \<ge> lpBytes lp then lpAssertValidEntry lp (lpBytes lp) p else p \<ge> LP_HDR_SIZE \<and> p < lpBytes lp)"

lemma lpFind_assert_range: "lpFind_assert lp p \<Longrightarrow> p < lpBytes lp"
  using valid_entry_range by (auto simp: lpFind_assert_def split: if_splits)

function lpFind_loop :: "byte list \<Rightarrow> byte list \<Rightarrow> nat \<Rightarrow> nat \<Rightarrow> nat \<Rightarrow> lp_venc \<Rightarrow> nat \<Rightarrow> nat option option" where
  "lpFind_loop lp s skip p skipcnt venc entry_size =
     (if skipcnt = 0 then
        (case lpFind_compare lp p s venc entry_size of
           None \<Rightarrow> None
         | Some (True, venc1, es) \<Rightarrow> Some (Some p)
         | Some (False, venc1, es) \<Rightarrow>
             (if \<not> lpFind_assert lp (p + es) then None
              else if rd lp (p + es) = LP_EOF then Some None
              else if es = 0 then None
              else lpFind_loop lp s skip (p + es) skip venc1 es))
      else
        (let q = lpSkip lp p in
         if \<not> lpFind_assert lp q then None
         else if rd lp q = LP_EOF then Some None
         else lpFind_loop lp s skip q (skipcnt - 1) venc entry_size))"
  by pat_completeness auto
termination
proof (relation "measure (\<lambda>(lp, s, skip, p, c, v, e). lpBytes lp - p)", goal_cases)
  case (3 lp s skip p skipcnt venc entry_size q)
  then show ?case using lpSkip_gt [of p lp] lpFind_assert_range [of lp q] by simp
qed (auto dest: lpFind_assert_range)

declare lpFind_loop.simps [simp del]

definition lpFind :: "byte list \<Rightarrow> nat \<Rightarrow> byte list \<Rightarrow> nat \<Rightarrow> nat option option" where
  "lpFind lp p s skip = lpFind_loop lp s skip p 0 NotTried 123456789"

subsection \<open>Changing a listpack\<close>

definition lpNew :: "byte list" where
  "lpNew = (lpSetNumElements (lpSetTotalBytes (replicate (LP_HDR_SIZE + 1) 0) (LP_HDR_SIZE + 1)) 0)[LP_HDR_SIZE := LP_EOF]"

definition lpShrinkToFit :: "byte list \<Rightarrow> byte list" where
  "lpShrinkToFit lp = (let sz = lpGetTotalBytes lp in if sz < length lp then zrealloc sz lp else lp)"

datatype 'a lp_result = Abort | Null | Ret 'a

datatype lp_arg = StrArg "byte list" | IntArg "byte list" | NoArg

datatype lp_where = LP_BEFORE | LP_AFTER | LP_REPLACE

definition ASSERT_INTEGRITY :: "byte list \<Rightarrow> nat \<Rightarrow> bool" where
  "ASSERT_INTEGRITY lp p \<longleftrightarrow> p \<ge> LP_HDR_SIZE \<and> p < lpGetTotalBytes lp"

definition ASSERT_INTEGRITY_LEN :: "byte list \<Rightarrow> nat \<Rightarrow> nat \<Rightarrow> bool" where
  "ASSERT_INTEGRITY_LEN lp p l \<longleftrightarrow> p \<ge> LP_HDR_SIZE \<and> p + l < lpGetTotalBytes lp"

text \<open>The last part of \<^verbatim>\<open>lpInsert\<close>: the number of elements, and the total size.\<close>

definition lpInsert_header :: "byte list \<Rightarrow> lp_where \<Rightarrow> bool \<Rightarrow> nat \<Rightarrow> byte list" where
  "lpInsert_header lp wh delete new_listpack_bytes =
     (let lp1 =
        (if wh \<noteq> LP_REPLACE \<or> delete then
           (let num_elements = lpGetNumElements lp in
            if num_elements \<noteq> LP_HDR_NUMELE_UNKNOWN then
              lpSetNumElements lp (if \<not> delete then num_elements + 1 else num_elements - 1)
            else lp)
         else lp)
      in lpSetTotalBytes lp1 new_listpack_bytes)"

text \<open>
  The middle part: resizing, moving what follows, and storing the entry, given the bytes of the encoded
  element and of its length, which are empty for a deletion.
\<close>

definition lpInsert_store :: "byte list \<Rightarrow> nat \<Rightarrow> nat \<Rightarrow> byte list \<Rightarrow> nat \<Rightarrow> byte list \<Rightarrow> byte list" where
  "lpInsert_store lp poff replaced_len ele enclen backlen =
     (let old_bytes = lpGetTotalBytes lp;
          add = enclen + length backlen;
          new_bytes = old_bytes + add - replaced_len;
          lp1 = (if new_bytes > old_bytes then zrealloc new_bytes lp else lp);
          lp2 = memmove (poff + add) (poff + replaced_len) (old_bytes - poff - replaced_len) lp1;
          lp3 = (if new_bytes < old_bytes then zrealloc new_bytes lp2 else lp2)
      in write_at (poff + enclen) backlen (write_at poff ele lp3))"

definition lpInsert :: "byte list \<Rightarrow> lp_arg \<Rightarrow> nat \<Rightarrow> lp_where \<Rightarrow> (byte list \<times> nat option) lp_result" where
  "lpInsert lp arg p0 where0 =
     (let delete = (arg = NoArg);
          where1 = (if delete then LP_REPLACE else where0);
          p = (if where1 = LP_AFTER then lpSkip lp p0 else p0);
          wh = (if where1 = LP_AFTER then LP_BEFORE else where1)
      in
      if where1 = LP_AFTER \<and> \<not> ASSERT_INTEGRITY lp p then Abort
      else
        (let (ele, enclen) =
               (case arg of
                  StrArg s \<Rightarrow>
                    (case lpEncodeGetType s of
                       (Some intenc, n) \<Rightarrow> (intenc, n)
                     | (None, n) \<Rightarrow> (lpEncodeString s, n))
                | IntArg e \<Rightarrow> (e, length e)
                | NoArg \<Rightarrow> ([], 0));
             backlen = (if \<not> delete then lpEncodeBacklen enclen else []);
             rlen = lpCurrentEncodedSizeUnsafe (drop p lp);
             replaced_len = (if wh = LP_REPLACE then (rlen + length (lpEncodeBacklen rlen)) mod 2 ^ 32 else 0)
         in
         if wh = LP_REPLACE \<and> \<not> ASSERT_INTEGRITY_LEN lp p replaced_len then Abort
         else
           (let new_bytes = lpGetTotalBytes lp + enclen + length backlen - replaced_len in
            if new_bytes > UINT32_MAX then Null
            else
              (let lp1 = lpInsert_store lp p replaced_len ele enclen backlen;
                   newp = (if delete \<and> rd lp1 p = LP_EOF then None else Some p)
               in Ret (lpInsert_header lp1 wh delete new_bytes, newp)))))"

definition lpInsertString :: "byte list \<Rightarrow> byte list \<Rightarrow> nat \<Rightarrow> lp_where \<Rightarrow> (byte list \<times> nat option) lp_result" where
  "lpInsertString lp s p wh = lpInsert lp (StrArg s) p wh"

definition lpInsertInteger :: "byte list \<Rightarrow> int \<Rightarrow> nat \<Rightarrow> lp_where \<Rightarrow> (byte list \<times> nat option) lp_result" where
  "lpInsertInteger lp lval p wh = lpInsert lp (IntArg (lpEncodeIntegerGetType lval)) p wh"

definition lpAppend :: "byte list \<Rightarrow> byte list \<Rightarrow> (byte list \<times> nat option) lp_result" where
  "lpAppend lp ele = lpInsert lp (StrArg ele) (lpGetTotalBytes lp - 1) LP_BEFORE"

definition lpAppendInteger :: "byte list \<Rightarrow> int \<Rightarrow> (byte list \<times> nat option) lp_result" where
  "lpAppendInteger lp lval = lpInsertInteger lp lval (lpGetTotalBytes lp - 1) LP_BEFORE"

definition lpPrepend :: "byte list \<Rightarrow> byte list \<Rightarrow> (byte list \<times> nat option) lp_result" where
  "lpPrepend lp s =
     (case lpFirst lp of
        None \<Rightarrow> Abort
      | Some None \<Rightarrow> lpAppend lp s
      | Some (Some p) \<Rightarrow> lpInsert lp (StrArg s) p LP_BEFORE)"

definition lpPrependInteger :: "byte list \<Rightarrow> int \<Rightarrow> (byte list \<times> nat option) lp_result" where
  "lpPrependInteger lp lval =
     (case lpFirst lp of
        None \<Rightarrow> Abort
      | Some None \<Rightarrow> lpAppendInteger lp lval
      | Some (Some p) \<Rightarrow> lpInsertInteger lp lval p LP_BEFORE)"

definition lpReplace :: "byte list \<Rightarrow> nat \<Rightarrow> byte list \<Rightarrow> (byte list \<times> nat option) lp_result" where
  "lpReplace lp p s = lpInsert lp (StrArg s) p LP_REPLACE"

definition lpReplaceInteger :: "byte list \<Rightarrow> nat \<Rightarrow> int \<Rightarrow> (byte list \<times> nat option) lp_result" where
  "lpReplaceInteger lp p lval = lpInsertInteger lp lval p LP_REPLACE"

definition lpDelete :: "byte list \<Rightarrow> nat \<Rightarrow> (byte list \<times> nat option) lp_result" where
  "lpDelete lp p = lpInsert lp NoArg p LP_REPLACE"

text \<open>The loop of \<^verbatim>\<open>lpDeleteRangeWithEntry\<close>: the number of deleted entries, and \<^verbatim>\<open>tail\<close>.\<close>

fun lpDeleteRange_loop :: "byte list \<Rightarrow> nat \<Rightarrow> nat \<Rightarrow> nat \<Rightarrow> (nat \<times> nat) option" where
  "lpDeleteRange_loop lp 0 deleted tail = Some (deleted, tail)"
| "lpDeleteRange_loop lp (Suc num) deleted tail =
     (let tail1 = lpSkip lp tail in
      if rd lp tail1 = LP_EOF then Some (deleted + 1, tail1)
      else if \<not> lpAssertValidEntry lp (lpBytes lp) tail1 then None
      else lpDeleteRange_loop lp num (deleted + 1) tail1)"

definition lpDeleteRangeWithEntry :: "byte list \<Rightarrow> nat \<Rightarrow> nat \<Rightarrow> (byte list \<times> nat option) option" where
  "lpDeleteRangeWithEntry lp p num =
     (let nbytes = lpBytes lp; eofptr = nbytes - 1 in
      if num = 0 then Some (lp, Some p)
      else
        (case lpDeleteRange_loop lp num 0 p of
           None \<Rightarrow> None
         | Some (deleted, tail) \<Rightarrow>
             (let lp1 = memmove p tail (eofptr - tail + 1) lp;
                  lp2 = lpSetTotalBytes lp1 (nbytes - (tail - p));
                  numele = lpGetNumElements lp2;
                  lp3 = (if numele \<noteq> LP_HDR_NUMELE_UNKNOWN then lpSetNumElements lp2 (numele - deleted) else lp2);
                  lp4 = lpShrinkToFit lp3
              in Some (lp4, if rd lp4 p = LP_EOF then None else Some p))))"

definition lpDeleteRange :: "byte list \<Rightarrow> int \<Rightarrow> nat \<Rightarrow> byte list option" where
  "lpDeleteRange lp index num =
     (let numele = lpGetNumElements lp in
      if num = 0 then Some lp
      else
        (case lpSeek lp index of
           None \<Rightarrow> None
         | Some None \<Rightarrow> Some lp
         | Some (Some p) \<Rightarrow>
             (let index1 = (if numele \<noteq> LP_HDR_NUMELE_UNKNOWN \<and> index < 0 then int numele + index else index) in
              if numele \<noteq> LP_HDR_NUMELE_UNKNOWN \<and> int numele - index1 \<le> int num then
                Some (lpShrinkToFit (lpSetNumElements (lpSetTotalBytes (lp[p := LP_EOF]) (p + 1)) (nat index1)))
              else map_option fst (lpDeleteRangeWithEntry lp p num))))"

text \<open>
  \<^verbatim>\<open>lpMerge\<close> for two different listpacks: \<open>None\<close> is a failed assertion. \<^verbatim>\<open>lpLength\<close> may have set the number of
  elements in both of them.
\<close>

definition lpMerge :: "byte list \<Rightarrow> byte list \<Rightarrow> byte list option" where
  "lpMerge first0 second0 =
     (case (lpLength first0, lpLength second0) of
        (Some (first_len, first), Some (second_len, second)) \<Rightarrow>
          (let first_bytes = lpBytes first;
               second_bytes = lpBytes second;
               append = (first_bytes \<ge> second_bytes);
               target = (if append then first else second);
               target_bytes = (if append then first_bytes else second_bytes);
               source = (if append then second else first);
               source_bytes = (if append then second_bytes else first_bytes);
               lpbytes = first_bytes + second_bytes - LP_HDR_SIZE - 1
           in
           if \<not> lpbytes < UINT32_MAX then None
           else
             (let lplength = (if first_len + second_len < 65535 then first_len + second_len else 65535);
                  t1 = zrealloc lpbytes target;
                  t2 = (if append then
                          write_at (target_bytes - 1) (read_at LP_HDR_SIZE (source_bytes - LP_HDR_SIZE) source) t1
                        else
                          write_at 0 (read_at 0 (source_bytes - 1) source)
                            (memmove (source_bytes - 1) LP_HDR_SIZE (target_bytes - LP_HDR_SIZE) t1))
              in Some (lpSetTotalBytes (lpSetNumElements t2 lplength) lpbytes)))
      | _ \<Rightarrow> None)"

subsection \<open>Validation\<close>

lemma lpValidateNext_gt: "lpValidateNext lp (Some p) n = Some (Some q) \<Longrightarrow> p < q \<and> q < n"
  using length_backlen_pos
  by (auto simp: lpValidateNext_def out_of_range_def Let_def LP_HDR_SIZE_def split: if_splits)

definition lpValidateFirst :: "byte list \<Rightarrow> nat option" where
  "lpValidateFirst lp = (if rd lp LP_HDR_SIZE = LP_EOF then None else Some LP_HDR_SIZE)"

text \<open>
  The loop of \<^verbatim>\<open>lpValidateIntegrity\<close>, with the optional callback \<open>cb\<close>: \<open>None\<close> is a return of 0, otherwise the
  last value of \<^verbatim>\<open>p\<close> and the count.
\<close>

function lpValidate_loop ::
    "byte list \<Rightarrow> nat \<Rightarrow> (nat \<Rightarrow> nat \<Rightarrow> bool) option \<Rightarrow> nat option \<Rightarrow> nat \<Rightarrow> (nat option \<times> nat) option" where
  "lpValidate_loop lp nbytes cb None count = Some (None, count)"
| "lpValidate_loop lp nbytes cb (Some p) count =
     (if rd lp p = LP_EOF then Some (Some p, count)
      else
        (case lpValidateNext lp (Some p) nbytes of
           None \<Rightarrow> None
         | Some q \<Rightarrow>
             (if (case cb of None \<Rightarrow> False | Some f \<Rightarrow> \<not> f p (lpGetNumElements lp)) then None
              else lpValidate_loop lp nbytes cb q (count + 1))))"
  by pat_completeness auto
termination
  by (relation "measure (\<lambda>(lp, n, cb, p, c). case p of None \<Rightarrow> 0 | Some p \<Rightarrow> Suc (n - p))")
    (auto dest: lpValidateNext_gt split: option.splits)

definition lpValidateIntegrity :: "byte list \<Rightarrow> bool \<Rightarrow> (nat \<Rightarrow> nat \<Rightarrow> bool) option \<Rightarrow> bool" where
  "lpValidateIntegrity lp deep cb =
     (let sz = length lp; nbytes = lpGetTotalBytes lp; numele = lpGetNumElements lp in
      if sz < LP_HDR_SIZE + 1 then False
      else if nbytes \<noteq> sz then False
      else if rd lp (sz - 1) \<noteq> LP_EOF then False
      else if \<not> deep then True
      else
        (case lpValidate_loop lp nbytes cb (Some LP_HDR_SIZE) 0 of
           None \<Rightarrow> False
         | Some (p, count) \<Rightarrow>
             p = Some (sz - 1) \<and> \<not> (numele \<noteq> LP_HDR_NUMELE_UNKNOWN \<and> numele \<noteq> count)))"

section \<open>First bytes\<close>

named_theorems lp_class \<open>encodings as ranges of the first byte\<close>

lemma unat_and_mask: "unat (b AND mask k :: byte) = unat b mod 2 ^ k"
  by (simp add: take_bit_eq_mask [symmetric] unsigned_take_bit_eq take_bit_nat_def)

lemma and_high: "b AND NOT (mask k) = b - take_bit k b" for b :: byte
proof -
  have "b - take_bit k b = b AND NOT (take_bit k b)"
    by (rule disjunctive_diff) (simp add: bit_take_bit_iff)
  also have "\<dots> = b AND NOT (mask k)"
    by (rule bit_word_eqI) (auto simp: bit_and_iff bit_not_iff bit_take_bit_iff bit_mask_iff)
  finally show ?thesis by simp
qed

lemma unat_and_high: "unat (b AND NOT (mask k) :: byte) = unat b div 2 ^ k * 2 ^ k"
proof -
  have t: "unat (take_bit k b) = unat b mod 2 ^ k" by (simp add: unsigned_take_bit_eq take_bit_nat_def)
  then have "take_bit k b \<le> b" by (simp add: word_le_nat_alt)
  then show ?thesis unfolding and_high by (simp add: unat_sub t minus_mod_eq_div_mult)
qed

lemma masks:
  "(0x80 :: byte) = NOT (mask 7)" "(0xC0 :: byte) = NOT (mask 6)" "(0xE0 :: byte) = NOT (mask 5)"
  "(0xF0 :: byte) = NOT (mask 4)" "(0x3F :: byte) = mask 6" "(0xF :: byte) = mask 4" "(0x7F :: byte) = mask 7"
  "(0x1F :: byte) = mask 5" "(0xFF :: byte) = mask 8"
  by (simp_all add: mask_eq_exp_minus_1)

lemma is_7bit [lp_class]: "LP_ENCODING_IS_7BIT_UINT b \<longleftrightarrow> unat b < 128"
  unfolding LP_ENCODING_IS_7BIT_UINT_def word_unat_eq_iff masks(1) unat_and_high by auto

lemma is_6bit [lp_class]: "LP_ENCODING_IS_6BIT_STR b \<longleftrightarrow> 128 \<le> unat b \<and> unat b < 192"
  unfolding LP_ENCODING_IS_6BIT_STR_def word_unat_eq_iff masks(2) unat_and_high by auto

lemma is_13bit [lp_class]: "LP_ENCODING_IS_13BIT_INT b \<longleftrightarrow> 192 \<le> unat b \<and> unat b < 224"
  unfolding LP_ENCODING_IS_13BIT_INT_def word_unat_eq_iff masks(3) unat_and_high by auto

lemma is_12bit [lp_class]: "LP_ENCODING_IS_12BIT_STR b \<longleftrightarrow> 224 \<le> unat b \<and> unat b < 240"
  unfolding LP_ENCODING_IS_12BIT_STR_def word_unat_eq_iff masks(4) unat_and_high by auto

lemma unat_byte [simp]: "unat (b :: byte) < 256"
  using unsigned_less [of b] by simp

lemma is_exact [lp_class]:
  "LP_ENCODING_IS_32BIT_STR b \<longleftrightarrow> unat b = 240" "LP_ENCODING_IS_16BIT_INT b \<longleftrightarrow> unat b = 241"
  "LP_ENCODING_IS_24BIT_INT b \<longleftrightarrow> unat b = 242" "LP_ENCODING_IS_32BIT_INT b \<longleftrightarrow> unat b = 243"
  "LP_ENCODING_IS_64BIT_INT b \<longleftrightarrow> unat b = 244"
  unfolding LP_ENCODING_IS_32BIT_STR_def LP_ENCODING_IS_16BIT_INT_def LP_ENCODING_IS_24BIT_INT_def
    LP_ENCODING_IS_32BIT_INT_def LP_ENCODING_IS_64BIT_INT_def word_unat_eq_iff masks(9) unat_and_mask
  by simp_all

lemma is_eof [lp_class]: "b = LP_EOF \<longleftrightarrow> unat b = 255"
  unfolding LP_EOF_def word_unat_eq_iff by simp

lemma low_bits:
  "unat (b AND 0x3F :: byte) = unat b mod 64" "unat (b AND 0xF) = unat b mod 16" "unat (b AND 0x7F) = unat b mod 128"
  "unat (b AND 0x1F) = unat b mod 32" "b AND 0x80 = 0 \<longleftrightarrow> unat b < 128"
  using is_7bit [of b] unfolding masks unat_and_mask LP_ENCODING_IS_7BIT_UINT_def by simp_all

lemma rd_append: "rd (xs @ ys) i = (if i < length xs then rd xs i else rd ys (i - length xs))"
  by (auto simp: rd_def nth_append)

lemma rd_drop [simp]: "rd (drop p m) i = rd m (p + i)"
  by (auto simp: rd_def)

lemma rd_Cons [simp]: "rd (x # xs) 0 = x" "rd (x # xs) (Suc i) = rd xs i"
  by (auto simp: rd_def)

lemma rd_hd: "m \<noteq> [] \<Longrightarrow> rd m 0 = hd m"
  by (simp add: rd_def hd_conv_nth)

lemma map_rd: "map (rd (xs @ ys @ zs)) [length xs..<length xs + length ys] = ys"
  by (rule nth_equalityI) (auto simp: rd_append, simp add: rd_def)

section \<open>Elements\<close>

subsection \<open>Well-formed encodings\<close>

text \<open>
  An encoding of one element: it says its own length, in bytes that are all there. Every element that
  the functions above store is one; there are others, such as short strings with a long length field.
\<close>

definition enc_ok :: "byte list \<Rightarrow> bool" where
  "enc_ok e \<longleftrightarrow> e \<noteq> [] \<and> hd e \<noteq> LP_EOF \<and> 0 < lpCurrentEncodedSizeBytes (hd e) \<and>
     lpCurrentEncodedSizeBytes (hd e) \<le> length e \<and> lpCurrentEncodedSizeUnsafe e = length e"

lemma size_cong:
  assumes "rd m 0 = rd m' 0" "\<And>i. i < lpCurrentEncodedSizeBytes (rd m 0) \<Longrightarrow> rd m i = rd m' i"
  shows "lpCurrentEncodedSizeUnsafe m = lpCurrentEncodedSizeUnsafe m'"
proof (cases "LP_ENCODING_IS_12BIT_STR (rd m 0) \<or> LP_ENCODING_IS_32BIT_STR (rd m 0)")
  case True
  then consider "224 \<le> unat (rd m 0)" "unat (rd m 0) < 240" | "unat (rd m 0) = 240" by (auto simp: lp_class)
  then show ?thesis
  proof cases
    case 1
    then have "rd m 1 = rd m' 1" using assms(2) [of 1] by (simp add: lpCurrentEncodedSizeBytes_def lp_class)
    then show ?thesis using 1 assms(1)
      by (simp add: lpCurrentEncodedSizeUnsafe_def lp_class Let_def LP_ENCODING_12BIT_STR_LEN_def)
  next
    case 2
    then have "rd m i = rd m' i" if "i < 5" for i
      using assms(2) [of i] that by (simp add: lpCurrentEncodedSizeBytes_def lp_class)
    then have "rd m 1 = rd m' 1" "rd m 2 = rd m' 2" "rd m 3 = rd m' 3" "rd m 4 = rd m' 4" by simp_all
    then show ?thesis using 2 assms(1)
      by (simp add: lpCurrentEncodedSizeUnsafe_def lp_class Let_def LP_ENCODING_32BIT_STR_LEN_def)
  qed
next
  case False
  then show ?thesis using assms(1) by (simp add: lpCurrentEncodedSizeUnsafe_def Let_def LP_ENCODING_6BIT_STR_LEN_def)
qed

lemma enc_size:
  assumes "enc_ok e"
  shows "lpCurrentEncodedSizeUnsafe (e @ rest) = length e"
proof -
  have "lpCurrentEncodedSizeUnsafe e = lpCurrentEncodedSizeUnsafe (e @ rest)"
    using assms by (intro size_cong) (auto simp: enc_ok_def rd_append rd_hd)
  then show ?thesis using assms by (simp add: enc_ok_def)
qed

lemma size_lt: "lpCurrentEncodedSizeUnsafe m < 2 ^ 32"
proof -
  have a: "LP_ENCODING_6BIT_STR_LEN m < 64" by (simp add: LP_ENCODING_6BIT_STR_LEN_def low_bits)
  have "unat (rd m 0) mod 16 < 16" "unat (rd m 1) < 256" by simp_all
  then have b: "LP_ENCODING_12BIT_STR_LEN m < 4096" unfolding LP_ENCODING_12BIT_STR_LEN_def low_bits by linarith
  show ?thesis using a b by (simp add: lpCurrentEncodedSizeUnsafe_def Let_def)
qed

lemma enc_length: "enc_ok e \<Longrightarrow> 0 < length e \<and> length e < 2 ^ 32"
  using size_lt [of e] by (simp add: enc_ok_def)

subsection \<open>The length behind an element\<close>

lemma unat_of_nat_byte: "n < 256 \<Longrightarrow> unat (of_nat n :: byte) = n"
  by (simp add: unat_of_nat take_bit_nat_eq_self)

text \<open>A run of bytes with a first digit and digits marked by the high bit, read from the end.\<close>

lemma decode_run:
  assumes "tp < 128" "\<forall>d \<in> set ds. d < 128" "shift + 7 * length ds \<le> 28"
  shows "lpDecodeBacklen_loop (pre @ (of_nat tp # map (\<lambda>d. of_nat (d + 128)) ds) @ rest) (length pre + length ds) val shift =
    val + 2 ^ shift * foldl (\<lambda>a d. a * 128 + d) tp ds"
  using assms
proof (induction ds arbitrary: rest val shift rule: rev_induct)
  case Nil
  have "rd (pre @ (of_nat tp # []) @ rest) (length pre) = of_nat tp" by (simp add: rd_append)
  then show ?case using Nil(1)
    by (subst lpDecodeBacklen_loop.simps) (simp add: low_bits unat_of_nat_byte)
next
  case (snoc d ds)
  let ?m = "pre @ (of_nat tp # map (\<lambda>d. of_nat (d + 128)) ds) @ (of_nat (d + 128) # rest)"
  have r: "rd ?m (length pre + length ds + 1) = of_nat (d + 128)" by (simp add: rd_append)
  have d: "d < 128" "shift + 7 \<le> 28" using snoc.prems by simp_all
  have "lpDecodeBacklen_loop ?m (length pre + length ds + 1) val shift =
      lpDecodeBacklen_loop ?m (length pre + length ds) (val + d * 2 ^ shift) (shift + 7)"
    using r d by (subst lpDecodeBacklen_loop.simps) (simp add: low_bits unat_of_nat_byte del: of_nat_add)
  also have "\<dots> = val + d * 2 ^ shift + 2 ^ (shift + 7) * foldl (\<lambda>a d. a * 128 + d) tp ds"
    using snoc.IH [of "shift + 7"] snoc.prems by simp
  finally show ?case by (simp add: power_add algebra_simps)
qed

lemma digits_sum:
  fixes l :: nat
  shows "(l div 16384 * 128 + l div 128 mod 128) * 128 + l mod 128 = l"
    "((l div 2097152 * 128 + l div 16384 mod 128) * 128 + l div 128 mod 128) * 128 + l mod 128 = l"
    "(((l div 268435456 * 128 + l div 2097152 mod 128) * 128 + l div 16384 mod 128) * 128 + l div 128 mod 128) * 128
       + l mod 128 = l"
proof -
  have d: "l div 16384 = l div 128 div 128" "l div 2097152 = l div 128 div 128 div 128"
    "l div 268435456 = l div 128 div 128 div 128 div 128" by (simp_all add: div_mult2_eq [symmetric])
  show "(l div 16384 * 128 + l div 128 mod 128) * 128 + l mod 128 = l"
    "((l div 2097152 * 128 + l div 16384 mod 128) * 128 + l div 128 mod 128) * 128 + l mod 128 = l"
    "(((l div 268435456 * 128 + l div 2097152 mod 128) * 128 + l div 16384 mod 128) * 128 + l div 128 mod 128) * 128
       + l mod 128 = l"
    unfolding d by (simp_all only: div_mult_mod_eq)
qed

lemma backlen_digits:
  assumes "l < 2 ^ 35"
  obtains tp ds where "lpEncodeBacklen l = of_nat tp # map (\<lambda>d. of_nat (d + 128)) ds" "tp < 128"
    "\<forall>d \<in> set ds. d < 128" "7 * length ds \<le> 28" "foldl (\<lambda>a d. a * 128 + d) tp ds = l"
proof -
  consider "l \<le> 127" | "127 < l" "l < 16383" | "16383 \<le> l" "l < 2097151" | "2097151 \<le> l" "l < 268435455" | "268435455 \<le> l"
    by linarith
  then show ?thesis
  proof cases
    case 1
    then show ?thesis by (intro that [of l "[]"]) (simp_all add: lpEncodeBacklen_def)
  next
    case 2
    then have "l div 128 < 128" by auto
    with 2 show ?thesis by (intro that [of "l div 128" "[l mod 128]"]) (simp_all add: lpEncodeBacklen_def)
  next
    case 3
    then have "l div 16384 < 128" by auto
    with 3 show ?thesis by (intro that [of "l div 16384" "[l div 128 mod 128, l mod 128]"])
      (simp_all add: lpEncodeBacklen_def digits_sum(1) [simplified])
  next
    case 4
    then have "l div 2097152 < 128" by auto
    with 4 show ?thesis by (intro that [of "l div 2097152" "[l div 16384 mod 128, l div 128 mod 128, l mod 128]"])
      (simp_all add: lpEncodeBacklen_def digits_sum [simplified])
  next
    case 5
    have "l div 268435456 < 128" using assms by auto
    with 5 show ?thesis
      by (intro that [of "l div 268435456" "[l div 2097152 mod 128, l div 16384 mod 128, l div 128 mod 128, l mod 128]"])
        (simp_all add: lpEncodeBacklen_def digits_sum [simplified])
  qed
qed

lemma decode_backlen:
  assumes "l < 2 ^ 35"
  shows "lpDecodeBacklen (pre @ lpEncodeBacklen l @ rest) (length pre + length (lpEncodeBacklen l) - 1) = l"
proof -
  obtain tp ds where d: "lpEncodeBacklen l = of_nat tp # map (\<lambda>d. of_nat (d + 128)) ds" "tp < 128"
    "\<forall>d \<in> set ds. d < 128" "7 * length ds \<le> 28" "foldl (\<lambda>a d. a * 128 + d) tp ds = l"
    by (rule backlen_digits [OF assms])
  show ?thesis using decode_run [OF d(2,3), of 0 pre rest 0] d(4,5) unfolding lpDecodeBacklen_def d(1) by simp
qed

subsection \<open>Integers\<close>

lemma lpStringToInt64_loop_eq: "lpStringToInt64_loop v p = string2ll_loop v p"
  by (induction v p rule: lpStringToInt64_loop.induct) (auto simp: isdigit_def Let_def)

text \<open>The two parsers are the same function.\<close>

lemma lpStringToInt64_eq: "lpStringToInt64 s = string2ll s"
proof (cases s)
  case (Cons c s')
  then show ?thesis
    by (cases s') (auto simp: lpStringToInt64_def string2ll_def string2ll_digits_def lpStringToInt64_loop_eq Let_def
        split: option.splits)
qed (simp add: lpStringToInt64_def string2ll_def)

lemma uint_unat: "uint b = int (unat b)"
  by simp

lemma map_rd_le: "map (rd (b # bs @ rest)) [1..<Suc (length bs)] = bs"
  using map_rd [of "[b]" bs rest] by simp

lemma lp_signed_wrap:
  assumes "0 < n" "- (2 ^ (8 * n - 1)) \<le> v" "v < 2 ^ (8 * n - 1)"
  shows "lp_signed (get_le (put_le n (if v < 0 then 2 ^ (8 * n) + v else v))) (2 ^ (8 * n - 1)) (2 ^ (8 * n) - 1) = v"
proof -
  have p: "(256 :: int) ^ n = 2 ^ (8 * n)" by (simp add: power_mult)
  have q: "(2 :: int) ^ (8 * n) = 2 * 2 ^ (8 * n - 1)" using assms(1) power_Suc [of "2 :: int" "8 * n - 1"] by (simp del: power_Suc)
  have "get_le (put_le n (if v < 0 then 2 ^ (8 * n) + v else v)) = (if v < 0 then 2 ^ (8 * n) + v else v)"
    unfolding get_put_le p using assms(2,3) q by (intro mod_pos_pos_trivial) auto
  then show ?thesis using assms(2,3) q by (simp add: lp_signed_def)
qed

lemma lp_signed_64:
  assumes "is_int64 v"
  shows "lp_signed (get_le (put_le 8 v)) (2 ^ 63) (2 ^ 64 - 1) = v"
proof (cases "v < 0")
  case True
  then have "v mod 2 ^ 64 = 2 ^ 64 + v"
    using assms by (intro mod_pos_pos_trivial [of "2 ^ 64 + v" "2 ^ 64", simplified mod_add_self1]) (auto simp: is_int64_def int_ranges)
  then show ?thesis using True assms by (simp add: get_put_le lp_signed_def is_int64_def int_ranges)
next
  case False
  then have "v mod 2 ^ 64 = v" using assms by (simp add: is_int64_def int_ranges)
  then show ?thesis using assms by (simp add: get_put_le lp_signed_def is_int64_def int_ranges)
qed

lemma mod_plus_192: "k < 32 \<Longrightarrow> (k + 192) mod 32 = (k :: nat)"
  by presburger

lemma byte_13:
  assumes "0 \<le> w" "w < 8192"
  shows "unat (word_of_int (w div 256) + 0xC0 :: byte) = nat (w div 256) + 192"
    "uint ((word_of_int (w div 256) + 0xC0 :: byte) AND 0x1f) * 256 + uint (word_of_int w :: byte) = w"
proof -
  have r: "w div 256 < 32" "0 \<le> w div 256" using assms by auto
  have e: "(word_of_int (w div 256) + 0xC0 :: byte) = of_nat (nat (w div 256) + 192)" using r by simp
  have k: "nat (w div 256) < 32" using r by simp
  show u: "unat (word_of_int (w div 256) + 0xC0 :: byte) = nat (w div 256) + 192"
    unfolding e using r by (intro unat_of_nat_byte) simp
  have "uint ((word_of_int (w div 256) + 0xC0 :: byte) AND 0x1f) = w div 256"
    unfolding uint_unat low_bits u mod_plus_192 [OF k] using r by simp
  then show "uint ((word_of_int (w div 256) + 0xC0 :: byte) AND 0x1f) * 256 + uint (word_of_int w :: byte) = w"
    by (simp add: uint_word_of_int)
qed

lemma int_cases:
  assumes "is_int64 v"
  obtains (i7) "0 \<le> v" "v \<le> 127" "lpEncodeIntegerGetType v = [word_of_int v]"
  | (i13) w where "- 4096 \<le> v" "v \<le> 4095" "w = (if v < 0 then 8192 + v else v)"
      "lpEncodeIntegerGetType v = [word_of_int (w div 256) + 0xC0, word_of_int w]"
  | (inb) n b where "(n, b) \<in> {(2, 0xF1), (3, 0xF2), (4, 0xF3)}" "- (2 ^ (8 * n - 1)) \<le> v" "v < 2 ^ (8 * n - 1)"
      "lpEncodeIntegerGetType v = b # put_le n (if v < 0 then 2 ^ (8 * n) + v else v)"
  | (i64) "lpEncodeIntegerGetType v = 0xF4 # put_le 8 v"
proof -
  consider "0 \<le> v \<and> v \<le> 127" | "\<not> (0 \<le> v \<and> v \<le> 127)" "- 4096 \<le> v \<and> v \<le> 4095"
    | "\<not> (- 4096 \<le> v \<and> v \<le> 4095)" "- 32768 \<le> v \<and> v \<le> 32767"
    | "\<not> (- 32768 \<le> v \<and> v \<le> 32767)" "- 8388608 \<le> v \<and> v \<le> 8388607"
    | "\<not> (- 8388608 \<le> v \<and> v \<le> 8388607)" "- 2147483648 \<le> v \<and> v \<le> 2147483647"
    | "\<not> (- 2147483648 \<le> v \<and> v \<le> 2147483647)" by argo
  then show ?thesis
  proof cases
    case 1
    then show ?thesis by (intro i7) (simp_all add: lpEncodeIntegerGetType_def)
  next
    case 2
    then show ?thesis by (intro i13 [OF _ _ refl]) (auto simp: lpEncodeIntegerGetType_def Let_def)
  next
    case 3
    then show ?thesis by (intro inb [where n = 2 and b = "0xF1"]) (auto simp: lpEncodeIntegerGetType_def Let_def)
  next
    case 4
    then show ?thesis by (intro inb [where n = 3 and b = "0xF2"]) (auto simp: lpEncodeIntegerGetType_def Let_def)
  next
    case 5
    then show ?thesis by (intro inb [where n = 4 and b = "0xF3"]) (auto simp: lpEncodeIntegerGetType_def Let_def)
  next
    case 6
    then have "lpEncodeIntegerGetType v = 0xF4 # put_le 8 v" by (auto simp: lpEncodeIntegerGetType_def)
    then show ?thesis by (rule i64)
  qed
qed

lemma int_enc_ok: "is_int64 v \<Longrightarrow> enc_ok (lpEncodeIntegerGetType v)"
proof (erule int_cases)
  assume v: "0 \<le> v" "v \<le> 127" "lpEncodeIntegerGetType v = [word_of_int v]"
  have "(word_of_int v :: byte) = of_nat (nat v)" using v(1) by simp
  then have "unat (word_of_int v :: byte) = nat v" using v(2) unat_of_nat_byte [of "nat v"] by simp
  then show ?thesis using v
    by (simp add: enc_ok_def lpCurrentEncodedSizeBytes_def lpCurrentEncodedSizeUnsafe_def lp_class Let_def)
next
  fix w
  assume w: "- 4096 \<le> v" "v \<le> 4095" "w = (if v < 0 then 8192 + v else v)"
    "lpEncodeIntegerGetType v = [word_of_int (w div 256) + 0xC0, word_of_int w]"
  have "0 \<le> w" "w < 8192" using w(1-3) by auto
  moreover from this have "w div 256 < 32" "0 \<le> w div 256" by auto
  ultimately show ?thesis using byte_13(1) [of w]
    by (simp add: w(4) enc_ok_def lpCurrentEncodedSizeBytes_def lpCurrentEncodedSizeUnsafe_def lp_class Let_def)
qed (auto simp: enc_ok_def lpCurrentEncodedSizeBytes_def lpCurrentEncodedSizeUnsafe_def lp_class Let_def)

lemma get_int:
  assumes "is_int64 v"
  shows "fst (lpGetWithSize (lpEncodeIntegerGetType v @ rest) ib old) = lp_int ib v"
  using assms
proof (rule int_cases)
  assume v: "0 \<le> v" "v \<le> 127" "lpEncodeIntegerGetType v = [word_of_int v]"
  have "(word_of_int v :: byte) = of_nat (nat v)" using v(1) by simp
  then have u: "unat (word_of_int v :: byte) = nat v" using v(2) unat_of_nat_byte [of "nat v"] by simp
  have "uint ((word_of_int v :: byte) AND 127) = v"
    unfolding uint_unat low_bits u using v by simp
  moreover have "nat v < 128" using v by simp
  ultimately show ?thesis using v u by (simp add: lpGetWithSize_def lp_class Let_def lp_signed_def UINT64_MAX_def)
next
  fix w
  assume w: "- 4096 \<le> v" "v \<le> 4095" "w = (if v < 0 then 8192 + v else v)"
    "lpEncodeIntegerGetType v = [word_of_int (w div 256) + 0xC0, word_of_int w]"
  have r: "0 \<le> w" "w < 8192" using w(1-3) by auto
  then have "nat (w div 256) < 32" "0 \<le> w div 256" by auto
  then have "fst (lpGetWithSize (lpEncodeIntegerGetType v @ rest) ib old) = lp_int ib (lp_signed w (2 ^ 12) 8191)"
    using byte_13 [OF r] by (simp add: w(4) lpGetWithSize_def lp_class Let_def)
  then show ?thesis using w(1-3) by (simp add: lp_signed_def split: if_splits)
next
  fix n b
  assume n: "(n, b) \<in> {(2, 0xF1), (3, 0xF2), (4, 0xF3)}" "- (2 ^ (8 * n - 1)) \<le> v" "v < 2 ^ (8 * n - 1)"
    "lpEncodeIntegerGetType v = b # put_le n (if v < 0 then 2 ^ (8 * n) + v else v)"
  let ?bs = "put_le n (if v < 0 then 2 ^ (8 * n) + v else v)"
  have g: "map (rd (b # ?bs @ rest)) [1..<Suc n] = ?bs" using map_rd_le [of b ?bs rest] by simp
  have s: "lp_signed (get_le ?bs) (2 ^ (8 * n - 1)) (2 ^ (8 * n) - 1) = v"
    using n(1-3) by (intro lp_signed_wrap) auto
  have "fst (lpGetWithSize (b # ?bs @ rest) ib old) = lp_int ib (lp_signed (get_le (map (rd (b # ?bs @ rest)) [1..<Suc n]))
      (2 ^ (8 * n - 1)) (2 ^ (8 * n) - 1))"
    using n(1) by (elim insertE) (simp_all add: lpGetWithSize_def lp_class Let_def del: upt_Suc upt_rec_numeral)
  then show ?thesis unfolding g s n(4) by simp
next
  assume e: "lpEncodeIntegerGetType v = 0xF4 # put_le 8 v"
  have g: "map (rd (0xF4 # put_le 8 v @ rest)) [1..<Suc 8] = put_le 8 v" using map_rd_le [of "0xF4" "put_le 8 v" rest] by simp
  have "fst (lpGetWithSize (0xF4 # put_le 8 v @ rest) ib old) =
      lp_int ib (lp_signed (get_le (map (rd (0xF4 # put_le 8 v @ rest)) [1..<Suc 8])) (2 ^ 63) (2 ^ 64 - 1))"
    by (simp add: lpGetWithSize_def lp_class Let_def del: upt_Suc upt_rec_numeral)
  then show ?thesis unfolding g lp_signed_64 [OF assms] e by simp
qed

subsection \<open>Strings\<close>

lemma str_cases:
  assumes "length s < 2 ^ 32 - 5"
  obtains (s6) b where "length s < 64" "lpEncodeString s = b # s" "unat b = length s + 128"
  | (s12) b c where "64 \<le> length s" "length s < 4096" "lpEncodeString s = b # c # s" "unat b = length s div 256 + 224"
      "unat c = length s mod 256"
  | (s32) bs where "4096 \<le> length s" "lpEncodeString s = 0xF0 # bs @ s" "length bs = 4" "get_le bs = int (length s)"
proof -
  consider "length s < 64" | "64 \<le> length s" "length s < 4096" | "4096 \<le> length s" by linarith
  then show ?thesis
  proof cases
    case 1
    have "(of_nat (length s) + 0x80 :: byte) = of_nat (length s + 128)" by simp
    then have "unat (of_nat (length s) + 0x80 :: byte) = length s + 128" using 1 unat_of_nat_byte [of "length s + 128"] by simp
    with 1 show ?thesis by (intro s6) (simp_all add: lpEncodeString_def)
  next
    case 2
    then have d: "length s div 256 < 16" by auto
    have "(of_nat (length s div 256) + 0xE0 :: byte) = of_nat (length s div 256 + 224)" by simp
    then have "unat (of_nat (length s div 256) + 0xE0 :: byte) = length s div 256 + 224"
      using d unat_of_nat_byte [of "length s div 256 + 224"] by simp
    moreover have "unat (of_nat (length s) :: byte) = length s mod 256"
      by (simp add: unat_of_nat take_bit_nat_def)
    ultimately show ?thesis using 2 by (intro s12) (simp_all add: lpEncodeString_def)
  next
    case 3
    have "int (length s) mod 256 ^ 4 = int (length s)" using assms by simp
    with 3 show ?thesis by (intro s32 [of "put_le 4 (int (length s))"]) (simp_all add: lpEncodeString_def get_put_le)
  qed
qed

lemma str32_len:
  assumes "length bs = 4"
  shows "LP_ENCODING_32BIT_STR_LEN (b # bs @ m) = nat (get_le bs)"
proof -
  obtain c0 c1 c2 c3 where bs: "bs = [c0, c1, c2, c3]"
    using assms by (auto simp: numeral_eq_Suc length_Suc_conv)
  have "rd (b # bs @ m) 1 = c0" "rd (b # bs @ m) 2 = c1" "rd (b # bs @ m) 3 = c2" "rd (b # bs @ m) 4 = c3"
    by (simp_all add: bs rd_def)
  then show ?thesis unfolding LP_ENCODING_32BIT_STR_LEN_def by (simp add: bs nat_add_distrib nat_mult_distrib)
qed

lemma str_len:
  assumes "length s < 2 ^ 32 - 5"
  shows "lpEncodeString s = take (length (lpEncodeString s) - length s) (lpEncodeString s) @ s"
    "fst (lpGetWithSize (lpEncodeString s @ rest) ib old) = StrAt (length (lpEncodeString s) - length s) (length s)"
    "enc_ok (lpEncodeString s)"
  using assms
proof (atomize (full), rule str_cases)
  fix b
  assume b: "length s < 64" "lpEncodeString s = b # s" "unat b = length s + 128"
  then have "(length s + 128) mod 64 = length s" using mod_mult_self1 [of "length s" 2 64] by simp
  then show "lpEncodeString s = take (length (lpEncodeString s) - length s) (lpEncodeString s) @ s \<and>
    fst (lpGetWithSize (lpEncodeString s @ rest) ib old) = StrAt (length (lpEncodeString s) - length s) (length s) \<and>
    enc_ok (lpEncodeString s)"
    using b by (simp add: lpGetWithSize_def lp_class Let_def LP_ENCODING_6BIT_STR_LEN_def low_bits enc_ok_def
        lpCurrentEncodedSizeBytes_def lpCurrentEncodedSizeUnsafe_def)
next
  fix b c
  assume b: "64 \<le> length s" "length s < 4096" "lpEncodeString s = b # c # s" "unat b = length s div 256 + 224"
    "unat c = length s mod 256"
  then have d: "length s div 256 < 16" by auto
  then have "(length s div 256 + 224) mod 16 = length s div 256"
    using mod_mult_self1 [of "length s div 256" 14 16] by simp
  then show "lpEncodeString s = take (length (lpEncodeString s) - length s) (lpEncodeString s) @ s \<and>
    fst (lpGetWithSize (lpEncodeString s @ rest) ib old) = StrAt (length (lpEncodeString s) - length s) (length s) \<and>
    enc_ok (lpEncodeString s)"
    using b d by (simp add: lpGetWithSize_def lp_class Let_def LP_ENCODING_12BIT_STR_LEN_def low_bits enc_ok_def
        lpCurrentEncodedSizeBytes_def lpCurrentEncodedSizeUnsafe_def numeral_2_eq_2)
next
  fix bs :: "byte list"
  assume b: "4096 \<le> length s" "lpEncodeString s = 0xF0 # bs @ s" "length bs = 4" "get_le bs = int (length s)"
  then show "lpEncodeString s = take (length (lpEncodeString s) - length s) (lpEncodeString s) @ s \<and>
    fst (lpGetWithSize (lpEncodeString s @ rest) ib old) = StrAt (length (lpEncodeString s) - length s) (length s) \<and>
    enc_ok (lpEncodeString s)"
    using str32_len [OF b(3)] assms
    by (simp add: lpGetWithSize_def lp_class Let_def enc_ok_def lpCurrentEncodedSizeBytes_def lpCurrentEncodedSizeUnsafe_def)
qed

subsection \<open>Elements in a larger memory\<close>

lemma size32_no_wrap:
  assumes "n < 2 ^ 32" "(5 + n) mod 2 ^ 32 \<ge> 5" shows "(5 + n) mod 2 ^ 32 = 5 + (n :: nat)"
proof (cases "5 + n < 2 ^ 32")
  case False
  then have "(5 + n) mod 2 ^ 32 = 5 + n - 2 ^ 32" using assms(1) by (simp add: mod_if)
  then show ?thesis using assms by simp
qed simp

lemma str32_len_lt: "LP_ENCODING_32BIT_STR_LEN m < 2 ^ 32"
proof -
  have b: "unat (rd m i) \<le> 255" for i using unat_byte [of "rd m i"] by linarith
  show ?thesis using b [of 1] b [of 2] b [of 3] b [of 4] unfolding LP_ENCODING_32BIT_STR_LEN_def by simp
qed

text \<open>What an element stands for: integers are kept as their decimal notation.\<close>

definition enc_val :: "byte list \<Rightarrow> byte list" where
  "enc_val e =
     (case lpGet e False of StrAt off n \<Rightarrow> map (rd e) [off..<off + n] | IntVal v \<Rightarrow> sdec v | IntBuf t \<Rightarrow> t)"

lemma class_cases:
  assumes "b \<noteq> LP_EOF" "0 < lpCurrentEncodedSizeBytes b"
  obtains "unat b < 128" | "128 \<le> unat b" "unat b < 192" | "192 \<le> unat b" "unat b < 224"
    | "224 \<le> unat b" "unat b < 240" | "unat b = 240" | "unat b = 241" | "unat b = 242" | "unat b = 243" | "unat b = 244"
  using assms unat_byte [of b] by (simp add: lpCurrentEncodedSizeBytes_def lp_class split: if_splits)

lemma lp_int_not_str [simp]: "lp_int ib v \<noteq> StrAt off n"
  by (simp add: lp_int_def split: prod.split)

lemma get_enc:
  assumes "enc_ok e"
  shows "fst (lpGetWithSize (e @ rest) ib old) = fst (lpGetWithSize e ib 0)"
    "snd (lpGetWithSize (e @ rest) ib old) = length e + length (lpEncodeBacklen (length e))"
    "fst (lpGetWithSize (e @ rest) ib old) = StrAt off n \<Longrightarrow> off + n = length e"
proof -
  let ?m = "e @ rest" and ?b = "rd e 0"
  have h: "rd ?m 0 = ?b" "?b = hd e" using assms by (simp_all add: enc_ok_def rd_append rd_hd)
  have sz: "lpCurrentEncodedSizeUnsafe ?m = length e" by (rule enc_size [OF assms])
  have in_e: "rd ?m i = rd e i" if "i < length e" for i using that by (simp add: rd_append)
  have uv: "map (rd ?m) [Suc 0..<k] = map (rd e) [Suc 0..<k]" if "k \<le> length e" for k
    using that by (intro map_cong refl in_e) simp
  have lb: "0 < lpCurrentEncodedSizeBytes ?b" "lpCurrentEncodedSizeBytes ?b \<le> length e" "?b \<noteq> LP_EOF"
    using assms h(2) by (auto simp: enc_ok_def)
  have bl: "length (lpEncodeBacklen k) = 1" if "k \<le> 127" for k using that by (simp add: lpEncodeBacklen_def)
  from lb(3,1) have "fst (lpGetWithSize ?m ib old) = fst (lpGetWithSize e ib 0) \<and>
    snd (lpGetWithSize ?m ib old) = length e + length (lpEncodeBacklen (length e)) \<and>
    (fst (lpGetWithSize ?m ib old) = StrAt off n \<longrightarrow> off + n = length e)"
  proof (cases rule: class_cases)
    case 1
    then have "length e = 1" using sz h by (simp add: lpCurrentEncodedSizeUnsafe_def lp_class Let_def)
    with 1 show ?thesis using h by (simp add: lpGetWithSize_def lp_class Let_def bl)
  next
    case 2
    then show ?thesis using sz h
      by (auto simp: lpCurrentEncodedSizeUnsafe_def lpGetWithSize_def lp_class Let_def LP_ENCODING_6BIT_STR_LEN_def)
  next
    case 3
    then have l: "length e = 2" using sz h by (simp add: lpCurrentEncodedSizeUnsafe_def lp_class Let_def)
    with 3 show ?thesis using h in_e [of 1] by (simp add: lpGetWithSize_def lp_class Let_def bl)
  next
    case 4
    then have "rd ?m 1 = rd e 1" using in_e [of 1] lb(2) by (simp add: lpCurrentEncodedSizeBytes_def lp_class)
    with 4 show ?thesis using sz h
      by (auto simp: lpCurrentEncodedSizeUnsafe_def lpGetWithSize_def lp_class Let_def LP_ENCODING_12BIT_STR_LEN_def)
  next
    case 5
    have "5 \<le> length e" using lb(2) 5 by (simp add: lpCurrentEncodedSizeBytes_def lp_class)
    then have "LP_ENCODING_32BIT_STR_LEN ?m = LP_ENCODING_32BIT_STR_LEN e"
      using in_e [of 1] in_e [of 2] in_e [of 3] in_e [of 4] by (simp add: LP_ENCODING_32BIT_STR_LEN_def)
    moreover have "length e = (5 + LP_ENCODING_32BIT_STR_LEN ?m) mod 2 ^ 32"
      using sz h 5 by (simp add: lpCurrentEncodedSizeUnsafe_def lp_class Let_def)
    then have "length e = 5 + LP_ENCODING_32BIT_STR_LEN ?m"
      using size32_no_wrap [OF str32_len_lt, of ?m] \<open>5 \<le> length e\<close> by simp
    ultimately show ?thesis using h 5 by (auto simp: lpGetWithSize_def lp_class Let_def add.commute)
  next
    case 6
    then have l: "length e = Suc 2" using sz h by (simp add: lpCurrentEncodedSizeUnsafe_def lp_class Let_def)
    show ?thesis using h 6 l
      by (simp add: lpGetWithSize_def lp_class Let_def bl uv del: upt_Suc upt_rec_numeral)
  next
    case 7
    then have l: "length e = Suc 3" using sz h by (simp add: lpCurrentEncodedSizeUnsafe_def lp_class Let_def)
    show ?thesis using h 7 l
      by (simp add: lpGetWithSize_def lp_class Let_def bl uv del: upt_Suc upt_rec_numeral)
  next
    case 8
    then have l: "length e = Suc 4" using sz h by (simp add: lpCurrentEncodedSizeUnsafe_def lp_class Let_def)
    show ?thesis using h 8 l
      by (simp add: lpGetWithSize_def lp_class Let_def bl uv del: upt_Suc upt_rec_numeral)
  next
    case 9
    then have l: "length e = Suc 8" using sz h by (simp add: lpCurrentEncodedSizeUnsafe_def lp_class Let_def)
    show ?thesis using h 9 l
      by (simp add: lpGetWithSize_def lp_class Let_def bl uv del: upt_Suc upt_rec_numeral)
  qed
  then show "fst (lpGetWithSize (e @ rest) ib old) = fst (lpGetWithSize e ib 0)"
    "snd (lpGetWithSize (e @ rest) ib old) = length e + length (lpEncodeBacklen (length e))"
    "fst (lpGetWithSize (e @ rest) ib old) = StrAt off n \<Longrightarrow> off + n = length e" by simp_all
qed

lemma val_int: "is_int64 v \<Longrightarrow> enc_val (lpEncodeIntegerGetType v) = sdec v"
  using get_int [of v "[]" False 0] by (simp add: enc_val_def lpGet_def lp_int_def)

lemma val_str:
  assumes "length s < 2 ^ 32 - 5"
  shows "enc_val (lpEncodeString s) = s"
proof -
  let ?e = "lpEncodeString s" and ?k = "length (lpEncodeString s) - length s"
  have e: "?e = take ?k ?e @ s" by (rule str_len(1) [OF assms])
  have l: "length (take ?k ?e) = ?k" by simp
  have "map (rd ?e) [?k..<?k + length s] = s"
    using map_rd [of "take ?k ?e" s "[]"] unfolding l append_Nil2 e [symmetric] .
  then show ?thesis using str_len(2) [OF assms, of "[]" False 0] by (simp add: enc_val_def lpGet_def)
qed

text \<open>The encoding \<^verbatim>\<open>lpInsert\<close> chooses for a string.\<close>

definition lp_encode :: "byte list \<Rightarrow> byte list" where
  "lp_encode s = (case lpEncodeGetType s of (Some intenc, n) \<Rightarrow> intenc | (None, n) \<Rightarrow> lpEncodeString s)"

lemma lp_encode_ok:
  assumes "length s < 2 ^ 32 - 5"
  shows "enc_ok (lp_encode s)" "enc_val (lp_encode s) = s" "snd (lpEncodeGetType s) = length (lp_encode s)"
proof -
  have len: "length (lpEncodeString s) = (if length s < 64 then 1 + length s else if length s < 4096 then 2 + length s else 5 + length s)"
    by (simp add: lpEncodeString_def)
  show "enc_ok (lp_encode s)" "enc_val (lp_encode s) = s" "snd (lpEncodeGetType s) = length (lp_encode s)"
    using int_enc_ok val_int val_str [OF assms] str_len(3) [OF assms] len
    by (auto simp: lp_encode_def lpEncodeGetType_def lpStringToInt64_eq string2ll_iff split: option.splits)
qed

end
