(* ===== verification/Listpack_List.thy ===== *)
theory Listpack_List
  imports Listpack
begin

text \<open>
  The operations of \<^verbatim>\<open>listpack.c\<close> on well-formed listpacks: a listpack is the encoding of a list of
  elements, every traversal visits exactly these, and every change makes the corresponding change
  of the list. Validation is treated for arbitrary bytes.
\<close>

section \<open>Well-formed listpacks\<close>

definition entry :: "byte list \<Rightarrow> byte list" where
  "entry e = e @ lpEncodeBacklen (length e)"

definition body :: "byte list list \<Rightarrow> byte list" where
  "body es = concat (map entry es)"

definition hdr :: "nat \<Rightarrow> nat \<Rightarrow> byte list" where
  "hdr tot n = put_le 4 (int tot) @ put_le 2 (int n)"

definition lp_of :: "nat \<Rightarrow> byte list list \<Rightarrow> byte list" where
  "lp_of n es = hdr (7 + length (body es)) n @ body es @ [LP_EOF]"

text \<open>The number in the header is the length of the list, or says that it is not known.\<close>

definition numele_ok :: "nat \<Rightarrow> byte list list \<Rightarrow> bool" where
  "numele_ok n es \<longleftrightarrow> n = LP_HDR_NUMELE_UNKNOWN \<or> n < LP_HDR_NUMELE_UNKNOWN \<and> n = length es"

definition lp_ok :: "nat \<Rightarrow> byte list list \<Rightarrow> bool" where
  "lp_ok n es \<longleftrightarrow> numele_ok n es \<and> (\<forall>e \<in> set es. enc_ok e) \<and> 7 + length (body es) < 2 ^ 32"

text \<open>\<open>represents lp vs\<close>: \<open>lp\<close> is a well-formed listpack of the strings \<open>vs\<close>.\<close>

definition represents :: "byte list \<Rightarrow> byte list list \<Rightarrow> bool" where
  "represents lp vs \<longleftrightarrow> (\<exists>n es. lp = lp_of n es \<and> lp_ok n es \<and> vs = map enc_val es)"

definition pos :: "byte list list \<Rightarrow> nat \<Rightarrow> nat" where
  "pos es i = LP_HDR_SIZE + length (body (take i es))"

lemma length_hdr [simp]: "length (hdr a b) = LP_HDR_SIZE"
  by (simp add: hdr_def LP_HDR_SIZE_def)

lemma body_simps [simp]: "body [] = []" "body (e # es) = entry e @ body es" "body (es @ fs) = body es @ body fs"
  by (simp_all add: body_def)

lemma length_entry: "length (entry e) = length e + length (lpEncodeBacklen (length e))"
  by (simp add: entry_def)

lemma length_lp_of: "length (lp_of n es) = 7 + length (body es)"
  by (simp add: lp_of_def LP_HDR_SIZE_def)

lemma lp_total: "lp_ok n es \<Longrightarrow> lpGetTotalBytes (lp_of n es) = 7 + length (body es)"
  by (simp add: lpGetTotalBytes_def lp_of_def hdr_def read_at_def get_put_le lp_ok_def)

lemma lp_num: "lp_ok n es \<Longrightarrow> lpGetNumElements (lp_of n es) = n"
  by (auto simp: lpGetNumElements_def lp_of_def hdr_def read_at_def get_put_le lp_ok_def numele_ok_def LP_HDR_NUMELE_UNKNOWN_def)

lemma pos_0 [simp]: "pos es 0 = LP_HDR_SIZE"
  by (simp add: pos_def)

lemma pos_Suc: "i < length es \<Longrightarrow> pos es (Suc i) = pos es i + length (entry (es ! i))"
  by (simp add: pos_def take_Suc_conv_app_nth)

lemma pos_end: "pos es (length es) = 6 + length (body es)"
  by (simp add: pos_def LP_HDR_SIZE_def)

lemma pos_le: "pos es i \<le> 6 + length (body es)"
proof -
  have "length (body (take i es @ drop i es)) = length (body (take i es)) + length (body (drop i es))"
    unfolding body_simps by simp
  then show ?thesis by (simp add: pos_def LP_HDR_SIZE_def)
qed

text \<open>The memory around an element.\<close>

lemma lp_split:
  assumes "i \<le> length es"
  obtains pre where "lp_of n es = pre @ body (drop i es) @ [LP_EOF]" "length pre = pos es i"
proof -
  have "lp_of n es = (hdr (7 + length (body es)) n @ body (take i es)) @ body (drop i es) @ [LP_EOF]"
    unfolding lp_of_def by (simp del: body_simps(3) add: body_simps(3) [symmetric])
  then show ?thesis by (rule that) (simp add: pos_def)
qed

lemma lp_split_entry:
  assumes "i < length es"
  obtains pre where "lp_of n es = pre @ entry (es ! i) @ body (drop (Suc i) es) @ [LP_EOF]" "length pre = pos es i"
proof -
  obtain pre where "lp_of n es = pre @ body (drop i es) @ [LP_EOF]" "length pre = pos es i"
    using assms by (rule lp_split [OF less_imp_le])
  moreover have "drop i es = es ! i # drop (Suc i) es" using assms by (simp add: Cons_nth_drop_Suc)
  ultimately show ?thesis by (intro that) simp_all
qed

lemma drop_entry:
  assumes "i < length es"
  shows "drop (pos es i) (lp_of n es) = es ! i @ lpEncodeBacklen (length (es ! i)) @ body (drop (Suc i) es) @ [LP_EOF]"
proof -
  obtain pre where "lp_of n es = pre @ entry (es ! i) @ body (drop (Suc i) es) @ [LP_EOF]" "length pre = pos es i"
    by (rule lp_split_entry [OF assms])
  then show ?thesis by (simp add: entry_def)
qed

lemma nth_enc_ok: "lp_ok n es \<Longrightarrow> i < length es \<Longrightarrow> enc_ok (es ! i)"
  by (simp add: lp_ok_def)

lemma rd_entry:
  assumes "lp_ok n es" "i < length es"
  shows "rd (lp_of n es) (pos es i) = hd (es ! i)" "hd (es ! i) \<noteq> LP_EOF"
proof -
  have e: "enc_ok (es ! i)" by (rule nth_enc_ok [OF assms])
  then show "hd (es ! i) \<noteq> LP_EOF" by (simp add: enc_ok_def)
  have "rd (lp_of n es) (pos es i) = rd (drop (pos es i) (lp_of n es)) 0" by simp
  also have "\<dots> = hd (es ! i)" unfolding drop_entry [OF assms(2)] using e by (simp add: rd_append rd_hd enc_ok_def)
  finally show "rd (lp_of n es) (pos es i) = hd (es ! i)" .
qed

lemma rd_end: "rd (lp_of n es) (6 + length (body es)) = LP_EOF"
  by (simp add: lp_of_def rd_append LP_HDR_SIZE_def)

lemma size_entry:
  assumes "lp_ok n es" "i < length es"
  shows "lpCurrentEncodedSizeUnsafe (drop (pos es i) (lp_of n es)) = length (es ! i)"
  unfolding drop_entry [OF assms(2)] by (rule enc_size [OF nth_enc_ok [OF assms]])

lemma lpSkip_pos: "lp_ok n es \<Longrightarrow> i < length es \<Longrightarrow> lpSkip (lp_of n es) (pos es i) = pos es (Suc i)"
  by (simp add: lpSkip_def size_entry pos_Suc length_entry Let_def)

lemma decode_pos:
  assumes "lp_ok n es" "i < length es"
  shows "lpDecodeBacklen (lp_of n es) (pos es (Suc i) - 1) = length (es ! i)"
proof -
  let ?e = "es ! i"
  obtain pre where pre: "lp_of n es = pre @ entry ?e @ body (drop (Suc i) es) @ [LP_EOF]" "length pre = pos es i"
    by (rule lp_split_entry [OF assms(2)])
  have l: "length ?e < 2 ^ 35" using enc_length [OF nth_enc_ok [OF assms]] by simp
  show ?thesis
    using decode_backlen [OF l, of "pre @ ?e" "body (drop (Suc i) es) @ [LP_EOF]"] pre
    by (simp add: entry_def pos_Suc assms(2) add.assoc)
qed

section \<open>Validation and traversal\<close>

lemma in_range_pos:
  assumes "i \<le> length es"
  shows "\<not> out_of_range (7 + length (body es)) (pos es i)"
  using pos_le [of es i] by (simp add: out_of_range_def pos_def)

lemma validate_pos:
  assumes "lp_ok n es" "i < length es"
  shows "lpValidateNext (lp_of n es) (Some (pos es i)) (7 + length (body es)) = Some (Some (pos es (Suc i)))"
proof -
  let ?e = "es ! i" and ?N = "7 + length (body es)"
  have e: "enc_ok ?e" by (rule nth_enc_ok [OF assms])
  have p1: "pos es (Suc i) = pos es i + length (entry ?e)" by (rule pos_Suc [OF assms(2)])
  have r: "\<not> out_of_range ?N (pos es i)" "\<not> out_of_range ?N (pos es (Suc i))" using assms(2) by (simp_all add: in_range_pos)
  have "lpCurrentEncodedSizeBytes (hd ?e) \<le> length (entry ?e)" using e by (simp add: enc_ok_def length_entry)
  then have r1: "\<not> out_of_range ?N (pos es i + lpCurrentEncodedSizeBytes (hd ?e))"
    using r by (auto simp: out_of_range_def p1)
  have "length (entry ?e) < 2 ^ 64"
    using r(2) assms(1) by (simp add: out_of_range_def p1 lp_ok_def)
  then have m: "(length ?e + length (lpEncodeBacklen (length ?e))) mod 2 ^ 64 = length ?e + length (lpEncodeBacklen (length ?e))"
    by (simp add: length_entry)
  show ?thesis
    using rd_entry [OF assms] e r r1 m decode_pos [OF assms]
    by (simp add: lpValidateNext_def Let_def size_entry [OF assms] enc_ok_def length_entry [symmetric] p1 [symmetric])
qed

lemma valid_pos: "lp_ok n es \<Longrightarrow> i < length es \<Longrightarrow> lpAssertValidEntry (lp_of n es) (lpBytes (lp_of n es)) (pos es i)"
  by (simp add: lpAssertValidEntry_def lpBytes_def lp_total validate_pos)

definition pos_opt :: "byte list list \<Rightarrow> nat \<Rightarrow> nat option" where
  "pos_opt es i = (if i < length es then Some (pos es i) else None)"

lemma rd_pos_end: "rd (lp_of n es) (pos es (length es)) = LP_EOF"
  by (simp add: pos_end rd_end)

lemma eof_iff:
  assumes "lp_ok n es" "i \<le> length es"
  shows "rd (lp_of n es) (pos es i) = LP_EOF \<longleftrightarrow> i = length es"
  using rd_entry [OF assms(1), of i] assms(2) rd_pos_end [of n es] by (cases "i = length es") auto

lemma lpNext_pos:
  assumes "lp_ok n es" "i < length es"
  shows "lpNext (lp_of n es) (pos es i) = Some (pos_opt es (Suc i))"
  using eof_iff [OF assms(1), of "Suc i"] valid_pos [OF assms(1), of "Suc i"] assms
  by (auto simp: lpNext_def lpSkip_pos pos_opt_def Let_def)

lemma lpFirst_pos: "lp_ok n es \<Longrightarrow> lpFirst (lp_of n es) = Some (pos_opt es 0)"
  using eof_iff [of n es 0] valid_pos [of n es 0] by (auto simp: lpFirst_def pos_opt_def)

lemma pos_gt:
  assumes "i < length es" shows "LP_HDR_SIZE < pos es (Suc i)"
  using pos_Suc [OF assms] length_backlen_pos by (simp add: length_entry pos_def)

lemma lpPrev_pos:
  assumes "lp_ok n es" "i \<le> length es"
  shows "lpPrev (lp_of n es) (pos es i) = Some (if i = 0 then None else Some (pos es (i - 1)))"
proof (cases i)
  case 0
  then show ?thesis by (simp add: lpPrev_def)
next
  case (Suc j)
  then have j: "j < length es" using assms(2) by simp
  let ?e = "es ! j"
  have p: "pos es (Suc j) = pos es j + length (entry ?e)" by (rule pos_Suc [OF j])
  have "length (entry ?e) \<le> pos es (Suc j)" using p by simp
  then have "length (entry ?e) < 2 ^ 64" using pos_le [of es "Suc j"] assms(1) by (simp add: lp_ok_def)
  then show ?thesis using pos_gt [OF j] decode_pos [OF assms(1) j] valid_pos [OF assms(1) j] p
    by (simp add: lpPrev_def Suc Let_def length_entry)
qed

lemma lpLast_pos: "lp_ok n es \<Longrightarrow> lpLast (lp_of n es) = Some (if es = [] then None else Some (pos es (length es - 1)))"
  using lpPrev_pos [of n es "length es"] by (simp add: lpLast_def lp_total pos_end)

lemma lpCount_pos:
  assumes "lp_ok n es" "i \<le> length es"
  shows "lpCount (lp_of n es) (pos_opt es i) c = Some (c + (length es - i))"
  using assms(2)
proof (induction "length es - i" arbitrary: i c)
  case (Suc k)
  then have i: "i < length es" by simp
  then have "lpCount (lp_of n es) (pos_opt es i) c = lpCount (lp_of n es) (pos_opt es (Suc i)) (c + 1)"
    using lpNext_pos [OF assms(1) i] by (simp add: pos_opt_def)
  then show ?case using Suc.hyps(1) [of "Suc i" "c + 1"] Suc.hyps(2) i by simp
qed (simp add: pos_opt_def)

lemma lpSeek_forward_pos:
  assumes "lp_ok n es"
  shows "lpSeek_forward (lp_of n es) k (pos_opt es i) = Some (pos_opt es (i + k))"
proof (induction k arbitrary: i)
  case (Suc k)
  show ?case
  proof (cases "i < length es")
    case True
    then show ?thesis using Suc.IH [of "Suc i"] lpNext_pos [OF assms True] by (simp add: pos_opt_def)
  qed (simp add: pos_opt_def)
qed simp

lemma lpSeek_backward_pos:
  assumes "lp_ok n es" "i < length es"
  shows "lpSeek_backward (lp_of n es) k (Some (pos es i)) = Some (if k \<le> i then Some (pos es (i - k)) else None)"
  using assms(2)
proof (induction k arbitrary: i)
  case (Suc k)
  then show ?case using Suc.IH [of "i - 1"] lpPrev_pos [OF assms(1), of i] by (cases i) auto
qed simp

lemma lpSeek_backward_None [simp]: "lpSeek_backward lp k None = Some None"
  by (cases k) simp_all

text \<open>The index that a positive or negative index stands for.\<close>

definition seek_index :: "'a list \<Rightarrow> int \<Rightarrow> nat option" where
  "seek_index xs index =
     (let i = (if index < 0 then int (length xs) + index else index) in
      if 0 \<le> i \<and> i < int (length xs) then Some (nat i) else None)"

lemma lpSeek_pos:
  assumes "lp_ok n es"
  shows "lpSeek (lp_of n es) index = Some (map_option (pos es) (seek_index es index))"
proof -
  have fwd: "lpSeek_scan (lp_of n es) True i = Some (pos_opt es (nat i))" for i
    using lpSeek_forward_pos [OF assms, of "nat i" 0] by (simp add: lpSeek_scan_def lpFirst_pos [OF assms])
  have bwd: "lpSeek_scan (lp_of n es) False i =
      Some (if int (length es) + i \<ge> 0 then Some (pos es (nat (int (length es) + i))) else None)" if "i < 0" for i
  proof (cases "es = []")
    case True
    then show ?thesis using that lpLast_pos [OF assms] by (simp add: lpSeek_scan_def)
  next
    case False
    have "nat (- 1 - i) \<le> length es - 1 \<longleftrightarrow> int (length es) + i \<ge> 0"
      "length es - 1 - nat (- 1 - i) = nat (int (length es) + i)" using that False by (cases es; simp; linarith)+
    then show ?thesis using that False lpSeek_backward_pos [OF assms, of "length es - 1" "nat (- 1 - i)"]
      by (simp add: lpSeek_scan_def lpLast_pos [OF assms])
  qed
  consider "n = LP_HDR_NUMELE_UNKNOWN" | "n \<noteq> LP_HDR_NUMELE_UNKNOWN" "n = length es"
    using assms by (auto simp: lp_ok_def numele_ok_def)
  then show ?thesis
  proof cases
    case 1
    then have "lpSeek (lp_of n es) index = lpSeek_scan (lp_of n es) (\<not> index < 0) index"
      using lp_num [OF assms] by (simp add: lpSeek_def)
    then show ?thesis by (cases "index < 0") (auto simp: fwd bwd seek_index_def pos_opt_def)
  next
    case 2
    define i where "i = (if index < 0 then int (length es) + index else index)"
    have s: "lpSeek (lp_of n es) index =
        (if i < 0 \<or> i \<ge> int (length es) then Some None
         else if i > int (length es) div 2 then lpSeek_scan (lp_of n es) False (i - int (length es))
         else lpSeek_scan (lp_of n es) True i)"
      using lp_num [OF assms] 2(1) unfolding 2(2) [symmetric] by (simp add: lpSeek_def i_def Let_def 2(2) [symmetric])
    have si: "seek_index es index = (if i < 0 \<or> i \<ge> int (length es) then None else Some (nat i))"
      by (auto simp: seek_index_def i_def Let_def)
    show ?thesis
    proof (cases "i < 0 \<or> i \<ge> int (length es)")
      case False
      then have "i - int (length es) < 0" by simp
      from bwd [OF this] False show ?thesis by (auto simp: s si fwd pos_opt_def)
    qed (simp add: s si)
  qed
qed

section \<open>Changing a listpack\<close>

lemma write_at_0: "write_at 0 bs (xs @ ys) = bs @ ys" if "length bs = length xs"
  using that by (simp add: write_at_def)

lemma set_total: "lpSetTotalBytes (hdr a b @ r) v = hdr v b @ r"
  by (simp add: lpSetTotalBytes_def hdr_def write_at_0)

lemma set_num: "lpSetNumElements (hdr a b @ r) v = hdr a v @ r"
  by (simp add: lpSetNumElements_def hdr_def write_at_def)

lemma get_num: "b < 65536 \<Longrightarrow> lpGetNumElements (hdr a b @ r) = b"
  by (simp add: lpGetNumElements_def hdr_def read_at_def get_put_le)

lemma get_total: "a < 2 ^ 32 \<Longrightarrow> lpGetTotalBytes (hdr a b @ r) = a"
  by (simp add: lpGetTotalBytes_def hdr_def read_at_def get_put_le)

lemma write_two:
  assumes "p + length a + length b \<le> length x"
  shows "write_at (p + length a) b (write_at p a x) = take p x @ a @ b @ drop (p + length a + length b) x"
proof -
  have "p \<le> length x" using assms by simp
  then show ?thesis using assms by (simp add: write_at_def add_ac)
qed

text \<open>The memory moves of \<^verbatim>\<open>lpInsert\<close> put the new bytes in the place of the old ones.\<close>

lemma store_append:
  assumes "lp = pre @ mid @ post" "lpGetTotalBytes lp = length lp"
  shows "lpInsert_store lp (length pre) (length mid) ele (length ele) bl = pre @ ele @ bl @ post"
proof -
  let ?add = "length ele + length bl" and ?old = "length pre + length mid + length post"
  let ?new = "?old + ?add - length mid"
  define lp1 where "lp1 = (if ?new > ?old then zrealloc ?new lp else lp)"
  define lp2 where "lp2 = memmove (length pre + ?add) (length pre + length mid) (length post) lp1"
  define lp3 where "lp3 = (if ?new < ?old then zrealloc ?new lp2 else lp2)"
  have l1: "\<exists>z. lp1 = pre @ mid @ post @ z \<and> length lp1 = max ?new ?old"
    using assms(1) by (auto simp: lp1_def zrealloc_def)
  then obtain z where z: "lp1 = pre @ mid @ post @ z" "length lp1 = max ?new ?old" by blast
  have "read_at (length pre + length mid) (length post) lp1 = post" by (simp add: z(1) read_at_def)
  then have l2: "lp2 = take (length pre + ?add) lp1 @ post @ drop (length pre + ?add + length post) lp1"
    by (simp add: lp2_def memmove_def write_at_def)
  have len: "length pre + ?add \<le> length lp1" "length pre + ?add + length post = ?new" using z(2) by auto
  have l3: "lp3 = take (length pre + ?add) lp1 @ post"
  proof (cases "?new < ?old")
    case True
    then show ?thesis using len z(2) by (simp add: lp3_def zrealloc_def l2)
  next
    case False
    then have "length lp1 = ?new" using z(2) by simp
    then show ?thesis using False len by (simp add: lp3_def l2)
  qed
  have "take (length pre) lp3 = pre" using len(1) by (simp add: l3 min_def) (simp add: z(1))
  moreover have "drop (length pre + ?add) lp3 = post" using len(1) by (simp add: l3)
  moreover have "length pre + length ele + length bl \<le> length lp3" using len by (simp add: l3)
  ultimately have "write_at (length pre + length ele) bl (write_at (length pre) ele lp3) = pre @ ele @ bl @ post"
    by (simp add: write_two add.assoc)
  moreover have "lpInsert_store lp (length pre) (length mid) ele (length ele) bl =
      write_at (length pre + length ele) bl (write_at (length pre) ele lp3)"
    using assms by (simp add: lpInsert_store_def Let_def lp1_def lp2_def lp3_def)
  ultimately show ?thesis by simp
qed

definition num_after :: "nat \<Rightarrow> lp_arg \<Rightarrow> lp_where \<Rightarrow> nat" where
  "num_after n arg wh =
     (if n = LP_HDR_NUMELE_UNKNOWN then n
      else if arg = NoArg then n - 1
      else if wh = LP_REPLACE then n
      else n + 1)"

lemma insert_header:
  assumes "n < 65536"
  shows "lpInsert_header (hdr a n @ r) wh (arg = NoArg) v = hdr v (num_after n arg wh) @ r"
  using assms by (simp add: lpInsert_header_def get_num set_num set_total num_after_def Let_def)

text \<open>The encoded element an argument stands for.\<close>

fun arg_enc :: "lp_arg \<Rightarrow> byte list" where
  "arg_enc (StrArg s) = lp_encode s"
| "arg_enc (IntArg e) = e"
| "arg_enc NoArg = []"

fun arg_ok :: "lp_arg \<Rightarrow> bool" where
  "arg_ok (StrArg s) \<longleftrightarrow> length s < 2 ^ 32 - 5"
| "arg_ok (IntArg e) \<longleftrightarrow> enc_ok e"
| "arg_ok NoArg \<longleftrightarrow> False"

lemma arg_enc_ok: "arg_ok arg \<Longrightarrow> enc_ok (arg_enc arg)"
  by (cases arg) (simp_all add: lp_encode_ok)

lemma arg_encode:
  assumes "arg_ok arg \<or> arg = NoArg"
  shows "(case arg of
      StrArg s \<Rightarrow> (case lpEncodeGetType s of (Some intenc, n) \<Rightarrow> (intenc, n) | (None, n) \<Rightarrow> (lpEncodeString s, n))
    | IntArg e \<Rightarrow> (e, length e)
    | NoArg \<Rightarrow> ([], 0)) = (arg_enc arg, length (arg_enc arg))"
proof (cases arg)
  case (StrArg s)
  then have "snd (lpEncodeGetType s) = length (lp_encode s)" using assms lp_encode_ok(3) by simp
  then show ?thesis using StrArg by (auto simp: lp_encode_def split: prod.splits option.splits)
qed (use assms in simp_all)

text \<open>
  \<^verbatim>\<open>lpInsert\<close> at the \<open>i\<close>-th element, after the case \<^verbatim>\<open>LP_AFTER\<close> has been reduced: \<open>m\<close> is 1 when the element is
  replaced, and 0 otherwise.
\<close>

definition new_entry :: "lp_arg \<Rightarrow> byte list" where
  "new_entry arg = (if arg = NoArg then [] else entry (arg_enc arg))"

lemma insert_split:
  assumes ok: "lp_ok n es" and i: "i + m \<le> length es" and m: "m \<le> 1"
  obtains "lpInsert_store (lp_of n es) (pos es i) (length (body (take m (drop i es)))) a (length a) b =
      hdr (7 + length (body es)) n @ body (take i es) @ a @ b @ body (drop (i + m) es) @ [LP_EOF]"
proof -
  let ?pre = "hdr (7 + length (body es)) n @ body (take i es)"
  have d: "drop i es = take m (drop i es) @ drop (i + m) es" by (metis append_take_drop_id add.commute drop_drop)
  have "lp_of n es = ?pre @ body (drop i es) @ [LP_EOF]"
    unfolding lp_of_def by (simp del: body_simps(3) add: body_simps(3) [symmetric])
  also have "body (drop i es) = body (take m (drop i es)) @ body (drop (i + m) es)" by (subst d) (rule body_simps(3))
  finally have "lp_of n es = ?pre @ body (take m (drop i es)) @ (body (drop (i + m) es) @ [LP_EOF])" by simp
  moreover have "lpGetTotalBytes (lp_of n es) = length (lp_of n es)" by (simp add: lp_total [OF ok] length_lp_of)
  moreover have "length ?pre = pos es i" by (simp add: pos_def)
  ultimately show ?thesis using that store_append [of "lp_of n es" ?pre] by simp
qed

text \<open>The list after the call.\<close>

definition list_after :: "byte list list \<Rightarrow> nat \<Rightarrow> lp_arg \<Rightarrow> lp_where \<Rightarrow> byte list list" where
  "list_after es i arg wh =
     take i es @ (if arg = NoArg then [] else [arg_enc arg]) @ drop (if wh = LP_REPLACE then Suc i else i) es"

definition call_ok :: "byte list list \<Rightarrow> nat \<Rightarrow> lp_arg \<Rightarrow> lp_where \<Rightarrow> bool" where
  "call_ok es i arg wh \<longleftrightarrow>
     (arg = NoArg \<and> wh = LP_REPLACE \<or> arg_ok arg \<and> wh \<noteq> LP_AFTER) \<and> (if wh = LP_REPLACE then i < length es else i \<le> length es)"

lemma list_after_ok:
  assumes "lp_ok n es" "call_ok es i arg wh" "7 + length (body (list_after es i arg wh)) < 2 ^ 32"
  shows "lp_ok (num_after n arg wh) (list_after es i arg wh)"
proof -
  have "\<forall>e \<in> set (list_after es i arg wh). enc_ok e"
    using assms(1,2) arg_enc_ok
    by (auto simp: list_after_def lp_ok_def call_ok_def dest: in_set_takeD in_set_dropD split: if_splits)
  moreover have "numele_ok (num_after n arg wh) (list_after es i arg wh)"
    using assms(1,2) by (auto simp: numele_ok_def lp_ok_def list_after_def call_ok_def num_after_def LP_HDR_NUMELE_UNKNOWN_def)
  ultimately show ?thesis using assms(3) by (simp add: lp_ok_def)
qed

lemma length_body_split:
  assumes "i \<le> j" shows "length (body es) = length (body (take i es)) + length (body (take (j - i) (drop i es))) + length (body (drop j es))"
proof -
  have "es = take i es @ take (j - i) (drop i es) @ drop j es"
    using assms by (metis append_take_drop_id drop_drop le_add_diff_inverse2)
  then have "length (body es) = length (body (take i es @ take (j - i) (drop i es) @ drop j es))" by metis
  then show ?thesis unfolding body_simps by simp
qed

lemma rd_hdr: "LP_HDR_SIZE \<le> i \<Longrightarrow> rd (hdr a b @ r) i = rd (hdr c d @ r) i"
  by (simp add: rd_append)

lemma lpInsert_core:
  assumes ok: "lp_ok n es" and call: "call_ok es i arg wh"
  shows "lpInsert (lp_of n es) arg (pos es i) wh =
    (if 7 + length (body (list_after es i arg wh)) \<ge> 2 ^ 32 then Null
     else Ret (lp_of (num_after n arg wh) (list_after es i arg wh),
       if arg = NoArg then pos_opt (list_after es i arg wh) i else Some (pos es i)))"
proof -
  define m where "m = (if wh = LP_REPLACE then 1 else 0 :: nat)"
  define bl where "bl = (if arg \<noteq> NoArg then lpEncodeBacklen (length (arg_enc arg)) else [])"
  define mid where "mid = length (body (take m (drop i es)))"
  let ?es' = "list_after es i arg wh" and ?a = "arg_enc arg" and ?lp = "lp_of n es"
  have im: "i + m \<le> length es" "m \<le> 1" using call by (auto simp: call_ok_def m_def split: if_splits)
  have n: "n < 65536" using ok by (auto simp: lp_ok_def numele_ok_def LP_HDR_NUMELE_UNKNOWN_def)
  have es': "body ?es' = body (take i es) @ ?a @ bl @ body (drop (i + m) es)"
    by (simp add: list_after_def bl_def m_def entry_def)
  have bes: "length (body es) = length (body (take i es)) + mid + length (body (drop (i + m) es))"
    using length_body_split [of i "i + m" es] by (simp add: mid_def)
  have repl: "(if wh = LP_REPLACE
      then (lpCurrentEncodedSizeUnsafe (drop (pos es i) ?lp) +
        length (lpEncodeBacklen (lpCurrentEncodedSizeUnsafe (drop (pos es i) ?lp)))) mod 2 ^ 32 else 0) = mid"
  proof (cases "wh = LP_REPLACE")
    case True
    then have i: "i < length es" using im by (simp add: m_def)
    then have "take 1 (drop i es) = [es ! i]" by (simp add: hd_drop_conv_nth take_Suc)
    then have "mid = length (entry (es ! i))" using True by (simp add: mid_def m_def)
    moreover have "mid < 2 ^ 32" using ok bes by (simp add: lp_ok_def)
    ultimately show ?thesis using True by (simp add: size_entry [OF ok i] length_entry)
  qed (simp add: mid_def m_def)
  have assert: "ASSERT_INTEGRITY_LEN ?lp (pos es i) mid"
    using bes by (simp add: ASSERT_INTEGRITY_LEN_def lp_total [OF ok] pos_def LP_HDR_SIZE_def)
  have new: "lpGetTotalBytes ?lp + length ?a + length bl - mid = 7 + length (body ?es')"
    using bes by (simp add: lp_total [OF ok] es')
  obtain st: "lpInsert_store ?lp (pos es i) mid ?a (length ?a) bl =
      hdr (7 + length (body es)) n @ body (take i es) @ ?a @ bl @ body (drop (i + m) es) @ [LP_EOF]"
    unfolding mid_def by (rule insert_split [OF ok im])
  then have st': "lpInsert_store ?lp (pos es i) mid ?a (length ?a) bl =
      hdr (7 + length (body es)) n @ body ?es' @ [LP_EOF]" unfolding es' by simp
  have i': "i \<le> length ?es'" using im by (simp add: list_after_def)
  have p': "pos ?es' i = pos es i" using im by (simp add: list_after_def pos_def)
  have eof: "rd (hdr (7 + length (body es)) n @ body ?es' @ [LP_EOF]) (pos es i) = LP_EOF \<longleftrightarrow> i = length ?es'"
    if "7 + length (body ?es') < 2 ^ 32"
  proof -
    have "rd (hdr (7 + length (body es)) n @ body ?es' @ [LP_EOF]) (pos es i) = rd (lp_of (num_after n arg wh) ?es') (pos ?es' i)"
      unfolding lp_of_def p' by (rule rd_hdr) (simp add: pos_def)
    then show ?thesis using eof_iff [OF list_after_ok [OF ok call that] i'] by simp
  qed
  have w: "(if arg = NoArg then LP_REPLACE else wh) = wh" "(wh = LP_AFTER) = False" and ae: "arg_ok arg \<or> arg = NoArg"
    using call by (auto simp: call_ok_def)
  have "lpInsert ?lp arg (pos es i) wh =
      (if 7 + length (body ?es') > UINT32_MAX then Null
       else Ret (lpInsert_header (hdr (7 + length (body es)) n @ body ?es' @ [LP_EOF]) wh (arg = NoArg) (7 + length (body ?es')),
         if arg = NoArg \<and> rd (hdr (7 + length (body es)) n @ body ?es' @ [LP_EOF]) (pos es i) = LP_EOF then None
         else Some (pos es i)))"
    by (simp only: lpInsert_def Let_def w arg_encode [OF ae] prod.case repl bl_def [symmetric] new st' assert
        if_False simp_thms)
  then show ?thesis using eof i' p' by (auto simp: insert_header [OF n] lp_of_def UINT32_MAX_def pos_opt_def)
qed

lemma lpInsert_after:
  assumes "lp_ok n es" "i < length es" "arg \<noteq> NoArg"
  shows "lpInsert (lp_of n es) arg (pos es i) LP_AFTER = lpInsert (lp_of n es) arg (pos es (Suc i)) LP_BEFORE"
proof -
  have "ASSERT_INTEGRITY (lp_of n es) (pos es (Suc i))"
    using pos_le [of es "Suc i"] by (simp add: ASSERT_INTEGRITY_def lp_total [OF assms(1)] pos_def)
  then show ?thesis using assms(3) by (simp add: lpInsert_def Let_def lpSkip_pos [OF assms(1,2)] split: prod.split)
qed

section \<open>Searching\<close>

lemma signed_range:
  assumes "0 \<le> u" "u < 2 * k" shows "- k \<le> lp_signed u k (2 * k - 1) \<and> lp_signed u k (2 * k - 1) < k"
  using assms by (auto simp: lp_signed_def)

lemma get_le_range: "0 \<le> get_le (map f [Suc 0..<Suc k])" "get_le (map f [Suc 0..<Suc k]) < 256 ^ k"
  using get_le_bounds [of "map f [Suc 0..<Suc k]"] by (simp_all del: upt_Suc)

lemma get_int64:
  assumes "enc_ok e" "lpGet e False = IntVal v"
  shows "is_int64 v"
proof -
  let ?b = "rd e 0"
  have lb: "0 < lpCurrentEncodedSizeBytes ?b" "?b \<noteq> LP_EOF" using assms(1) by (auto simp: enc_ok_def rd_hd)
  have b: "0 \<le> uint x" "uint x < 256" for x :: byte using uint_lt2p [of x] by simp_all
  have "unat (?b AND 31) < 32" by (simp add: low_bits)
  then have c: "uint (?b AND 31) < 32" unfolding uint_unat by linarith
  from lb(2,1) show ?thesis
  proof (cases rule: class_cases)
    case 1
    then have "v = uint (?b AND 127)" using assms(2) b [of "?b AND 127"]
      by (simp add: lpGet_def lpGetWithSize_def lp_class Let_def lp_int_def lp_signed_def UINT64_MAX_def split: if_splits)
    then have "0 \<le> v" "v < 256" using b [of "?b AND 127"] by simp_all
    then show ?thesis by (simp add: is_int64_def int_ranges)
  next
    case 3
    then have "v = lp_signed (uint (?b AND 31) * 256 + uint (rd e 1)) 4096 8191" using assms(2)
      by (simp add: lpGet_def lpGetWithSize_def lp_class Let_def lp_int_def)
    moreover have "0 \<le> uint (?b AND 31) * 256 + uint (rd e 1)" "uint (?b AND 31) * 256 + uint (rd e 1) < 2 * 4096"
      using c b [of "rd e 1"] b [of "?b AND 31"] by linarith+
    ultimately have "- 4096 \<le> v \<and> v < 4096" using signed_range [of _ 4096] by simp
    then show ?thesis by (simp add: is_int64_def int_ranges)
  next
    case 6
    then have "v = lp_signed (get_le (map (rd e) [Suc 0..<Suc 2])) (2 ^ 15) (2 * 2 ^ 15 - 1)" using assms(2)
      by (simp add: lpGet_def lpGetWithSize_def lp_class Let_def lp_int_def del: upt_Suc upt_rec_numeral)
    then show ?thesis using signed_range [OF get_le_range(1), of "rd e" 2 "2 ^ 15"] get_le_range(2) [of "rd e" 2]
      by (simp add: is_int64_def int_ranges del: upt_Suc upt_rec_numeral)
  next
    case 7
    then have "v = lp_signed (get_le (map (rd e) [Suc 0..<Suc 3])) (2 ^ 23) (2 * 2 ^ 23 - 1)" using assms(2)
      by (simp add: lpGet_def lpGetWithSize_def lp_class Let_def lp_int_def del: upt_Suc upt_rec_numeral)
    then show ?thesis using signed_range [OF get_le_range(1), of "rd e" 3 "2 ^ 23"] get_le_range(2) [of "rd e" 3]
      by (simp add: is_int64_def int_ranges del: upt_Suc upt_rec_numeral)
  next
    case 8
    then have "v = lp_signed (get_le (map (rd e) [Suc 0..<Suc 4])) (2 ^ 31) (2 * 2 ^ 31 - 1)" using assms(2)
      by (simp add: lpGet_def lpGetWithSize_def lp_class Let_def lp_int_def del: upt_Suc upt_rec_numeral)
    then show ?thesis using signed_range [OF get_le_range(1), of "rd e" 4 "2 ^ 31"] get_le_range(2) [of "rd e" 4]
      by (simp add: is_int64_def int_ranges del: upt_Suc upt_rec_numeral)
  next
    case 9
    then have "v = lp_signed (get_le (map (rd e) [Suc 0..<Suc 8])) (2 ^ 63) (2 * 2 ^ 63 - 1)" using assms(2)
      by (simp add: lpGet_def lpGetWithSize_def lp_class Let_def lp_int_def del: upt_Suc upt_rec_numeral)
    then show ?thesis using signed_range [OF get_le_range(1), of "rd e" 8 "2 ^ 63"] get_le_range(2) [of "rd e" 8]
      by (simp add: is_int64_def int_ranges del: upt_Suc upt_rec_numeral)
  qed (use assms(2) in \<open>simp_all add: lpGet_def lpGetWithSize_def lp_class Let_def\<close>)
qed

lemma get_not_intbuf: "lpGet e False \<noteq> IntBuf t"
  by (simp add: lpGet_def lpGetWithSize_def lp_int_def Let_def)

definition venc_ok :: "byte list \<Rightarrow> lp_venc \<Rightarrow> bool" where
  "venc_ok s venc \<longleftrightarrow> venc = NotTried \<or> venc = (case string2ll s of None \<Rightarrow> NoInt | Some v \<Rightarrow> VInt v)"

lemma find_encode:
  assumes "venc_ok s venc"
  shows "lpFind_encode venc s = (case string2ll s of None \<Rightarrow> NoInt | Some v \<Rightarrow> VInt v)"
proof -
  have "string2ll s = None" if "length s \<ge> 32 \<or> length s = 0" using that by (auto simp: string2ll_def LONG_STR_SIZE_def)
  then show ?thesis using assms
    by (auto simp: venc_ok_def lpFind_encode_def lpStringToInt64_eq split: option.splits)
qed

lemma find_compare:
  assumes ok: "lp_ok n es" and i: "i < length es" and v: "venc_ok s venc"
  shows "\<exists>venc'. venc_ok s venc' \<and>
    lpFind_compare (lp_of n es) (pos es i) s venc old = Some (enc_val (es ! i) = s, venc', length (entry (es ! i)))"
proof -
  let ?e = "es ! i" and ?m = "drop (pos es i) (lp_of n es)"
  have e: "enc_ok ?e" by (rule nth_enc_ok [OF ok i])
  have d: "?m = ?e @ (lpEncodeBacklen (length ?e) @ body (drop (Suc i) es) @ [LP_EOF])" using drop_entry [OF i] by simp
  have g: "lpGetWithSize ?m False old = (lpGet ?e False, length (entry ?e))"
    unfolding d lpGet_def by (rule prod_eqI) (simp_all add: get_enc [OF e] length_entry)
  show ?thesis
  proof (cases "lpGet ?e False")
    case (StrAt off k)
    have l: "off + k = length ?e" using get_enc(3) [OF e, of "[]" False 0 off k] StrAt by (simp add: lpGet_def)
    have "pos es i + length (entry ?e) < lpBytes (lp_of n es)"
      using pos_le [of es "Suc i"] by (simp add: pos_Suc [OF i] lpBytes_def lp_total [OF ok])
    moreover have "map (rd (lp_of n es)) [pos es i + off..<pos es i + off + k] = map (rd ?e) [off..<off + k]"
    proof (rule nth_equalityI)
      fix j
      assume "j < length (map (rd (lp_of n es)) [pos es i + off..<pos es i + off + k])"
      then have j: "j < k" by simp
      have "rd (lp_of n es) (pos es i + (off + j)) = rd ?m (off + j)" by simp
      also have "\<dots> = rd ?e (off + j)" unfolding d using j l by (simp add: rd_append)
      finally show "map (rd (lp_of n es)) [pos es i + off..<pos es i + off + k] ! j = map (rd ?e) [off..<off + k] ! j"
        using j by (simp add: add.assoc)
    qed simp
    ultimately have "lpFind_compare (lp_of n es) (pos es i) s venc old =
        Some (length s = k \<and> map (rd ?e) [off..<off + k] = s, venc, length (entry ?e))"
      using StrAt g by (simp add: lpFind_compare_def pos_def)
    moreover have "(length s = k \<and> map (rd ?e) [off..<off + k] = s) \<longleftrightarrow> enc_val ?e = s"
      using StrAt by (auto simp: enc_val_def)
    ultimately show ?thesis using v by auto
  next
    case (IntVal w)
    have "is_int64 w" by (rule get_int64 [OF e IntVal])
    then have "string2ll s = Some w \<longleftrightarrow> enc_val ?e = s" using IntVal by (auto simp: enc_val_def string2ll_iff)
    moreover have "lpFind_compare (lp_of n es) (pos es i) s venc old =
        Some (lpFind_encode venc s = VInt w, lpFind_encode venc s, length (entry ?e))"
      using IntVal g by (simp add: lpFind_compare_def Let_def)
    moreover have "venc_ok s (lpFind_encode venc s)" using find_encode [OF v] by (simp add: venc_ok_def)
    ultimately show ?thesis using find_encode [OF v] by (auto split: option.splits)
  qed (simp add: get_not_intbuf)
qed

lemma find_assert:
  assumes "lp_ok n es" "i \<le> length es"
  shows "lpFind_assert (lp_of n es) (pos es i)"
proof (cases "i < length es")
  case True
  then show ?thesis using valid_pos [OF assms(1) True] valid_entry_range by (auto simp: lpFind_assert_def)
next
  case False
  then have i: "i = length es" using assms(2) by simp
  then have "lpAssertValidEntry (lp_of n es) (lpBytes (lp_of n es)) (pos es i)"
    using in_range_pos [of i es] rd_pos_end
    by (simp add: lpAssertValidEntry_def lpValidateNext_def lpBytes_def lp_total [OF assms(1)])
  then show ?thesis using valid_entry_range by (auto simp: lpFind_assert_def)
qed

text \<open>The first of every \<open>skip + 1\<close> elements, from the \<open>c\<close>-th on, that is the string \<open>s\<close>.\<close>

fun find_idx :: "byte list list \<Rightarrow> byte list \<Rightarrow> nat \<Rightarrow> nat \<Rightarrow> nat option" where
  "find_idx [] s skip c = None"
| "find_idx (v # vs) s skip 0 = (if v = s then Some 0 else map_option Suc (find_idx vs s skip skip))"
| "find_idx (v # vs) s skip (Suc c) = map_option Suc (find_idx vs s skip c)"

lemma lpFind_loop_pos:
  assumes ok: "lp_ok n es"
  shows "i < length es \<Longrightarrow> venc_ok s venc \<Longrightarrow> lpFind_loop (lp_of n es) s skip (pos es i) c venc old =
    Some (map_option (\<lambda>j. pos es (i + j)) (find_idx (map enc_val (drop i es)) s skip c))"
proof (induction "length es - i" arbitrary: i c venc old rule: less_induct)
  case less
  have d: "drop i es = es ! i # drop (Suc i) es" using less.prems(1) by (simp add: Cons_nth_drop_Suc)
  have fa: "lpFind_assert (lp_of n es) (pos es (Suc i))" using less.prems(1) by (intro find_assert [OF ok]) simp
  have eof: "rd (lp_of n es) (pos es (Suc i)) = LP_EOF \<longleftrightarrow> Suc i = length es"
    using eof_iff [OF ok, of "Suc i"] less.prems(1) by simp
  show ?case
  proof (cases c)
    case 0
    let ?e = "es ! i"
    have p: "pos es i + length (entry ?e) = pos es (Suc i)" using pos_Suc [OF less.prems(1)] by simp
    have z: "length (entry ?e) \<noteq> 0" using length_backlen_pos by (simp add: length_entry)
    obtain venc' where ve: "venc_ok s venc'"
      "lpFind_compare (lp_of n es) (pos es i) s venc old = Some (enc_val ?e = s, venc', length (entry ?e))"
      using find_compare [OF ok less.prems] by blast
    have "lpFind_loop (lp_of n es) s skip (pos es i) c venc old =
        (if enc_val ?e = s then Some (Some (pos es i)) else if Suc i = length es then Some None
         else lpFind_loop (lp_of n es) s skip (pos es (Suc i)) skip venc' (length (entry ?e)))"
      using ve(2) fa z eof by (subst lpFind_loop.simps) (simp add: 0 p split: bool.split)
    then show ?thesis using less.hyps [of "Suc i" venc' skip] less.prems(1) ve(1)
      by (simp add: d 0 option.map_comp comp_def)
  next
    case (Suc c')
    have "lpFind_loop (lp_of n es) s skip (pos es i) c venc old =
        (if Suc i = length es then Some None else lpFind_loop (lp_of n es) s skip (pos es (Suc i)) c' venc old)"
      using fa eof lpSkip_pos [OF ok less.prems(1)] by (subst lpFind_loop.simps) (simp add: Suc)
    then show ?thesis using less.hyps [of "Suc i" venc c' old] less.prems by (simp add: d Suc option.map_comp comp_def)
  qed
qed

section \<open>Length, ranges and merging\<close>

lemma lpLength_pos:
  assumes "lp_ok n es"
  shows "\<exists>n'. lpLength (lp_of n es) = Some (length es, lp_of n' es) \<and> lp_ok n' es"
proof (cases "n = LP_HDR_NUMELE_UNKNOWN")
  case True
  have "lpCount (lp_of n es) (pos_opt es 0) 0 = Some (length es)" using lpCount_pos [OF assms, of 0 0] by simp
  then have l: "lpLength (lp_of n es) =
      Some (length es, if length es < LP_HDR_NUMELE_UNKNOWN then lpSetNumElements (lp_of n es) (length es) else lp_of n es)"
    using lpFirst_pos [OF assms] lp_num [OF assms] True by (simp add: lpLength_def)
  have "lpSetNumElements (lp_of n es) (length es) = lp_of (length es) es" by (simp add: lp_of_def set_num)
  moreover have "lp_ok (length es) es" if "length es < LP_HDR_NUMELE_UNKNOWN" using assms that by (simp add: lp_ok_def numele_ok_def)
  ultimately show ?thesis using l assms by auto
next
  case False
  then have "n = length es" using assms by (simp add: lp_ok_def numele_ok_def)
  then show ?thesis using False assms lp_num [OF assms] by (auto simp: lpLength_def Let_def)
qed

lemma delete_loop_pos:
  assumes ok: "lp_ok n es"
  shows "i < length es \<Longrightarrow> 0 < num \<Longrightarrow> lpDeleteRange_loop (lp_of n es) num c (pos es i) =
    Some (c + min num (length es - i), pos es (min (i + num) (length es)))"
proof (induction num arbitrary: i c)
  case (Suc num)
  have eof: "rd (lp_of n es) (pos es (Suc i)) = LP_EOF \<longleftrightarrow> Suc i = length es"
    using eof_iff [OF ok, of "Suc i"] Suc.prems(1) by simp
  show ?case
  proof (cases "Suc i = length es")
    case True
    then show ?thesis using eof lpSkip_pos [OF ok Suc.prems(1)] by (simp add: Let_def)
  next
    case False
    then have i: "Suc i < length es" using Suc.prems(1) by simp
    have "lpDeleteRange_loop (lp_of n es) (Suc num) c (pos es i) = lpDeleteRange_loop (lp_of n es) num (c + 1) (pos es (Suc i))"
      using eof False lpSkip_pos [OF ok Suc.prems(1)] valid_pos [OF ok i] by (simp add: Let_def)
    moreover have "min (Suc num) (length es - i) = Suc (min num (length es - Suc i))" using i by simp
    ultimately show ?thesis using Suc.IH [OF i, of "c + 1"] i by (cases "num = 0") (simp_all del: lpDeleteRange_loop.simps(2))
  qed
qed simp

lemma shrink_take:
  assumes "lpGetTotalBytes lp = k" "k \<le> length lp" shows "lpShrinkToFit lp = take k lp"
  using assms by (simp add: lpShrinkToFit_def zrealloc_def)

lemma memmove_append: "memmove (length pre) (length pre + length mid) (length post) (pre @ mid @ post) =
    pre @ post @ drop (length post) (mid @ post)"
  by (simp add: memmove_def write_at_def read_at_def)

text \<open>The list without \<open>num\<close> elements from the \<open>i\<close>-th on.\<close>

definition without :: "'a list \<Rightarrow> nat \<Rightarrow> nat \<Rightarrow> 'a list" where
  "without xs i num = take i xs @ drop (i + num) xs"

definition num_without :: "nat \<Rightarrow> nat \<Rightarrow> nat" where
  "num_without n k = (if n = LP_HDR_NUMELE_UNKNOWN then n else n - k)"

lemma without_ok:
  assumes "lp_ok n es" "i < length es"
  shows "lp_ok (num_without n (min num (length es - i))) (without es i num)"
proof -
  have "length (body es) = length (body (take i es)) + length (body (take num (drop i es))) + length (body (drop (i + num) es))"
    using length_body_split [of i "i + num" es] by simp
  then have "length (body (without es i num)) \<le> length (body es)" by (simp add: without_def)
  then show ?thesis using assms
    by (auto simp: lp_ok_def numele_ok_def num_without_def without_def LP_HDR_NUMELE_UNKNOWN_def dest: in_set_takeD in_set_dropD)
qed

lemma delete_range_entry:
  assumes ok: "lp_ok n es" and i: "i < length es" and num: "0 < num"
  shows "lpDeleteRangeWithEntry (lp_of n es) (pos es i) num =
    Some (lp_of (num_without n (min num (length es - i))) (without es i num), pos_opt (without es i num) i)"
proof -
  let ?j = "min (i + num) (length es)" and ?k = "min num (length es - i)" and ?es' = "without es i num"
  let ?n' = "num_without n ?k"
  define pre where "pre = hdr (7 + length (body es)) n @ body (take i es)"
  define mid where "mid = body (take (?j - i) (drop i es))"
  define post where "post = body (drop ?j es) @ [LP_EOF]"
  have dj: "drop ?j es = drop (i + num) es" by (simp add: min_def)
  have es': "body ?es' = body (take i es) @ body (drop ?j es)" by (simp add: without_def dj)
  have ij: "i \<le> ?j" using i by simp
  have "es = take i es @ take (?j - i) (drop i es) @ drop ?j es"
    using ij by (metis append_take_drop_id drop_drop le_add_diff_inverse2)
  then have "body es = body (take i es) @ mid @ body (drop ?j es)" unfolding mid_def by (metis body_simps(3))
  then have lp: "lp_of n es = pre @ mid @ post" by (simp add: lp_of_def pre_def post_def)
  have lpre: "length pre = pos es i" by (simp add: pre_def pos_def)
  have bes: "length (body es) = length (body (take i es)) + length mid + length (body (drop ?j es))"
    using length_body_split [OF ij, of es] by (simp add: mid_def)
  have pj: "pos es ?j = length pre + length mid"
  proof -
    have "take ?j es = take i es @ take (?j - i) (drop i es)" using ij by (metis le_add_diff_inverse take_add)
    then show ?thesis by (simp add: pos_def pre_def mid_def)
  qed
  have n: "n < 65536" "?n' < 65536" using ok by (auto simp: lp_ok_def numele_ok_def LP_HDR_NUMELE_UNKNOWN_def num_without_def)
  have tot: "lpBytes (lp_of n es) = length pre + length mid + length post"
    unfolding lpBytes_def lp_total [OF ok] using lp length_lp_of [of n es] by simp
  have ok': "lp_ok ?n' ?es'" by (rule without_ok [OF ok i])
  have new: "length pre + length post = 7 + length (body ?es')" by (simp add: pre_def post_def es' LP_HDR_SIZE_def)
  let ?lp1 = "memmove (pos es i) (pos es ?j) (lpBytes (lp_of n es) - 1 - pos es ?j + 1) (lp_of n es)"
  define g where "g = drop (length post) (mid @ post)"
  have "lpBytes (lp_of n es) - 1 - pos es ?j + 1 = length post" unfolding tot pj by (simp add: post_def)
  then have "?lp1 = pre @ post @ g" unfolding lp pj lpre [symmetric] g_def by (simp add: memmove_append)
  then have lp1: "?lp1 = hdr (7 + length (body es)) n @ (body (take i es) @ post @ g)" by (simp add: pre_def)
  have b2: "lpBytes (lp_of n es) - (pos es ?j - pos es i) = 7 + length (body ?es')"
    unfolding tot pj lpre [symmetric] new [symmetric] by simp
  let ?lp3 = "hdr (7 + length (body ?es')) ?n' @ (body (take i es) @ post @ g)"
  have "lpShrinkToFit ?lp3 = take (7 + length (body ?es')) ?lp3"
  proof (rule shrink_take)
    show "lpGetTotalBytes ?lp3 = 7 + length (body ?es')" using ok' by (simp add: get_total lp_ok_def)
    show "7 + length (body ?es') \<le> length ?lp3" using new by (simp add: LP_HDR_SIZE_def es' post_def)
  qed
  also have "\<dots> = lp_of ?n' ?es'" by (simp add: lp_of_def es' post_def LP_HDR_SIZE_def)
  finally have s: "lpShrinkToFit ?lp3 = lp_of ?n' ?es'" .
  have i': "i \<le> length ?es'" "pos ?es' i = pos es i" using i by (simp_all add: without_def pos_def)
  have e: "rd (lp_of ?n' ?es') (pos es i) = LP_EOF \<longleftrightarrow> i = length ?es'" using eof_iff [OF ok' i'(1)] i'(2) by simp
  have h: "(if n \<noteq> LP_HDR_NUMELE_UNKNOWN then hdr b (n - ?k) @ r else hdr b n @ r) = hdr b ?n' @ r" for b r
    by (simp add: num_without_def)
  have nz: "(num = 0) = False" using num by simp
  have "lpDeleteRangeWithEntry (lp_of n es) (pos es i) num =
      Some (lpShrinkToFit ?lp3, if rd (lpShrinkToFit ?lp3) (pos es i) = LP_EOF then None else Some (pos es i))"
    by (simp only: lpDeleteRangeWithEntry_def Let_def nz if_False delete_loop_pos [OF ok i num] option.case prod.case
        add_0 lp1 b2 set_total set_num get_num [OF n(1)] h)
  then show ?thesis using i' by (auto simp: s e pos_opt_def)
qed

lemma delete_range_pos:
  assumes ok: "lp_ok n es"
  shows "\<exists>n'. lpDeleteRange (lp_of n es) index num =
      Some (lp_of n' (case seek_index es index of None \<Rightarrow> es | Some i \<Rightarrow> without es i num)) \<and>
    lp_ok n' (case seek_index es index of None \<Rightarrow> es | Some i \<Rightarrow> without es i num)"
proof (cases "num = 0 \<or> seek_index es index = None")
  case True
  have "without es i 0 = es" for i by (simp add: without_def)
  moreover have "lpDeleteRange (lp_of n es) index num = Some (lp_of n es)"
    using True lpSeek_pos [OF ok, of index] by (auto simp: lpDeleteRange_def Let_def)
  ultimately show ?thesis using True ok by (auto split: option.splits)
next
  case False
  then obtain i where si: "seek_index es index = Some i" and num: "0 < num" by auto
  then have i: "i < length es" by (auto simp: seek_index_def Let_def split: if_splits)
  define trunc where "trunc \<longleftrightarrow> n \<noteq> LP_HDR_NUMELE_UNKNOWN \<and> length es \<le> i + num"
  have idx: "(if n \<noteq> LP_HDR_NUMELE_UNKNOWN \<and> index < 0 then int n + index else index) = int i" if "n \<noteq> LP_HDR_NUMELE_UNKNOWN"
    using si ok that by (auto simp: seek_index_def Let_def lp_ok_def numele_ok_def split: if_splits)
  let ?lp1 = "lpSetNumElements (lpSetTotalBytes ((lp_of n es)[pos es i := LP_EOF]) (pos es i + 1)) i"
  have u: "lpDeleteRange (lp_of n es) index num =
      (if trunc then Some (lpShrinkToFit ?lp1) else map_option fst (lpDeleteRangeWithEntry (lp_of n es) (pos es i) num))"
  proof -
    let ?idx = "if n \<noteq> LP_HDR_NUMELE_UNKNOWN \<and> index < 0 then int n + index else index"
    have "n = length es" if "n \<noteq> LP_HDR_NUMELE_UNKNOWN" using ok that by (simp add: lp_ok_def numele_ok_def)
    then have tr: "(n \<noteq> LP_HDR_NUMELE_UNKNOWN \<and> int n - ?idx \<le> int num) = trunc"
      using idx by (cases "n = LP_HDR_NUMELE_UNKNOWN") (auto simp: trunc_def)
    have nt: "trunc \<Longrightarrow> nat ?idx = i" using idx by (simp add: trunc_def)
    have sk: "lpSeek (lp_of n es) index = Some (Some (pos es i))" by (simp add: lpSeek_pos [OF ok] si)
    have nz: "(num = 0) = False" using num by simp
    show ?thesis unfolding lpDeleteRange_def lp_num [OF ok] Let_def nz if_False sk option.case tr using nt by simp
  qed
  show ?thesis
  proof (cases trunc)
    case False
    then have "lpDeleteRange (lp_of n es) index num = Some (lp_of (num_without n (min num (length es - i))) (without es i num))"
      unfolding u delete_range_entry [OF ok i num] by simp
    then show ?thesis using without_ok [OF ok i, of num] si by auto
  next
    case True
    have w: "without es i num = take i es" using True by (simp add: without_def trunc_def)
    obtain pre where pre: "lp_of n es = pre @ entry (es ! i) @ body (drop (Suc i) es) @ [LP_EOF]" "length pre = pos es i"
      by (rule lp_split_entry [OF i])
    obtain x xs where x: "entry (es ! i) = x # xs"
      using nth_enc_ok [OF ok i] by (cases "entry (es ! i)") (auto simp: entry_def enc_ok_def)
    have tk: "take (pos es i) (lp_of n es) = hdr (7 + length (body es)) n @ body (take i es)"
    proof -
      have "body es = body (take i es) @ body (drop i es)" by (metis append_take_drop_id body_simps(3))
      then show ?thesis by (simp add: lp_of_def pos_def)
    qed
    have "(lp_of n es)[pos es i := LP_EOF] = pre @ LP_EOF # xs @ body (drop (Suc i) es) @ [LP_EOF]"
      unfolding pre(1) x pre(2) [symmetric] by simp
    also have "pre = hdr (7 + length (body es)) n @ body (take i es)" using tk pre by simp
    finally obtain g where g: "(lp_of n es)[pos es i := LP_EOF] = hdr (7 + length (body es)) n @ (body (take i es) @ [LP_EOF] @ g)"
      by simp
    let ?lp2 = "hdr (pos es i + 1) i @ (body (take i es) @ [LP_EOF] @ g)"
    have l: "pos es i + 1 = 7 + length (body (take i es))" by (simp add: pos_def LP_HDR_SIZE_def)
    have ok': "lp_ok i (take i es)"
      using ok True i pos_le [of es i] l by (auto simp: lp_ok_def numele_ok_def trunc_def dest: in_set_takeD)
    have "lpShrinkToFit ?lp2 = take (pos es i + 1) ?lp2"
      using ok' l by (intro shrink_take) (simp_all add: get_total lp_ok_def LP_HDR_SIZE_def)
    also have "\<dots> = lp_of i (take i es)" unfolding l by (simp add: lp_of_def LP_HDR_SIZE_def)
    finally have "lpDeleteRange (lp_of n es) index num = Some (lp_of i (take i es))"
      unfolding u g set_total set_num using True by simp
    then show ?thesis using ok' si w by auto
  qed
qed

lemma body_bytes: "read_at LP_HDR_SIZE (7 + length (body es) - LP_HDR_SIZE) (lp_of n es) = body es @ [LP_EOF]"
  "read_at 0 (6 + length (body es)) (lp_of n es) = hdr (7 + length (body es)) n @ body es"
  by (simp_all add: lp_of_def read_at_def LP_HDR_SIZE_def)

lemma lpMerge_pos:
  assumes ok: "lp_ok n es" "lp_ok k fs" and sz: "7 + length (body (es @ fs)) < UINT32_MAX"
  shows "\<exists>n'. lpMerge (lp_of n es) (lp_of k fs) = Some (lp_of n' (es @ fs)) \<and> lp_ok n' (es @ fs)"
proof -
  define l where "l = (if length es + length fs < 65535 then length es + length fs else 65535)"
  let ?B = "7 + length (body (es @ fs))"
  obtain n1 where n1: "lpLength (lp_of n es) = Some (length es, lp_of n1 es)" "lp_ok n1 es" using lpLength_pos [OF ok(1)] by blast
  obtain k1 where k1: "lpLength (lp_of k fs) = Some (length fs, lp_of k1 fs)" "lp_ok k1 fs" using lpLength_pos [OF ok(2)] by blast
  have ok': "lp_ok l (es @ fs)" using ok sz by (auto simp: lp_ok_def numele_ok_def l_def LP_HDR_NUMELE_UNKNOWN_def UINT32_MAX_def)
  define ap where "ap \<longleftrightarrow> 7 + length (body es) \<ge> 7 + length (body fs)"
  have lb: "7 + length (body es) + (7 + length (body fs)) - LP_HDR_SIZE - 1 = ?B" by (simp add: LP_HDR_SIZE_def)
  define t2 where "t2 = (if ap
      then write_at (7 + length (body es) - 1) (body fs @ [LP_EOF]) (zrealloc ?B (lp_of n1 es))
      else write_at 0 (hdr (7 + length (body es)) n1 @ body es)
        (memmove (7 + length (body es) - 1) LP_HDR_SIZE (7 + length (body fs) - LP_HDR_SIZE) (zrealloc ?B (lp_of k1 fs))))"
  have m: "lpMerge (lp_of n es) (lp_of k fs) = Some (lpSetTotalBytes (lpSetNumElements t2 l) ?B)"
    using sz unfolding lpMerge_def n1(1) k1(1) prod.case option.case lpBytes_def lp_total [OF n1(2)] lp_total [OF k1(2)] Let_def lb
    by (cases ap) (simp_all add: t2_def l_def ap_def body_bytes del: body_simps)
  have "\<exists>a b. t2 = hdr a b @ body (es @ fs) @ [LP_EOF]"
  proof (cases ap)
    case True
    have "zrealloc ?B (lp_of n1 es) = hdr (7 + length (body es)) n1 @ body es @ LP_EOF # replicate (length (body fs)) 0"
      by (simp add: zrealloc_def lp_of_def LP_HDR_SIZE_def)
    then have "t2 = hdr (7 + length (body es)) n1 @ body es @ body fs @ [LP_EOF]"
      using True by (simp add: t2_def write_at_def LP_HDR_SIZE_def)
    then show ?thesis by auto
  next
    case False
    have z: "zrealloc ?B (lp_of k1 fs) = hdr (7 + length (body fs)) k1 @ (body fs @ [LP_EOF]) @ replicate (length (body es)) 0"
      by (simp add: zrealloc_def lp_of_def LP_HDR_SIZE_def)
    have "read_at LP_HDR_SIZE (7 + length (body fs) - LP_HDR_SIZE) (zrealloc ?B (lp_of k1 fs)) = body fs @ [LP_EOF]"
      unfolding z by (simp add: read_at_def LP_HDR_SIZE_def)
    then have "memmove (7 + length (body es) - 1) LP_HDR_SIZE (7 + length (body fs) - LP_HDR_SIZE) (zrealloc ?B (lp_of k1 fs)) =
        take (6 + length (body es)) (zrealloc ?B (lp_of k1 fs)) @ body fs @ [LP_EOF]"
      by (simp add: memmove_def write_at_def zrealloc_def length_lp_of)
    then have "t2 = hdr (7 + length (body es)) n1 @ body es @ body fs @ [LP_EOF]"
      using False by (simp add: t2_def write_at_def LP_HDR_SIZE_def zrealloc_def length_lp_of)
    then show ?thesis by auto
  qed
  then have "lpSetTotalBytes (lpSetNumElements t2 l) ?B = lp_of l (es @ fs)" by (auto simp: set_num set_total lp_of_def)
  then show ?thesis using m ok' by auto
qed

end
