(* ===== verification/Listpack_Valid.thy ===== *)
theory Listpack_Valid
  imports Listpack_List
begin

text \<open>
  What \<^verbatim>\<open>lpValidateIntegrity\<close> and \<^verbatim>\<open>lpValidateNext\<close> guarantee for bytes from an untrusted source, and the
  properties of listpacks.
\<close>

section \<open>Validated entries\<close>

lemma decode_bound:
  "shift \<le> 28 \<Longrightarrow> val < 2 ^ shift \<Longrightarrow>
   lpDecodeBacklen_loop m p val shift = UINT64_MAX \<or> lpDecodeBacklen_loop m p val shift < 2 ^ 35"
proof (induction m p val shift rule: lpDecodeBacklen_loop.induct)
  case (1 m p val shift)
  let ?v = "val + unat (rd m p AND 127) * 2 ^ shift"
  have "unat (rd m p AND 127) \<le> 127" by (simp add: low_bits)
  then have "unat (rd m p AND 127) * 2 ^ shift \<le> 127 * 2 ^ shift" by (rule mult_le_mono1)
  moreover have "(2 :: nat) ^ (shift + 7) = 128 * 2 ^ shift" by (simp add: power_add)
  ultimately have v: "?v < 2 ^ (shift + 7)" using 1(3) by linarith
  moreover have "(2 :: nat) ^ (shift + 7) \<le> 2 ^ 35" using 1(2) by (intro power_increasing) simp_all
  ultimately show ?case using 1(1) [OF refl]
    by (subst (1 2) lpDecodeBacklen_loop.simps) (simp add: Let_def)
qed

lemma decode_ge:
  "lpDecodeBacklen_loop m p val shift = UINT64_MAX \<or>
   val + unat (rd m p AND 127) * 2 ^ shift \<le> lpDecodeBacklen_loop m p val shift"
proof (induction m p val shift rule: lpDecodeBacklen_loop.induct)
  case (1 m p val shift)
  then show ?case by (subst (1 2) lpDecodeBacklen_loop.simps) (auto simp: Let_def)
qed

lemma size_bytes_le:
  assumes "rd m 0 \<noteq> LP_EOF" "0 < lpCurrentEncodedSizeBytes (rd m 0)"
    "unat (rd m 0) = 240 \<Longrightarrow> 5 + LP_ENCODING_32BIT_STR_LEN m < 2 ^ 32"
  shows "lpCurrentEncodedSizeBytes (rd m 0) \<le> lpCurrentEncodedSizeUnsafe m"
  using assms(1,2)
  by (cases rule: class_cases)
    (use assms(3) in \<open>simp_all add: lpCurrentEncodedSizeBytes_def lpCurrentEncodedSizeUnsafe_def lp_class Let_def\<close>)

text \<open>A length field that makes the 32-bit size wrap around.\<close>

lemma wrapped_bytes:
  assumes "2 ^ 32 \<le> 5 + LP_ENCODING_32BIT_STR_LEN m"
  shows "unat (rd m 1) \<ge> 251" "unat (rd m 2) = 255" "unat (rd m 3) = 255" "unat (rd m 4) = 255"
    "(5 + LP_ENCODING_32BIT_STR_LEN m) mod 2 ^ 32 \<le> 4"
proof -
  have b: "unat (rd m i) \<le> 255" for i using unat_byte [of "rd m i"] by linarith
  have eq: "LP_ENCODING_32BIT_STR_LEN m =
      unat (rd m 1) + 256 * unat (rd m 2) + 65536 * unat (rd m 3) + 16777216 * unat (rd m 4)"
    by (simp add: LP_ENCODING_32BIT_STR_LEN_def)
  have ge: "4294967291 \<le> unat (rd m 1) + 256 * unat (rd m 2) + 65536 * unat (rd m 3) + 16777216 * unat (rd m 4)"
    using assms unfolding eq by simp
  show "unat (rd m 4) = 255" using ge b [of 1] b [of 2] b [of 3] b [of 4] by linarith
  show "unat (rd m 3) = 255" using ge b [of 1] b [of 2] b [of 3] b [of 4] by linarith
  show "unat (rd m 2) = 255" using ge b [of 1] b [of 2] b [of 3] b [of 4] by linarith
  show "unat (rd m 1) \<ge> 251" using ge b [of 1] b [of 2] b [of 3] b [of 4] by linarith
  have "LP_ENCODING_32BIT_STR_LEN m < 2 ^ 32" by (rule str32_len_lt)
  then show "(5 + LP_ENCODING_32BIT_STR_LEN m) mod 2 ^ 32 \<le> 4" using assms by (auto simp: mod_if)
qed

lemma validate_entry:
  assumes "lpValidateNext lp (Some p) N = Some (Some q)"
  defines "L \<equiv> lpCurrentEncodedSizeUnsafe (drop p lp)"
  shows "LP_HDR_SIZE \<le> p" "q = p + L + length (lpEncodeBacklen L)" "q < N" "rd lp p \<noteq> LP_EOF"
    "0 < lpCurrentEncodedSizeBytes (rd lp p)" "lpDecodeBacklen lp (q - 1) = L" "lpCurrentEncodedSizeBytes (rd lp p) \<le> L"
proof -
  have v: "\<not> out_of_range N p" "rd lp p \<noteq> LP_EOF" "lpCurrentEncodedSizeBytes (rd lp p) \<noteq> 0"
    "\<not> out_of_range N (p + (L + length (lpEncodeBacklen L)))" "q = p + (L + length (lpEncodeBacklen L))"
    "(lpDecodeBacklen lp (q - 1) + length (lpEncodeBacklen L)) mod 2 ^ 64 = L + length (lpEncodeBacklen L)"
    using assms by (auto simp: lpValidateNext_def Let_def split: if_splits)
  have bl: "0 < length (lpEncodeBacklen L)" "length (lpEncodeBacklen L) \<le> 5" by (simp_all add: lpEncodeBacklen_def)
  have L: "L < 2 ^ 32" unfolding L_def by (rule size_lt)
  show p: "LP_HDR_SIZE \<le> p" "q = p + L + length (lpEncodeBacklen L)" "rd lp p \<noteq> LP_EOF" "0 < lpCurrentEncodedSizeBytes (rd lp p)"
    using v by (auto simp: out_of_range_def)
  show "q < N" using v(1,4,5) bl by (auto simp: out_of_range_def LP_HDR_SIZE_def)
  let ?d = "lpDecodeBacklen lp (q - 1)"
  have "?d \<noteq> UINT64_MAX"
  proof
    assume "?d = UINT64_MAX"
    then have "(?d + length (lpEncodeBacklen L)) mod 2 ^ 64 = length (lpEncodeBacklen L) - 1"
      using bl by (simp add: UINT64_MAX_def mod_if)
    then show False using v(6) bl(1) by linarith
  qed
  then have d: "?d < 2 ^ 35" using decode_bound [of 0 0 lp "q - 1"] by (simp add: lpDecodeBacklen_def)
  then show dl: "?d = L" using v(6) bl(2) by simp
  have "unat (rd lp (q - 1) AND 127) \<le> L"
    using decode_ge [of lp "q - 1" 0 0] dl \<open>?d \<noteq> UINT64_MAX\<close> by (simp add: lpDecodeBacklen_def)
  then have low: "unat (rd lp (q - 1)) mod 128 \<le> L" unfolding low_bits .
  have "5 + LP_ENCODING_32BIT_STR_LEN (drop p lp) < 2 ^ 32" if b0: "unat (rd lp p) = 240"
  proof (rule ccontr)
    assume "\<not> 5 + LP_ENCODING_32BIT_STR_LEN (drop p lp) < 2 ^ 32"
    then have w: "2 ^ 32 \<le> 5 + LP_ENCODING_32BIT_STR_LEN (drop p lp)" by simp
    note wb = wrapped_bytes [OF w]
    have L4: "L \<le> 4" using wb(5) b0 unfolding L_def by (simp add: lpCurrentEncodedSizeUnsafe_def lp_class Let_def)
    then have "q - 1 = p + L" using p(2) by (simp add: lpEncodeBacklen_def)
    moreover have "unat (rd lp (p + L)) mod 128 \<ge> 100"
    proof -
      have b: "unat (rd lp (p + 1)) \<ge> 251" "unat (rd lp (p + 1)) < 256" "unat (rd lp (p + 2)) = 255"
        "unat (rd lp (p + 3)) = 255" "unat (rd lp (p + 4)) = 255" using wb by simp_all
      have "unat (rd lp (p + 1)) - 128 < 128" using b(1,2) by linarith
      then have m: "unat (rd lp (p + 1)) mod 128 = unat (rd lp (p + 1)) - 128"
        using b(1) le_mod_geq [of 128 "unat (rd lp (p + 1))"] by simp
      have "L \<in> {0, 1, 2, 3, 4}" using L4 by auto
      then show ?thesis using b b0 m by (elim insertE emptyE) simp_all
    qed
    ultimately show False using low L4 by simp
  qed
  then show "lpCurrentEncodedSizeBytes (rd lp p) \<le> L"
    using size_bytes_le [of "drop p lp"] v(2,3) unfolding L_def by simp
qed

text \<open>A validated entry is an element encoding and its length, all inside the listpack.\<close>

lemma validated_enc_ok:
  assumes "lpValidateNext lp (Some p) N = Some (Some q)" "N \<le> length lp"
  shows "enc_ok (take (lpCurrentEncodedSizeUnsafe (drop p lp)) (drop p lp))"
proof -
  let ?m = "drop p lp"
  let ?L = "lpCurrentEncodedSizeUnsafe ?m"
  let ?e = "take ?L ?m"
  note ve = validate_entry [OF assms(1)]
  have len: "length ?e = ?L" using ve(2,3) assms(2) by simp
  have pos: "0 < ?L" using ve(5,7) by simp
  have r: "rd ?e i = rd ?m i" if "i < ?L" for i
    using that len by (metis append_take_drop_id rd_append)
  have h: "hd ?e = rd lp p" using len pos r [of 0] rd_hd [of ?e] by force
  have "lpCurrentEncodedSizeUnsafe ?e = ?L"
    using ve(7) r pos by (intro size_cong) simp_all
  then show ?thesis using ve(4,5,7) h len pos by (auto simp: enc_ok_def)
qed

lemma validated_value:
  assumes "lpValidateNext lp (Some p) N = Some (Some q)" "N \<le> length lp" "lpGet (drop p lp) ib = StrAt off n"
  shows "p + off + n < q"
proof -
  let ?L = "lpCurrentEncodedSizeUnsafe (drop p lp)"
  let ?e = "take ?L (drop p lp)"
  note ve = validate_entry [OF assms(1)]
  have len: "length ?e = ?L" using ve(2,3) assms(2) by simp
  have "drop p lp = ?e @ drop ?L (drop p lp)" by (rule append_take_drop_id [symmetric])
  then have "fst (lpGetWithSize (?e @ drop ?L (drop p lp)) ib 0) = StrAt off n" using assms(3) by (simp add: lpGet_def)
  then have "off + n = ?L" using get_enc(3) [OF validated_enc_ok [OF assms(1,2)]] len by metis
  then show ?thesis using ve(2) length_backlen_pos [of ?L] by simp
qed

lemma validated_skip: "lpValidateNext lp (Some p) N = Some (Some q) \<Longrightarrow> lpSkip lp p = q"
  using validate_entry(2) [of lp p N q] by (simp add: lpSkip_def Let_def)

lemma validated_prev:
  assumes "lpValidateNext lp (Some p) (lpBytes lp) = Some (Some q)"
  shows "lpPrev lp q = Some (Some p)"
proof -
  let ?L = "lpCurrentEncodedSizeUnsafe (drop p lp)"
  note ve = validate_entry [OF assms]
  have bl: "0 < length (lpEncodeBacklen ?L)" "length (lpEncodeBacklen ?L) \<le> 5" by (simp_all add: lpEncodeBacklen_def)
  have m: "(?L + length (lpEncodeBacklen ?L)) mod 2 ^ 64 = ?L + length (lpEncodeBacklen ?L)"
    using size_lt [of "drop p lp"] bl(2) by simp
  have "q \<noteq> LP_HDR_SIZE" using ve(1,2) bl(1) by linarith
  then show ?thesis using ve(2,6) m assms by (simp add: lpPrev_def Let_def lpAssertValidEntry_def)
qed

text \<open>The entries that the deep validation goes through.\<close>

fun chain :: "byte list \<Rightarrow> nat \<Rightarrow> nat \<Rightarrow> nat list \<Rightarrow> nat \<Rightarrow> bool" where
  "chain lp N p [] z \<longleftrightarrow> p = z \<and> rd lp p = LP_EOF"
| "chain lp N p (x # ps) z \<longleftrightarrow> x = p \<and> (\<exists>q. lpValidateNext lp (Some p) N = Some (Some q) \<and> chain lp N q ps z)"

lemma loop_chain:
  "lpValidate_loop lp N cb (Some p) c = Some (Some z, c') \<Longrightarrow> \<exists>ps. chain lp N p ps z \<and> c' = c + length ps"
proof (induction "N - p" arbitrary: p c rule: less_induct)
  case less
  show ?case
  proof (cases "rd lp p = LP_EOF")
    case True
    then have "chain lp N p [] z \<and> c' = c + length []" using less.prems by simp
    then show ?thesis by blast
  next
    case False
    obtain r where r: "lpValidateNext lp (Some p) N = Some r" "lpValidate_loop lp N cb r (c + 1) = Some (Some z, c')"
      using less.prems False by (auto split: option.splits if_splits)
    then obtain q where q: "r = Some q" by (cases r) simp_all
    have "N - q < N - p" using lpValidateNext_gt [of lp p N q] r(1) q by auto
    then obtain ps where ps: "chain lp N q ps z" "c' = c + 1 + length ps" using less.hyps [of q "c + 1"] r(2) q by blast
    then have "chain lp N p (p # ps) z \<and> c' = c + length (p # ps)" using r(1) q by simp
    then show ?thesis by blast
  qed
qed

lemma chain_nth:
  assumes "chain lp N p ps z" "i < length ps"
  shows "lpValidateNext lp (Some (ps ! i)) N = Some (Some (if Suc i < length ps then ps ! Suc i else z))"
  using assms
proof (induction ps arbitrary: p i)
  case (Cons x ps)
  then obtain q where q: "x = p" "lpValidateNext lp (Some p) N = Some (Some q)" "chain lp N q ps z" by auto
  show ?case
  proof (cases i)
    case 0
    have "q = (if 0 < length ps then ps ! 0 else z)" using q(3) by (cases ps) auto
    then show ?thesis using 0 q by simp
  next
    case (Suc j)
    then show ?thesis using Cons.IH [OF q(3), of j] Cons.prems(2) by simp
  qed
qed simp

lemma chain_hd: "chain lp N p ps z \<Longrightarrow> p = (if ps = [] then z else ps ! 0)"
  by (cases ps) auto

lemma chain_end: "chain lp N p ps z \<Longrightarrow> rd lp z = LP_EOF"
  by (induction ps arbitrary: p) auto

lemma integrity_chain:
  assumes "lpValidateIntegrity lp True cb"
  obtains ps where "chain lp (length lp) LP_HDR_SIZE ps (length lp - 1)" "lpBytes lp = length lp"
    "lpGetNumElements lp = LP_HDR_NUMELE_UNKNOWN \<or> lpGetNumElements lp = length ps"
proof -
  obtain c where c: "lpValidate_loop lp (length lp) cb (Some LP_HDR_SIZE) 0 = Some (Some (length lp - 1), c)"
    "lpBytes lp = length lp" "lpGetNumElements lp = LP_HDR_NUMELE_UNKNOWN \<or> lpGetNumElements lp = c"
    using assms by (auto simp: lpValidateIntegrity_def Let_def lpBytes_def split: if_splits option.splits)
  from loop_chain [OF c(1)] obtain ps where "chain lp (length lp) LP_HDR_SIZE ps (length lp - 1)" "c = length ps" by auto
  then show ?thesis using that c(2,3) by blast
qed

lemma validate_loop_pos:
  assumes "lp_ok n es" "i \<le> length es"
  shows "lpValidate_loop (lp_of n es) (7 + length (body es)) None (Some (pos es i)) c =
    Some (Some (6 + length (body es)), c + (length es - i))"
  using assms(2)
proof (induction "length es - i" arbitrary: i c)
  case 0
  then have "i = length es" by simp
  then show ?case by (simp add: rd_pos_end) (simp add: pos_end)
next
  case (Suc k)
  then have i: "i < length es" by simp
  show ?case using Suc.hyps(1) [of "Suc i" "c + 1"] Suc.hyps(2) i rd_entry [OF assms(1) i] validate_pos [OF assms(1) i] by simp
qed

section \<open>Properties\<close>

text \<open>A listpack for the examples, of the integer 5 and the string \<^verbatim>\<open>a\<close>.\<close>

definition ex_es :: "byte list list" where
  "ex_es = [[5], [0x81, 97]]"

definition ex_lp :: "byte list" where
  "ex_lp = lp_of 2 ex_es"


lemma representsE:
  assumes "represents lp vs"
  obtains n es where "lp = lp_of n es" "lp_ok n es" "vs = map enc_val es"
  using assms unfolding represents_def by blast

lemma representsI: "lp_ok n es \<Longrightarrow> represents (lp_of n es) (map enc_val es)"
  unfolding represents_def by blast

lemma ex_enc: "enc_ok [5]" "enc_ok [0x81, 97]" "enc_val [5] = [53]" "enc_val [0x81, 97] = [97]"
proof -
  have i: "is_int64 5" "lpEncodeIntegerGetType 5 = [5]" "sdec 5 = [53]"
    by (simp_all add: is_int64_def int_ranges lpEncodeIntegerGetType_def sdec_def dec_small digit_def)
  have s: "lpEncodeString [97] = [0x81, 97]" by (simp add: lpEncodeString_def)
  show "enc_ok [5]" "enc_val [5] = [53]" using int_enc_ok [OF i(1)] val_int [OF i(1)] by (simp_all add: i)
  show "enc_ok [0x81, 97]" "enc_val [0x81, 97] = [97]" using str_len(3) [of "[97]"] val_str [of "[97]"] by (simp_all add: s)
qed

lemma ex_ok: "lp_ok 2 ex_es"
  using ex_enc by (simp add: lp_ok_def ex_es_def numele_ok_def LP_HDR_NUMELE_UNKNOWN_def length_entry lpEncodeBacklen_def)

lemma ex_represents: "represents ex_lp [[53], [97]]"
  using representsI [OF ex_ok] by (simp add: ex_lp_def ex_es_def ex_enc)

lemma ex_seek: "lpSeek ex_lp (int 0) = Some (Some 6)" "lpSeek ex_lp (int 1) = Some (Some 8)"
  unfolding ex_lp_def lpSeek_pos [OF ex_ok]
  by (simp_all add: seek_index_def ex_es_def pos_def LP_HDR_SIZE_def length_entry lpEncodeBacklen_def)

text \<open>The string form of an element, as \<^verbatim>\<open>lpGet\<close> gives it with a buffer for integers.\<close>

definition lp_string :: "byte list \<Rightarrow> byte list" where
  "lp_string m = (case lpGet m True of StrAt off n \<Rightarrow> map (rd m) [off..<off + n] | IntBuf t \<Rightarrow> t | IntVal v \<Rightarrow> [])"

lemma get_buf: "lpGet m True = (case lpGet m False of IntVal v \<Rightarrow> lp_int True v | x \<Rightarrow> x)"
  by (simp add: lpGet_def lpGetWithSize_def Let_def lp_int_def)

lemma lp_int_buf:
  assumes "is_int64 v" shows "lp_int True v = IntBuf (sdec v)"
  using ll2string_correct [of LP_INTBUF_SIZE "replicate LP_INTBUF_SIZE 0" v] length_sdec [OF assms]
  by (simp add: lp_int_def LP_INTBUF_SIZE_def LONG_STR_SIZE_def)

lemma lp_string_enc:
  assumes "enc_ok e"
  shows "lp_string (e @ rest) = enc_val e"
proof -
  have g: "lpGet (e @ rest) False = lpGet e False" using get_enc(1) [OF assms] by (simp add: lpGet_def)
  show ?thesis
  proof (cases "lpGet e False")
    case (StrAt off n)
    have l: "off + n = length e" using get_enc(3) [OF assms, of "[]" False 0] StrAt by (simp add: lpGet_def)
    have "map (rd (e @ rest)) [off..<off + n] = map (rd e) [off..<off + n]" using l by (intro map_cong) (simp_all add: rd_append)
    then show ?thesis using StrAt g by (simp add: lp_string_def enc_val_def get_buf)
  next
    case (IntVal v)
    then show ?thesis using g lp_int_buf [OF get_int64 [OF assms IntVal]] by (simp add: lp_string_def enc_val_def get_buf)
  qed (simp add: get_not_intbuf)
qed

lemma lp_string_pos: "lp_ok n es \<Longrightarrow> i < length es \<Longrightarrow> lp_string (drop (pos es i) (lp_of n es)) = enc_val (es ! i)"
  using lp_string_enc [OF nth_enc_ok] by (simp add: drop_entry)

lemma length_backlen_le: "length (lpEncodeBacklen l) \<le> 5"
  by (simp add: lpEncodeBacklen_def)

lemma length_int_enc: "length (lpEncodeIntegerGetType v) \<le> 9"
  by (simp add: lpEncodeIntegerGetType_def Let_def)

lemma length_encode: "length (lp_encode s) \<le> length s + 9"
  using length_int_enc by (auto simp: lp_encode_def lpEncodeGetType_def lpEncodeString_def trans_le_add2 split: option.splits)

text \<open>The elements a caller can give: a string, or an integer, which stands for its decimal notation.\<close>

fun arg_string :: "lp_arg \<Rightarrow> byte list" where
  "arg_string (StrArg s) = s"
| "arg_string (IntArg e) = enc_val e"
| "arg_string NoArg = []"

definition is_arg :: "lp_arg \<Rightarrow> byte list \<Rightarrow> bool" where
  "is_arg arg s \<longleftrightarrow> arg = StrArg s \<and> length s < 2 ^ 32 - 5 \<or>
     (\<exists>v. is_int64 v \<and> s = sdec v \<and> arg = IntArg (lpEncodeIntegerGetType v))"

lemma is_argD:
  assumes "is_arg arg s"
  shows "arg_ok arg" "enc_val (arg_enc arg) = s" "length (arg_enc arg) \<le> length s + 9" "arg \<noteq> NoArg"
  using assms length_int_enc length_encode int_enc_ok val_int lp_encode_ok(2)
  by (auto simp: is_arg_def trans_le_add2)

text \<open>
  Every string and every 64-bit integer survives being encoded: \<^verbatim>\<open>lpGet\<close> returns it whatever
  follows in memory, the stored size is the size of the encoding, and the length behind it, read
  backwards, is that size.
\<close>

lemma lp_element_roundtrip:
  assumes "is_arg arg s"
  shows "lp_string (arg_enc arg @ rest) = s \<and>
    lpCurrentEncodedSizeUnsafe (arg_enc arg @ rest) = length (arg_enc arg) \<and>
    lpDecodeBacklen (pre @ lpEncodeBacklen (length (arg_enc arg)) @ rest)
      (length pre + length (lpEncodeBacklen (length (arg_enc arg))) - 1) = length (arg_enc arg)"
proof -
  have e: "enc_ok (arg_enc arg)" by (rule arg_enc_ok [OF is_argD(1) [OF assms]])
  have "length (arg_enc arg) < 2 ^ 35" using enc_length [OF e] by simp
  from lp_string_enc [OF e] enc_size [OF e] decode_backlen [OF this] show ?thesis using is_argD(2) [OF assms] by simp
qed

text \<open>The list after inserting before, inserting after, or replacing the \<open>i\<close>-th element.\<close>

definition edited :: "'a list \<Rightarrow> nat \<Rightarrow> lp_where \<Rightarrow> 'a \<Rightarrow> 'a list" where
  "edited xs i wh x =
     (case wh of
        LP_BEFORE \<Rightarrow> take i xs @ x # drop i xs
      | LP_AFTER \<Rightarrow> take (Suc i) xs @ x # drop (Suc i) xs
      | LP_REPLACE \<Rightarrow> xs[i := x])"

definition edited_at :: "nat \<Rightarrow> lp_where \<Rightarrow> nat" where
  "edited_at i wh = (case wh of LP_AFTER \<Rightarrow> Suc i | _ \<Rightarrow> i)"

lemma seek_nat: "i < length xs \<Longrightarrow> seek_index xs (int i) = Some i"
  by (simp add: seek_index_def)

text \<open>
  The size of the listpack after an insertion: the element is stored with its length behind it, and the
  entry that \<^verbatim>\<open>LP_REPLACE\<close> overwrites, up to the next one, is given back.
\<close>

definition size_after :: "byte list \<Rightarrow> lp_arg \<Rightarrow> nat \<Rightarrow> lp_where \<Rightarrow> nat" where
  "size_after lp arg p wh = length lp + length (entry (arg_enc arg)) - (if wh = LP_REPLACE then lpSkip lp p - p else 0)"

lemma length_entry_arg: "is_arg arg s \<Longrightarrow> length (entry (arg_enc arg)) \<le> length s + 14"
  using is_argD(3) [of arg s] length_backlen_le [of "length (arg_enc arg)"] by (simp add: length_entry)

lemma size_after_le: "is_arg arg s \<Longrightarrow> size_after lp arg p wh \<le> length lp + length s + 14"
  using length_entry_arg [of arg s] by (simp add: size_after_def)

lemma size_after_pos:
  assumes "lp_ok n es" "arg \<noteq> NoArg" "if wh = LP_REPLACE then i < length es else i \<le> length es"
  shows "size_after (lp_of n es) arg (pos es i) wh = 7 + length (body (list_after es i arg wh))"
proof -
  let ?j = "if wh = LP_REPLACE then Suc i else i"
  have "take (?j - i) (drop i es) = (if wh = LP_REPLACE then [es ! i] else [])"
    using assms(3) by (auto simp: hd_drop_conv_nth take_Suc)
  then have "length (body es) = length (body (take i es)) + (if wh = LP_REPLACE then length (entry (es ! i)) else 0) + length (body (drop ?j es))"
    using length_body_split [of i ?j es] by (auto split: if_splits)
  moreover have "lpSkip (lp_of n es) (pos es i) - pos es i = length (entry (es ! i))" if "i < length es"
    using that lpSkip_pos [OF assms(1) that] pos_Suc [OF that] by simp
  ultimately show ?thesis using assms(2,3) by (auto simp: size_after_def list_after_def length_lp_of length_entry)
qed

text \<open>\<^verbatim>\<open>lpInsert\<close> for a new element, before or in the place of an element.\<close>

lemma insert_pos:
  assumes ok: "lp_ok n es" and a: "is_arg arg s" and wh: "wh \<noteq> LP_AFTER"
    and i: "if wh = LP_REPLACE then i < length es else i \<le> length es"
  shows "case lpInsert (lp_of n es) arg (pos es i) wh of
      Abort \<Rightarrow> False
    | Null \<Rightarrow> 2 ^ 32 \<le> size_after (lp_of n es) arg (pos es i) wh
    | Ret (lp', newp) \<Rightarrow>
        length lp' = size_after (lp_of n es) arg (pos es i) wh \<and> length lp' < 2 ^ 32 \<and>
        represents lp' (take i (map enc_val es) @ s # drop (if wh = LP_REPLACE then Suc i else i) (map enc_val es)) \<and>
        newp = Some (pos es i) \<and> lpSeek lp' (int i) = Some newp"
proof -
  note ad = is_argD [OF a]
  let ?es' = "list_after es i arg wh"
  have call: "call_ok es i arg wh" using ad(1) wh i by (simp add: call_ok_def)
  have es': "?es' = take i es @ arg_enc arg # drop (if wh = LP_REPLACE then Suc i else i) es"
    using ad(4) by (simp add: list_after_def)
  have v: "map enc_val ?es' = take i (map enc_val es) @ s # drop (if wh = LP_REPLACE then Suc i else i) (map enc_val es)"
    by (simp add: es' ad(2) take_map drop_map)
  note sz = size_after_pos [OF ok ad(4) i]
  show ?thesis
  proof (cases "7 + length (body ?es') < 2 ^ 32")
    case True
    have ok': "lp_ok (num_after n arg wh) ?es'" by (rule list_after_ok [OF ok call True])
    have "i < length ?es'" "pos ?es' i = pos es i" using i by (auto simp: es' pos_def split: if_splits)
    then have "lpSeek (lp_of (num_after n arg wh) ?es') (int i) = Some (Some (pos es i))"
      using lpSeek_pos [OF ok', of "int i"] by (simp add: seek_nat)
    then show ?thesis using lpInsert_core [OF ok call] True ad(4) representsI [OF ok'] v sz by (simp add: length_lp_of)
  next
    case False
    then show ?thesis using lpInsert_core [OF ok call] sz by simp
  qed
qed



text \<open>
  Claim C9. \<^verbatim>\<open>lpDelete\<close> removes exactly the element it points at and returns the pointer of the next one, or
  null; \<^verbatim>\<open>lpDeleteRange\<close> removes exactly the elements of the range, for positive and negative indexes,
  whether it moves the end marker or the tail.
\<close>

theorem lpDelete_correct:
  assumes "represents lp vs" "lpSeek lp index = Some (Some p)" "0 < num"
  shows "\<exists>i lp1 newp lp2. seek_index vs index = Some i \<and>
    lpDelete lp p = Ret (lp1, newp) \<and> represents lp1 (without vs i 1) \<and> lpSeek lp1 (int i) = Some newp \<and>
    lpDeleteRange lp index num = Some lp2 \<and> represents lp2 (without vs i num)"
proof -
  obtain n es where es: "lp = lp_of n es" "lp_ok n es" "vs = map enc_val es" by (rule representsE [OF assms(1)])
  obtain i where i: "seek_index es index = Some i" "p = pos es i"
    using assms(2) lpSeek_pos [OF es(2), of index] by (auto simp: es(1))
  then have il: "i < length es" by (auto simp: seek_index_def Let_def split: if_splits)
  have w: "map enc_val (without es i k) = without vs i k" for k by (simp add: without_def es(3) take_map drop_map)
  have call: "call_ok es i NoArg LP_REPLACE" using il by (simp add: call_ok_def)
  have la: "list_after es i NoArg LP_REPLACE = without es i 1" by (simp add: list_after_def without_def)
  have "length (body (without es i 1)) \<le> length (body es)"
    using length_body_split [of i "Suc i" es] by (simp add: without_def)
  then have sm: "7 + length (body (without es i 1)) < 2 ^ 32" using es(2) by (simp add: lp_ok_def)
  define n1 where "n1 = num_after n NoArg LP_REPLACE"
  have ok1: "lp_ok n1 (without es i 1)" using list_after_ok [OF es(2) call] sm unfolding la n1_def by simp
  have del: "lpDelete lp p = Ret (lp_of n1 (without es i 1), pos_opt (without es i 1) i)"
    using lpInsert_core [OF es(2) call] sm unfolding la n1_def by (simp add: lpDelete_def es(1) i(2))
  have "lpSeek (lp_of n1 (without es i 1)) (int i) = Some (pos_opt (without es i 1) i)"
    unfolding lpSeek_pos [OF ok1] by (simp add: seek_index_def pos_opt_def)
  moreover obtain n2 where "lpDeleteRange lp index num = Some (lp_of n2 (without es i num))" "lp_ok n2 (without es i num)"
    using delete_range_pos [OF es(2), of index num] by (auto simp: i(1) es(1))
  moreover have "seek_index vs index = Some i" unfolding i(1) [symmetric] by (simp add: seek_index_def es(3))
  ultimately show ?thesis using del representsI [OF ok1] representsI [of n2 "without es i num"] unfolding w by blast
qed

theorem lpDelete_correct_witness:
  "\<exists>lp1 newp. lpDelete ex_lp 6 = Ret (lp1, newp) \<and> represents lp1 [[97]]"
  using lpDelete_correct [OF ex_represents ex_seek(1), of 1] by (auto simp: seek_index_def without_def)

text \<open>
  Claim C28. Walking forwards with \<^verbatim>\<open>lpFirst\<close> and \<^verbatim>\<open>lpNext\<close> and backwards with \<^verbatim>\<open>lpLast\<close> and \<^verbatim>\<open>lpPrev\<close> goes through exactly
  the elements, in opposite orders; \<^verbatim>\<open>lpSeek\<close> finds every index, counted from either end, and nothing else;
  \<^verbatim>\<open>lpGet\<close> gives the value of each; \<^verbatim>\<open>lpLength\<close> gives their number and keeps the list.
\<close>

theorem listpack_traversal:
  assumes "represents lp vs"
  shows "\<exists>ps. length ps = length vs \<and>
    lpFirst lp = Some (if vs = [] then None else Some (ps ! 0)) \<and>
    lpLast lp = Some (if vs = [] then None else Some (ps ! (length vs - 1))) \<and>
    (\<forall>i < length vs. lp_string (drop (ps ! i) lp) = vs ! i \<and>
       lpNext lp (ps ! i) = Some (if Suc i < length vs then Some (ps ! Suc i) else None) \<and>
       lpPrev lp (ps ! i) = Some (if i = 0 then None else Some (ps ! (i - 1)))) \<and>
    (\<forall>index. lpSeek lp index = Some (map_option ((!) ps) (seek_index vs index))) \<and>
    (\<exists>lp'. lpLength lp = Some (length vs, lp') \<and> represents lp' vs)"
proof -
  obtain n es where es: "lp = lp_of n es" "lp_ok n es" "vs = map enc_val es" by (rule representsE [OF assms])
  let ?ps = "map (pos es) [0..<length es]"
  have "lpSeek lp index = Some (map_option ((!) ?ps) (seek_index vs index))" for index
    unfolding es(1) lpSeek_pos [OF es(2)] by (auto simp: seek_index_def es(3) Let_def)
  moreover obtain n' where "lpLength lp = Some (length es, lp_of n' es)" "lp_ok n' es"
    using lpLength_pos [OF es(2)] es(1) by blast
  moreover have "\<forall>i < length vs. lp_string (drop (?ps ! i) lp) = vs ! i \<and>
       lpNext lp (?ps ! i) = Some (if Suc i < length vs then Some (?ps ! Suc i) else None) \<and>
       lpPrev lp (?ps ! i) = Some (if i = 0 then None else Some (?ps ! (i - 1)))"
    using lp_string_pos [OF es(2)] lpNext_pos [OF es(2)] lpPrev_pos [OF es(2)]
    by (auto simp: es(1,3) pos_opt_def)
  ultimately show ?thesis using lpFirst_pos [OF es(2)] lpLast_pos [OF es(2)] representsI [of n' es]
    by (intro exI [of _ ?ps]) (auto simp: es(1,3) pos_opt_def)
qed

theorem listpack_traversal_witness:
  "\<exists>ps. length ps = length [[53 :: byte], [97]] \<and> lpNext ex_lp (ps ! 0) = Some (Some (ps ! 1))"
  using listpack_traversal [OF ex_represents] by force

text \<open>
  Claim C29. \<^verbatim>\<open>lpFind\<close> returns the first element equal to the string among those at the stride it is given,
  comparing integers as numbers and without converting the string more than once, or null when there
  is none; none of its assertions fails.
\<close>

theorem lpFind_correct:
  assumes "represents lp vs" "vs \<noteq> []"
  shows "\<exists>p. lpFirst lp = Some (Some p) \<and>
    (case find_idx vs s skip 0 of
       None \<Rightarrow> lpFind lp p s skip = Some None
     | Some i \<Rightarrow> i < length vs \<and> vs ! i = s \<and> lpFind lp p s skip = lpSeek lp (int i))"
proof -
  obtain n es where es: "lp = lp_of n es" "lp_ok n es" "vs = map enc_val es" by (rule representsE [OF assms(1)])
  have ne: "0 < length es" using assms(2) es(3) by simp
  have v0: "venc_ok s NotTried" by (simp add: venc_ok_def)
  have p: "lpFirst lp = Some (Some (pos es 0))" using lpFirst_pos [OF es(2)] ne by (simp add: es(1) pos_opt_def)
  have f: "lpFind lp (pos es 0) s skip = Some (map_option (pos es) (find_idx vs s skip 0))"
    using lpFind_loop_pos [OF es(2) ne v0, of skip 0 123456789] by (simp add: lpFind_def es(1,3))
  have idx: "find_idx ws s skip c = Some i \<Longrightarrow> i < length ws \<and> ws ! i = s" for ws c i
    by (induction ws s skip c arbitrary: i rule: find_idx.induct) (auto split: if_splits)
  show ?thesis
    using f p idx [of vs 0] lpSeek_pos [OF es(2)]
    by (auto simp: es(1,3) seek_index_def split: option.splits)
qed

theorem lpFind_correct_witness:
  "\<exists>p. lpFirst ex_lp = Some (Some p) \<and> lpFind ex_lp p [97] 0 = Some (Some 8)"
  using lpFind_correct [OF ex_represents, of "[97]" 0] ex_seek(2) by auto

text \<open>
  Claim C30. \<^verbatim>\<open>lpMerge\<close> of two listpacks, whichever of them is kept, is a well-formed listpack of the elements of
  the first followed by those of the second.
\<close>

theorem lpMerge_correct:
  assumes "represents lp vs" "represents lq ws" "length lp + length lq < UINT32_MAX"
  shows "\<exists>lr. lpMerge lp lq = Some lr \<and> represents lr (vs @ ws)"
proof -
  obtain n es where es: "lp = lp_of n es" "lp_ok n es" "vs = map enc_val es" by (rule representsE [OF assms(1)])
  obtain k fs where fs: "lq = lp_of k fs" "lp_ok k fs" "ws = map enc_val fs" by (rule representsE [OF assms(2)])
  have "7 + length (body (es @ fs)) < UINT32_MAX" using assms(3) by (simp add: es(1) fs(1) length_lp_of)
  from lpMerge_pos [OF es(2) fs(2) this] show ?thesis using representsI [of _ "es @ fs"] by (auto simp: es(1,3) fs(1,3))
qed

theorem lpMerge_correct_witness:
  "\<exists>lr. lpMerge ex_lp ex_lp = Some lr \<and> represents lr [[53], [97], [53], [97]]"
proof -
  have "length ex_lp + length ex_lp < UINT32_MAX"
    by (simp add: ex_lp_def length_lp_of ex_es_def length_entry lpEncodeBacklen_def UINT32_MAX_def)
  from lpMerge_correct [OF ex_represents ex_represents this] show ?thesis by simp
qed

text \<open>
  Claim C2. \<^verbatim>\<open>lpValidateIntegrity\<close> accepts every well-formed listpack. Whatever bytes it accepts in deep mode,
  from whatever source, can be used: the forward and the backward walk go through the same entries,
  as many as the header says, no assertion fails on the way, and every string that \<^verbatim>\<open>lpGet\<close> returns lies
  inside the buffer, although the size of an element is computed in 32 bits and can wrap around.
\<close>

theorem lpValidateIntegrity_safe:
  "(represents lp vs \<longrightarrow> lpValidateIntegrity lp True None) \<and>
   (lpValidateIntegrity lp True cb \<longrightarrow>
     (\<exists>ps. (lpGetNumElements lp = LP_HDR_NUMELE_UNKNOWN \<or> lpGetNumElements lp = length ps) \<and>
       lpFirst lp = Some (if ps = [] then None else Some (ps ! 0)) \<and>
       lpLast lp = Some (if ps = [] then None else Some (ps ! (length ps - 1))) \<and>
       (\<forall>i < length ps.
          lpNext lp (ps ! i) = Some (if Suc i < length ps then Some (ps ! Suc i) else None) \<and>
          (Suc i < length ps \<longrightarrow> lpPrev lp (ps ! Suc i) = Some (Some (ps ! i))) \<and>
          (\<forall>off n. lpGet (drop (ps ! i) lp) ib = StrAt off n \<longrightarrow> ps ! i + off + n < length lp))))"
proof (intro conjI impI)
  assume "represents lp vs"
  then obtain n es where es: "lp = lp_of n es" "lp_ok n es" by (rule representsE)
  have "lpValidate_loop (lp_of n es) (7 + length (body es)) None (Some LP_HDR_SIZE) 0 = Some (Some (6 + length (body es)), length es)"
    using validate_loop_pos [OF es(2), of 0 0] by simp
  then show "lpValidateIntegrity lp True None"
    using es(2) rd_end [of n es] lp_num [OF es(2)]
    by (auto simp: lpValidateIntegrity_def Let_def es(1) length_lp_of lp_total [OF es(2)] LP_HDR_SIZE_def lp_ok_def numele_ok_def)
next
  assume "lpValidateIntegrity lp True cb"
  then obtain ps where ps: "chain lp (length lp) LP_HDR_SIZE ps (length lp - 1)" "lpBytes lp = length lp"
    "lpGetNumElements lp = LP_HDR_NUMELE_UNKNOWN \<or> lpGetNumElements lp = length ps" by (rule integrity_chain)
  have nth: "lpValidateNext lp (Some (ps ! i)) (length lp) = Some (Some (if Suc i < length ps then ps ! Suc i else length lp - 1))"
    if "i < length ps" for i by (rule chain_nth [OF ps(1) that])
  have valid: "lpAssertValidEntry lp (lpBytes lp) (ps ! i)" if "i < length ps" for i
    using nth [OF that] ps(2) by (simp add: lpAssertValidEntry_def)
  have eof: "rd lp (ps ! i) \<noteq> LP_EOF" if "i < length ps" for i using validate_entry(4) [OF nth [OF that]] .
  have end_eof: "rd lp (length lp - 1) = LP_EOF" by (rule chain_end [OF ps(1)])
  have first: "lpFirst lp = Some (if ps = [] then None else Some (ps ! 0))"
    using chain_hd [OF ps(1)] end_eof eof [of 0] valid [of 0] by (auto simp: lpFirst_def split: if_splits)
  have nxt: "lpNext lp (ps ! i) = Some (if Suc i < length ps then Some (ps ! Suc i) else None)" if "i < length ps" for i
    using validated_skip [OF nth [OF that]] end_eof eof [of "Suc i"] valid [of "Suc i"] by (auto simp: lpNext_def Let_def)
  have prev: "lpPrev lp (if Suc i < length ps then ps ! Suc i else length lp - 1) = Some (Some (ps ! i))" if "i < length ps" for i
    using validated_prev [of lp "ps ! i"] nth [OF that] ps(2) by simp
  have last: "lpLast lp = Some (if ps = [] then None else Some (ps ! (length ps - 1)))"
  proof (cases "ps = []")
    case True
    then show ?thesis using chain_hd [OF ps(1)] ps(2) by (simp add: lpLast_def lpPrev_def lpBytes_def)
  next
    case False
    then show ?thesis using prev [of "length ps - 1"] ps(2) by (simp add: lpLast_def lpBytes_def)
  qed
  have inside: "ps ! i + off + n < length lp" if "i < length ps" "lpGet (drop (ps ! i) lp) ib = StrAt off n" for i off n
    using validated_value [OF nth [OF that(1)] order_refl that(2)] validate_entry(3) [OF nth [OF that(1)]] by simp
  show "\<exists>ps. (lpGetNumElements lp = LP_HDR_NUMELE_UNKNOWN \<or> lpGetNumElements lp = length ps) \<and>
       lpFirst lp = Some (if ps = [] then None else Some (ps ! 0)) \<and>
       lpLast lp = Some (if ps = [] then None else Some (ps ! (length ps - 1))) \<and>
       (\<forall>i < length ps.
          lpNext lp (ps ! i) = Some (if Suc i < length ps then Some (ps ! Suc i) else None) \<and>
          (Suc i < length ps \<longrightarrow> lpPrev lp (ps ! Suc i) = Some (Some (ps ! i))) \<and>
          (\<forall>off n. lpGet (drop (ps ! i) lp) ib = StrAt off n \<longrightarrow> ps ! i + off + n < length lp))"
    using ps(3) first last nxt prev inside by (intro exI [of _ ps]) (auto dest: prev)
qed

theorem lpValidateIntegrity_safe_witness:
  "lpValidateIntegrity ex_lp True None \<and> lpFirst ex_lp \<noteq> None"
  using lpValidateIntegrity_safe [of ex_lp "[[53], [97]]" None False] ex_represents by auto

end
