(* ===== verification/Listpack_Api.thy ===== *)
theory Listpack_Api
  imports Listpack_Valid
begin

text \<open>
  What the users of \<^verbatim>\<open>listpack.c\<close> rely on, as a contract: a container of a list of strings whose elements are
  reached through pointers, and the lists of field-value pairs kept in such a container, as the
  small encoding of a hash keeps them. The listpack is the implementation of the contract.
\<close>

section \<open>The contract\<close>

text \<open>The list of a pair list: every field is followed by its value.\<close>

fun flat :: "('a \<times> 'a) list \<Rightarrow> 'a list" where
  "flat [] = []"
| "flat ((k, v) # kvs) = k # v # flat kvs"

text \<open>The position of the first pair with a given field.\<close>

fun field_idx :: "'a \<Rightarrow> ('a \<times> 'a) list \<Rightarrow> nat option" where
  "field_idx f [] = None"
| "field_idx f ((k, v) # kvs) = (if k = f then Some 0 else map_option Suc (field_idx f kvs))"

lemma length_flat [simp]: "length (flat kvs) = 2 * length kvs"
  by (induction kvs rule: flat.induct) auto

lemma flat_eq_Nil [simp]: "flat kvs = [] \<longleftrightarrow> kvs = []"
  using length_flat [of kvs] by (metis length_0_conv mult_eq_0_iff zero_neq_numeral)

lemma flat_append: "flat (kvs @ kws) = flat kvs @ flat kws"
  by (induction kvs rule: flat.induct) auto

lemma flat_nth: "i < length kvs \<Longrightarrow> flat kvs ! (2 * i) = fst (kvs ! i) \<and> flat kvs ! Suc (2 * i) = snd (kvs ! i)"
proof (induction kvs arbitrary: i rule: flat.induct)
  case (2 k v kvs)
  then show ?case by (cases i) auto
qed simp

lemma flat_update: "i < length kvs \<Longrightarrow> (flat kvs)[Suc (2 * i) := w] = flat (kvs[i := (fst (kvs ! i), w)])"
proof (induction kvs arbitrary: i rule: flat.induct)
  case (2 k v kvs)
  then show ?case by (cases i) auto
qed simp

lemma flat_take_drop: "take (2 * i) (flat kvs) = flat (take i kvs)" "drop (2 * i) (flat kvs) = flat (drop i kvs)"
proof (induction kvs arbitrary: i rule: flat.induct)
  case (2 k v kvs)
  { case 1 show ?case using 2(1) by (cases i) auto }
  { case 2 show ?case using \<open>\<And>i. drop (2 * i) (flat kvs) = flat (drop i kvs)\<close> by (cases i) auto }
qed simp_all

lemma flat_without: "without (flat kvs) (2 * i) 2 = flat (without kvs i 1)"
  using flat_take_drop [of i kvs] flat_take_drop(2) [of "Suc i" kvs] by (simp add: without_def flat_append add.commute)

lemma set_flat: "set (flat kvs) = fst ` set kvs \<union> snd ` set kvs"
  by (induction kvs rule: flat.induct) auto

lemma find_idx_flat: "find_idx (flat kvs) f 1 0 = map_option (\<lambda>i. 2 * i) (field_idx f kvs)"
  by (induction kvs rule: flat.induct) (simp_all add: option.map_comp comp_def)

lemma field_idx_None: "field_idx f kvs = None \<longleftrightarrow> map_of kvs f = None"
  by (induction kvs rule: flat.induct) auto

lemma field_idx_Some: "field_idx f kvs = Some i \<Longrightarrow> i < length kvs \<and> fst (kvs ! i) = f \<and> map_of kvs f = Some (snd (kvs ! i))"
proof (induction kvs arbitrary: i rule: flat.induct)
  case (2 k v kvs)
  then show ?case by (cases i) (auto split: if_splits)
qed simp

lemma map_of_update_idx:
  fixes kvs :: "('a \<times> 'a) list"
  shows "distinct (map fst kvs) \<Longrightarrow> i < length kvs \<Longrightarrow> map_of (kvs[i := (fst (kvs ! i), w)]) = (map_of kvs)(fst (kvs ! i) \<mapsto> w)"
proof (induction kvs arbitrary: i rule: flat.induct)
  case (2 k v kvs)
  show ?case
  proof (cases i)
    case (Suc j)
    then have "fst (kvs ! j) \<in> fst ` set kvs" using 2(3) by simp
    then have "fst (kvs ! j) \<noteq> k" using 2(2) by auto
    then show ?thesis using 2 Suc by (auto simp: fun_eq_iff)
  qed (auto simp: fun_eq_iff)
qed simp

lemma map_of_without_idx:
  fixes kvs :: "('a \<times> 'a) list"
  shows "distinct (map fst kvs) \<Longrightarrow> i < length kvs \<Longrightarrow> map_of (without kvs i 1) = (map_of kvs)(fst (kvs ! i) := None)"
proof (induction kvs arbitrary: i rule: flat.induct)
  case (2 k v kvs)
  show ?case
  proof (cases i)
    case 0
    have "map_of kvs k = None" using 2(2) by (simp add: map_of_eq_None_iff)
    then show ?thesis by (auto simp: 0 without_def fun_eq_iff)
  next
    case (Suc j)
    then have "fst (kvs ! j) \<in> fst ` set kvs" using 2(3) by simp
    then have "fst (kvs ! j) \<noteq> k" using 2(2) by auto
    then show ?thesis using 2 Suc by (auto simp: without_def fun_eq_iff)
  qed
qed simp

lemma distinct_without: "distinct (map fst kvs) \<Longrightarrow> distinct (map fst (without kvs i n))"
  using set_take_disj_set_drop_if_distinct [of "map fst kvs" i "i + n"]
  by (auto simp: without_def take_map [symmetric] drop_map [symmetric] simp del: set_map)

lemma map_fst_update_idx: "i < length kvs \<Longrightarrow> map fst (kvs[i := (fst (kvs ! i), w)]) = map fst kvs"
  by (simp add: map_update list_update_same_conv)

text \<open>
  \<open>rep s vs\<close>: the container holds the list \<open>vs\<close>. \<open>at s i\<close> is the pointer of the \<open>i\<close>-th element and \<open>weight\<close> the
  size in bytes: a change that would not fit in \<open>lim\<close> bytes may be refused, where an element of
  \<open>n\<close> bytes takes at most \<open>n + ovh\<close>.
\<close>

locale string_list =
  fixes rep :: "'s \<Rightarrow> byte list list \<Rightarrow> bool"
    and at :: "'s \<Rightarrow> nat \<Rightarrow> 'p"
    and weight :: "'s \<Rightarrow> nat"
    and lim :: nat
    and ovh :: nat
    and first :: "'s \<Rightarrow> 'p option option"
    and nxt :: "'s \<Rightarrow> 'p \<Rightarrow> 'p option option"
    and get :: "'s \<Rightarrow> 'p \<Rightarrow> byte list"
    and fnd :: "'s \<Rightarrow> 'p \<Rightarrow> byte list \<Rightarrow> nat \<Rightarrow> 'p option option"
    and rpl :: "'s \<Rightarrow> 'p \<Rightarrow> byte list \<Rightarrow> ('s \<times> 'p option) lp_result"
    and app :: "'s \<Rightarrow> byte list \<Rightarrow> ('s \<times> 'p option) lp_result"
    and del :: "'s \<Rightarrow> 'p \<Rightarrow> nat \<Rightarrow> ('s \<times> 'p option) option"
    and len :: "'s \<Rightarrow> (nat \<times> 's) option"
  assumes first_law: "rep s vs \<Longrightarrow> first s = Some (if vs = [] then None else Some (at s 0))"
    and next_law: "rep s vs \<Longrightarrow> i < length vs \<Longrightarrow>
      nxt s (at s i) = Some (if Suc i < length vs then Some (at s (Suc i)) else None)"
    and get_law: "rep s vs \<Longrightarrow> i < length vs \<Longrightarrow> get s (at s i) = vs ! i"
    and find_law: "rep s vs \<Longrightarrow> vs \<noteq> [] \<Longrightarrow> fnd s (at s 0) x skip = Some (map_option (at s) (find_idx vs x skip 0))"
    and replace_law: "rep s vs \<Longrightarrow> i < length vs \<Longrightarrow> weight s + length x + ovh < lim \<Longrightarrow>
      \<exists>t p. rpl s (at s i) x = Ret (t, p) \<and> rep t (vs[i := x]) \<and> weight t \<le> weight s + length x + ovh"
    and append_law: "rep s vs \<Longrightarrow> weight s + length x + ovh < lim \<Longrightarrow>
      \<exists>t p. app s x = Ret (t, p) \<and> rep t (vs @ [x]) \<and> weight t \<le> weight s + length x + ovh"
    and delete_law: "rep s vs \<Longrightarrow> i < length vs \<Longrightarrow> 0 < n \<Longrightarrow> \<exists>t p. del s (at s i) n = Some (t, p) \<and> rep t (without vs i n)"
    and length_law: "rep s vs \<Longrightarrow> \<exists>t. len s = Some (length vs, t) \<and> rep t vs"
    and weight_law: "rep s vs \<Longrightarrow> weight s \<le> 7 + (\<Sum>v \<leftarrow> vs. length v + ovh)"
begin

text \<open>Finding a field, and the value behind it.\<close>

lemma pair_find:
  assumes "rep s (flat kvs)" "kvs \<noteq> []"
  shows "fnd s (at s 0) f 1 = Some (map_option (\<lambda>i. at s (2 * i)) (field_idx f kvs))"
  using find_law [OF assms(1), of f 1] assms(2) find_idx_flat [of kvs f] by (simp add: option.map_comp comp_def)

lemma pair_next:
  assumes "rep s (flat kvs)" "i < length kvs"
  shows "nxt s (at s (2 * i)) = Some (Some (at s (Suc (2 * i))))"
    and "nxt s (at s (Suc (2 * i))) = Some (if Suc i < length kvs then Some (at s (2 * Suc i)) else None)"
    and "get s (at s (2 * i)) = fst (kvs ! i)" and "get s (at s (Suc (2 * i))) = snd (kvs ! i)"
  using next_law [OF assms(1), of "2 * i"] next_law [OF assms(1), of "Suc (2 * i)"]
    get_law [OF assms(1), of "2 * i"] get_law [OF assms(1), of "Suc (2 * i)"] flat_nth [OF assms(2)] assms(2) by auto

lemma pair_replace:
  assumes "rep s (flat kvs)" "i < length kvs" "weight s + length v + ovh < lim"
  shows "\<exists>t p. rpl s (at s (Suc (2 * i))) v = Ret (t, p) \<and> rep t (flat (kvs[i := (fst (kvs ! i), v)])) \<and>
    weight t \<le> weight s + length v + ovh"
  using replace_law [OF assms(1), of "Suc (2 * i)" v] assms(2,3) flat_update [OF assms(2)] by simp

lemma pair_append:
  assumes "rep s (flat kvs)" "weight s + length f + length v + 2 * ovh < lim"
  shows "\<exists>t p t1 p1. app s f = Ret (t, p) \<and> app t v = Ret (t1, p1) \<and> rep t1 (flat (kvs @ [(f, v)])) \<and>
    weight t1 \<le> weight s + length f + length v + 2 * ovh"
proof -
  have "weight s + length f + ovh < lim" using assms(2) by simp
  then obtain t p where t: "app s f = Ret (t, p)" "rep t (flat kvs @ [f])" "weight t \<le> weight s + length f + ovh"
    using append_law [OF assms(1)] by blast
  then have "weight t + length v + ovh < lim" using assms(2) by simp
  from append_law [OF t(2) this] show ?thesis using t by (fastforce simp: flat_append)
qed

lemma pair_delete:
  assumes "rep s (flat kvs)" "i < length kvs"
  shows "\<exists>t p. del s (at s (2 * i)) 2 = Some (t, p) \<and> rep t (flat (without kvs i 1))"
  using delete_law [OF assms(1), of "2 * i" 2] assms(2) by (simp add: flat_without)

end

section \<open>The listpack as an implementation\<close>

definition lp_at :: "byte list \<Rightarrow> nat \<Rightarrow> nat" where
  "lp_at lp i = the (the (lpSeek lp (int i)))"

lemma lp_at_pos: "lp_ok n es \<Longrightarrow> i < length es \<Longrightarrow> lp_at (lp_of n es) i = pos es i"
  by (simp add: lp_at_def lpSeek_pos seek_nat)

lemma api_first: "represents lp vs \<Longrightarrow> lpFirst lp = Some (if vs = [] then None else Some (lp_at lp 0))"
  by (erule representsE) (auto simp: lpFirst_pos pos_opt_def lp_at_pos)

lemma api_next: "represents lp vs \<Longrightarrow> i < length vs \<Longrightarrow>
    lpNext lp (lp_at lp i) = Some (if Suc i < length vs then Some (lp_at lp (Suc i)) else None)"
  by (erule representsE) (auto simp: lpNext_pos pos_opt_def lp_at_pos)

lemma api_get: "represents lp vs \<Longrightarrow> i < length vs \<Longrightarrow> lp_string (drop (lp_at lp i) lp) = vs ! i"
  by (erule representsE) (auto simp: lp_string_pos lp_at_pos)

lemma find_idx_lt: "find_idx vs s skip c = Some i \<Longrightarrow> i < length vs"
  by (induction vs s skip c arbitrary: i rule: find_idx.induct) (auto split: if_splits)

lemma api_find:
  assumes "represents lp vs" "vs \<noteq> []"
  shows "lpFind lp (lp_at lp 0) s skip = Some (map_option (lp_at lp) (find_idx vs s skip 0))"
proof -
  obtain n es where es: "lp = lp_of n es" "lp_ok n es" "vs = map enc_val es" by (rule representsE [OF assms(1)])
  have ne: "0 < length es" using assms(2) es(3) by simp
  have "venc_ok s NotTried" by (simp add: venc_ok_def)
  then have "lpFind lp (pos es 0) s skip = Some (map_option (pos es) (find_idx vs s skip 0))"
    using lpFind_loop_pos [OF es(2) ne, of s NotTried skip 0 123456789] by (simp add: lpFind_def es(1,3))
  moreover have "map_option (pos es) (find_idx vs s skip 0) = map_option (lp_at lp) (find_idx vs s skip 0)"
    using find_idx_lt [of vs s skip 0] by (auto simp: es(1,3) lp_at_pos [OF es(2)] intro: option.map_cong)
  ultimately show ?thesis by (simp add: es(1) lp_at_pos [OF es(2) ne])
qed

lemma str_arg: "length s < 2 ^ 32 - 5 \<Longrightarrow> is_arg (StrArg s) s"
  by (simp add: is_arg_def)

lemma api_replace:
  assumes "represents lp vs" "i < length vs" "length lp + length s + 14 < 2 ^ 32"
  shows "\<exists>lp' p. lpReplace lp (lp_at lp i) s = Ret (lp', p) \<and> represents lp' (vs[i := s]) \<and> length lp' \<le> length lp + length s + 14"
proof -
  obtain n es where es: "lp = lp_of n es" "lp_ok n es" "vs = map enc_val es" by (rule representsE [OF assms(1)])
  have "vs[i := s] = take i vs @ s # drop (Suc i) vs" using assms(2) by (simp add: upd_conv_take_nth_drop)
  moreover have a: "is_arg (StrArg s) s" using assms(3) by (intro str_arg) simp
  ultimately show ?thesis using insert_pos [OF es(2) a, of LP_REPLACE i] size_after_le [OF a, of lp "pos es i" LP_REPLACE] assms(2,3)
    by (auto simp: lpReplace_def es(1,3) lp_at_pos [OF es(2)] split: lp_result.splits)
qed

lemma api_append:
  assumes "represents lp vs" "length lp + length s + 14 < 2 ^ 32"
  shows "\<exists>lp' p. lpAppend lp s = Ret (lp', p) \<and> represents lp' (vs @ [s]) \<and> length lp' \<le> length lp + length s + 14"
proof -
  obtain n es where es: "lp = lp_of n es" "lp_ok n es" "vs = map enc_val es" by (rule representsE [OF assms(1)])
  have "lpGetTotalBytes lp - 1 = pos es (length es)" using lp_total [OF es(2)] pos_end by (simp add: es(1))
  moreover have a: "is_arg (StrArg s) s" using assms(2) by (intro str_arg) simp
  ultimately show ?thesis
    using insert_pos [OF es(2) a, of LP_BEFORE "length es"] size_after_le [OF a, of lp "pos es (length es)" LP_BEFORE] assms(2)
    by (auto simp: lpAppend_def es(1,3) split: lp_result.splits)
qed

lemma api_delete:
  assumes "represents lp vs" "i < length vs" "0 < k"
  shows "\<exists>lp' p. lpDeleteRangeWithEntry lp (lp_at lp i) k = Some (lp', p) \<and> represents lp' (without vs i k)"
proof -
  obtain n es where es: "lp = lp_of n es" "lp_ok n es" "vs = map enc_val es" by (rule representsE [OF assms(1)])
  have i: "i < length es" using assms(2) es(3) by simp
  have "map enc_val (without es i k) = without vs i k" by (simp add: without_def es(3) take_map drop_map)
  then show ?thesis
    using delete_range_entry [OF es(2) i assms(3)] representsI [OF without_ok [OF es(2) i, of k]]
    by (auto simp: es(1) lp_at_pos [OF es(2) i])
qed

lemma api_length: "represents lp vs \<Longrightarrow> \<exists>lp'. lpLength lp = Some (length vs, lp') \<and> represents lp' vs"
  by (erule representsE) (metis length_map lpLength_pos representsI)

lemma get_off: "lpGet m False = StrAt off n \<Longrightarrow> off \<le> 5"
  by (auto simp: lpGet_def lpGetWithSize_def Let_def split: if_splits)

lemma int_size: "lpGet m False = IntVal v \<Longrightarrow> lpCurrentEncodedSizeUnsafe m \<le> 9"
  by (auto simp: lpGet_def lpGetWithSize_def lpCurrentEncodedSizeUnsafe_def Let_def split: if_splits)

lemma length_enc:
  assumes "enc_ok e" shows "length e \<le> length (enc_val e) + 9"
proof (cases "lpGet e False")
  case (StrAt off n)
  then have "off + n = length e" using get_enc(3) [OF assms, of "[]" False 0] by (simp add: lpGet_def)
  then show ?thesis using get_off [OF StrAt] by (simp add: enc_val_def StrAt)
next
  case (IntVal v)
  then show ?thesis using int_size [OF IntVal] assms by (simp add: enc_ok_def)
qed (simp add: get_not_intbuf)

lemma api_weight: "represents lp vs \<Longrightarrow> length lp \<le> 7 + (\<Sum>v \<leftarrow> vs. length v + 14)"
proof (erule representsE)
  fix n es
  assume es: "lp = lp_of n es" "lp_ok n es" "vs = map enc_val es"
  have e: "length (entry e) \<le> length (enc_val e) + 14" if "e \<in> set es" for e
    using length_enc [of e] length_backlen_le [of "length e"] es(2) that by (auto simp: lp_ok_def length_entry)
  then have "length (body es) \<le> (\<Sum>v \<leftarrow> map enc_val es. length v + 14)"
    by (induction es) (simp_all add: add_mono)
  then show ?thesis by (simp add: es(1,3) length_lp_of)
qed

interpretation lpl: string_list represents lp_at length "2 ^ 32" 14 lpFirst lpNext "\<lambda>lp p. lp_string (drop p lp)" lpFind
  lpReplace lpAppend lpDeleteRangeWithEntry lpLength
  by unfold_locales
    (fact api_first api_next api_get api_find api_replace api_append api_delete api_length api_weight)+

end
