(* ===== verification/Hash_Object.thy ===== *)
theory Hash_Object
  imports Set_Object Listpack_Api
begin

text \<open>
  The hash object of \<^verbatim>\<open>t_hash.c\<close>: a map from strings to strings, kept as a listpack of alternating fields
  and values while it is small, and as a hash table otherwise.

  The two encodings are the constructors of \<open>hashobj\<close>. A failed assertion, a panic, and a listpack
  that would exceed its 32-bit size are the result \<open>None\<close>. Of the server configuration the record
  \<open>hash_env\<close> has the dict type of hashes and the two limits of the small encoding. Copying and freeing of
  strings has no counterpart: a string is its value.
\<close>

section \<open>Model of the hash type\<close>

datatype hashobj = HashLp "byte list" | HashHt "(sds, sds) dict"

record hash_env =
  hashDictType :: "sds dictType"
  hash_max_listpack_entries :: nat
  hash_max_listpack_value :: nat

definition createHashObject :: hashobj where
  "createHashObject = HashLp lpNew"

text \<open>A value given in string form or as a number, as \<^verbatim>\<open>vstr\<close>, \<^verbatim>\<open>vlen\<close> and \<^verbatim>\<open>vll\<close> return it.\<close>

datatype hval = HStr sds | HLl int

fun hval_sds :: "hval \<Rightarrow> sds" where
  "hval_sds (HStr s) = s"
| "hval_sds (HLl v) = sdsll2str v"

definition lp_value :: "byte list \<Rightarrow> nat \<Rightarrow> hval" where
  "lp_value zl p =
     (case lpGetValue (drop p zl) of
        StrAt off n \<Rightarrow> HStr (map (rd (drop p zl)) [off..<off + n])
      | IntVal v \<Rightarrow> HLl v
      | IntBuf t \<Rightarrow> HStr t)"

subsection \<open>Lookup\<close>

definition hashTypeGetFromListpack :: "byte list \<Rightarrow> sds \<Rightarrow> hval option option" where
  "hashTypeGetFromListpack zl field =
     (case lpFirst zl of
        None \<Rightarrow> None
      | Some None \<Rightarrow> Some None
      | Some (Some p) \<Rightarrow>
          (case lpFind zl p field 1 of
             None \<Rightarrow> None
           | Some None \<Rightarrow> Some None
           | Some (Some fptr) \<Rightarrow>
               (case lpNext zl fptr of
                  Some (Some vptr) \<Rightarrow> Some (Some (lp_value zl vptr))
                | _ \<Rightarrow> None)))"

definition hashTypeGetFromHashTable :: "hash_env \<Rightarrow> (sds, sds) dict \<Rightarrow> sds \<Rightarrow> (sds, sds) dict \<times> sds option" where
  "hashTypeGetFromHashTable E d field =
     (case dictFind (hashDictType E) d field of
        (d1, None) \<Rightarrow> (d1, None)
      | (d1, Some de) \<Rightarrow> (d1, Some (snd (dict_entry d1 de))))"

definition hashTypeGetValue :: "hash_env \<Rightarrow> hashobj \<Rightarrow> sds \<Rightarrow> (hashobj \<times> hval option) option" where
  "hashTypeGetValue E h field =
     (case h of
        HashLp zl \<Rightarrow> map_option (Pair h) (hashTypeGetFromListpack zl field)
      | HashHt d \<Rightarrow> (case hashTypeGetFromHashTable E d field of (d1, r) \<Rightarrow> Some (HashHt d1, map_option HStr r)))"

fun hval_len :: "hval \<Rightarrow> nat" where
  "hval_len (HStr s) = length s"
| "hval_len (HLl v) = sdigits10 v"

definition hashTypeGetValueLength :: "hash_env \<Rightarrow> hashobj \<Rightarrow> sds \<Rightarrow> (hashobj \<times> nat) option" where
  "hashTypeGetValueLength E h field =
     map_option (\<lambda>(h1, r). (h1, case r of None \<Rightarrow> 0 | Some v \<Rightarrow> hval_len v)) (hashTypeGetValue E h field)"

definition hashTypeExists :: "hash_env \<Rightarrow> hashobj \<Rightarrow> sds \<Rightarrow> (hashobj \<times> bool) option" where
  "hashTypeExists E h field = map_option (\<lambda>(h1, r). (h1, r \<noteq> None)) (hashTypeGetValue E h field)"

definition hashTypeLength :: "hashobj \<Rightarrow> (hashobj \<times> nat) option" where
  "hashTypeLength h =
     (case h of
        HashLp zl \<Rightarrow> map_option (\<lambda>(n, zl1). (HashLp zl1, n div 2)) (lpLength zl)
      | HashHt d \<Rightarrow> Some (h, dictSize d))"

subsection \<open>Iterators\<close>

text \<open>\<^verbatim>\<open>fptr\<close> and \<^verbatim>\<open>vptr\<close> for a listpack, \<^verbatim>\<open>di\<close> and \<^verbatim>\<open>de\<close> for a hash table.\<close>

datatype hashTypeIterator =
  LpHashIter "nat option" "nat option" | HtHashIter "(sds, sds) dictIterator" "(sds \<times> sds) option"

definition hashTypeInitIterator :: "hashobj \<Rightarrow> hashTypeIterator" where
  "hashTypeInitIterator h =
     (case h of HashLp zl \<Rightarrow> LpHashIter None None | HashHt d \<Rightarrow> HtHashIter dictGetIterator None)"

text \<open>
  \<^verbatim>\<open>hashTypeNext\<close>: the new iterator and whether there is an entry. An iterator on an object of the other
  encoding does not occur.
\<close>

fun hashTypeNext :: "hashobj \<Rightarrow> hashTypeIterator \<Rightarrow> (hashTypeIterator \<times> bool) option" where
  "hashTypeNext (HashLp zl) (LpHashIter fptr vptr) =
     (case (case (fptr, vptr) of
              (None, None) \<Rightarrow> lpFirst zl
            | (Some f, Some v) \<Rightarrow> lpNext zl v
            | _ \<Rightarrow> None) of
        None \<Rightarrow> None
      | Some None \<Rightarrow> Some (LpHashIter fptr vptr, False)
      | Some (Some f1) \<Rightarrow>
          (case lpNext zl f1 of
             Some (Some v1) \<Rightarrow> Some (LpHashIter (Some f1) (Some v1), True)
           | _ \<Rightarrow> None))"
| "hashTypeNext (HashHt d) (HtHashIter di de) =
     (case dictNext d di of (d1, di1, r) \<Rightarrow> Some (HtHashIter di1 r, r \<noteq> None))"
| "hashTypeNext h it = None"

datatype hash_part = OBJ_HASH_KEY | OBJ_HASH_VALUE

fun hashTypeCurrentFromListpack :: "byte list \<Rightarrow> hashTypeIterator \<Rightarrow> hash_part \<Rightarrow> hval option" where
  "hashTypeCurrentFromListpack zl (LpHashIter fptr vptr) what =
     map_option (lp_value zl) (if what = OBJ_HASH_KEY then fptr else vptr)"
| "hashTypeCurrentFromListpack zl (HtHashIter di de) what = None"

fun hashTypeCurrentFromHashTable :: "hashTypeIterator \<Rightarrow> hash_part \<Rightarrow> sds option" where
  "hashTypeCurrentFromHashTable (HtHashIter di de) what =
     map_option (if what = OBJ_HASH_KEY then fst else snd) de"
| "hashTypeCurrentFromHashTable (LpHashIter fptr vptr) what = None"

definition hashTypeCurrentObject :: "hashobj \<Rightarrow> hashTypeIterator \<Rightarrow> hash_part \<Rightarrow> hval option" where
  "hashTypeCurrentObject h it what =
     (case h of
        HashLp zl \<Rightarrow> hashTypeCurrentFromListpack zl it what
      | HashHt d \<Rightarrow> map_option HStr (hashTypeCurrentFromHashTable it what))"

definition hashTypeCurrentObjectNewSds :: "hashobj \<Rightarrow> hashTypeIterator \<Rightarrow> hash_part \<Rightarrow> sds option" where
  "hashTypeCurrentObjectNewSds h it what = map_option hval_sds (hashTypeCurrentObject h it what)"

text \<open>
  The loop over all entries, with the loop bodies applied to the resulting list: none of them
  changes the hash that is iterated. The number of calls is bounded by \<open>n\<close>; \<open>None\<close> is running out.
\<close>

fun hash_iterate :: "nat \<Rightarrow> hashobj \<Rightarrow> hashTypeIterator \<Rightarrow> (sds \<times> sds) list option" where
  "hash_iterate 0 h it = None"
| "hash_iterate (Suc n) h it =
     (case hashTypeNext h it of
        None \<Rightarrow> None
      | Some (it1, False) \<Rightarrow> Some []
      | Some (it1, True) \<Rightarrow>
          (case (hashTypeCurrentObjectNewSds h it1 OBJ_HASH_KEY, hashTypeCurrentObjectNewSds h it1 OBJ_HASH_VALUE) of
             (Some k, Some v) \<Rightarrow> map_option ((#) (k, v)) (hash_iterate n h it1)
           | _ \<Rightarrow> None))"

definition hash_pairs :: "hashobj \<Rightarrow> (sds \<times> sds) list option" where
  "hash_pairs h =
     hash_iterate (case h of HashLp zl \<Rightarrow> length zl | HashHt d \<Rightarrow> dictSize d + 1) h (hashTypeInitIterator h)"

subsection \<open>Conversion, update, deletion\<close>

datatype hash_encoding = OBJ_ENCODING_LISTPACK | OBJ_ENCODING_HT

fun hash_add_pairs :: "hash_env \<Rightarrow> (sds \<times> sds) list \<Rightarrow> (sds, sds) dict \<Rightarrow> (sds, sds) dict option" where
  "hash_add_pairs E [] d = Some d"
| "hash_add_pairs E ((k, v) # kvs) d =
     (case dictAdd (hashDictType E) d k v [] of
        (d1, True) \<Rightarrow> hash_add_pairs E kvs d1
      | (d1, False) \<Rightarrow> None)"

definition hashTypeConvertListpack :: "hash_env \<Rightarrow> byte list \<Rightarrow> hash_encoding \<Rightarrow> hashobj option" where
  "hashTypeConvertListpack E zl target =
     (case target of
        OBJ_ENCODING_LISTPACK \<Rightarrow> Some (HashLp zl)
      | OBJ_ENCODING_HT \<Rightarrow>
          (case hashTypeLength (HashLp zl) of
             None \<Rightarrow> None
           | Some (h1, n) \<Rightarrow>
               (case hash_pairs h1 of
                  None \<Rightarrow> None
                | Some kvs \<Rightarrow> map_option HashHt (hash_add_pairs E kvs (fst (dictExpand dictCreate n))))))"

definition hashTypeConvert :: "hash_env \<Rightarrow> hashobj \<Rightarrow> hash_encoding \<Rightarrow> hashobj option" where
  "hashTypeConvert E h target = (case h of HashLp zl \<Rightarrow> hashTypeConvertListpack E zl target | HashHt d \<Rightarrow> None)"

text \<open>The loop of \<^verbatim>\<open>hashTypeTryConversion\<close>: the sum of the lengths, or \<open>None\<close> at a string that is too long.\<close>

fun hash_args_sum :: "hash_env \<Rightarrow> sds list \<Rightarrow> nat \<Rightarrow> nat option" where
  "hash_args_sum E [] acc = Some acc"
| "hash_args_sum E (a # as) acc =
     (if length a > hash_max_listpack_value E then None else hash_args_sum E as (acc + length a))"

definition hashTypeTryConversion :: "hash_env \<Rightarrow> hashobj \<Rightarrow> sds list \<Rightarrow> hashobj option" where
  "hashTypeTryConversion E h args =
     (case h of
        HashHt d \<Rightarrow> Some h
      | HashLp zl \<Rightarrow>
          (case hash_args_sum E args 0 of
             None \<Rightarrow> hashTypeConvert E h OBJ_ENCODING_HT
           | Some n \<Rightarrow> if \<not> lpSafeToAdd (Some zl) n then hashTypeConvert E h OBJ_ENCODING_HT else Some h))"

text \<open>The two branches of \<^verbatim>\<open>hashTypeSet\<close>; a null result of the listpack functions is a later null dereference.\<close>

definition hashSet_append :: "byte list \<Rightarrow> sds \<Rightarrow> sds \<Rightarrow> byte list option" where
  "hashSet_append zl field v =
     (case lpAppend zl field of
        Ret (zl1, p) \<Rightarrow> (case lpAppend zl1 v of Ret (zl2, q) \<Rightarrow> Some zl2 | _ \<Rightarrow> None)
      | _ \<Rightarrow> None)"

definition hashSet_listpack :: "byte list \<Rightarrow> sds \<Rightarrow> sds \<Rightarrow> (byte list \<times> bool) option" where
  "hashSet_listpack zl field v =
     (case lpFirst zl of
        None \<Rightarrow> None
      | Some None \<Rightarrow> map_option (\<lambda>zl1. (zl1, False)) (hashSet_append zl field v)
      | Some (Some p) \<Rightarrow>
          (case lpFind zl p field 1 of
             None \<Rightarrow> None
           | Some None \<Rightarrow> map_option (\<lambda>zl1. (zl1, False)) (hashSet_append zl field v)
           | Some (Some fptr) \<Rightarrow>
               (case lpNext zl fptr of
                  Some (Some vptr) \<Rightarrow> (case lpReplace zl vptr v of Ret (zl1, q) \<Rightarrow> Some (zl1, True) | _ \<Rightarrow> None)
                | _ \<Rightarrow> None)))"

definition hashSet_dict :: "hash_env \<Rightarrow> (sds, sds) dict \<Rightarrow> sds \<Rightarrow> sds \<Rightarrow> (sds, sds) dict \<times> bool" where
  "hashSet_dict E d field v =
     (case dictFind (hashDictType E) d field of
        (d1, Some de) \<Rightarrow> (dictSetVal d1 de v, True)
      | (d1, None) \<Rightarrow> (fst (dictAdd (hashDictType E) d1 field v []), False))"

definition hashTypeSet :: "hash_env \<Rightarrow> hashobj \<Rightarrow> sds \<Rightarrow> sds \<Rightarrow> (hashobj \<times> bool) option" where
  "hashTypeSet E h field v =
     (case (case h of
              HashLp zl \<Rightarrow>
                (if length field > hash_max_listpack_value E \<or> length v > hash_max_listpack_value E
                 then hashTypeConvert E h OBJ_ENCODING_HT else Some h)
            | HashHt d \<Rightarrow> Some h) of
        None \<Rightarrow> None
      | Some (HashLp zl) \<Rightarrow>
          (case hashSet_listpack zl field v of
             None \<Rightarrow> None
           | Some (zl1, update) \<Rightarrow>
               (case hashTypeLength (HashLp zl1) of
                  None \<Rightarrow> None
                | Some (h1, n) \<Rightarrow>
                    (if n > hash_max_listpack_entries E
                     then map_option (\<lambda>h2. (h2, update)) (hashTypeConvert E h1 OBJ_ENCODING_HT)
                     else Some (h1, update))))
      | Some (HashHt d) \<Rightarrow> (case hashSet_dict E d field v of (d1, update) \<Rightarrow> Some (HashHt d1, update)))"

definition hashTypeDelete :: "hash_env \<Rightarrow> hashobj \<Rightarrow> sds \<Rightarrow> (hashobj \<times> bool) option" where
  "hashTypeDelete E h field =
     (case h of
        HashLp zl \<Rightarrow>
          (case lpFirst zl of
             None \<Rightarrow> None
           | Some None \<Rightarrow> Some (h, False)
           | Some (Some p) \<Rightarrow>
               (case lpFind zl p field 1 of
                  None \<Rightarrow> None
                | Some None \<Rightarrow> Some (h, False)
                | Some (Some fptr) \<Rightarrow>
                    map_option (\<lambda>(zl1, q). (HashLp zl1, True)) (lpDeleteRangeWithEntry zl fptr 2)))
      | HashHt d \<Rightarrow>
          (case dictDelete (hashDictType E) d field of
             (d1, True) \<Rightarrow> Some (HashHt (if htNeedsResize d1 then fst (dictResize (hashDictType E) d1) else d1), True)
           | (d1, False) \<Rightarrow> Some (HashHt d1, False)))"

text \<open>\<^verbatim>\<open>hashTypeDup\<close>: the copy of a listpack is a copy of its bytes.\<close>

fun hash_dup_pairs :: "hash_env \<Rightarrow> (sds \<times> sds) list \<Rightarrow> (sds, sds) dict \<Rightarrow> (sds, sds) dict" where
  "hash_dup_pairs E [] d = d"
| "hash_dup_pairs E ((k, v) # kvs) d = hash_dup_pairs E kvs (fst (dictAdd (hashDictType E) d k v []))"

definition hashTypeDup :: "hash_env \<Rightarrow> hashobj \<Rightarrow> hashobj option" where
  "hashTypeDup E h =
     (case h of
        HashLp zl \<Rightarrow> Some (HashLp (take (lpBytes zl) zl))
      | HashHt d \<Rightarrow>
          (case hash_pairs h of
             None \<Rightarrow> None
           | Some kvs \<Rightarrow> Some (HashHt (hash_dup_pairs E kvs (fst (dictExpand dictCreate (dictSize d)))))))"

section \<open>Invariant and abstraction\<close>

text \<open>A listpack that holds a list of pairs with different fields, within the limits of the small encoding.\<close>

definition small_pairs :: "hash_env \<Rightarrow> (sds \<times> sds) list \<Rightarrow> bool" where
  "small_pairs E kvs \<longleftrightarrow>
     distinct (map fst kvs) \<and> length kvs \<le> hash_max_listpack_entries E \<and>
     (\<forall>x \<in> set (flat kvs). length x \<le> hash_max_listpack_value E)"

definition hash_ok :: "hash_env \<Rightarrow> hashobj \<Rightarrow> bool" where
  "hash_ok E h =
     (case h of
        HashLp zl \<Rightarrow> (\<exists>kvs. represents zl (flat kvs) \<and> small_pairs E kvs)
      | HashHt d \<Rightarrow> dict_ok (hashDictType E) d)"

definition hash_map :: "hashobj \<Rightarrow> sds \<rightharpoonup> sds" where
  "hash_map h = (case h of HashLp zl \<Rightarrow> map_of (the (hash_pairs h)) | HashHt d \<Rightarrow> dict_map d)"

text \<open>
  Room for one more field and value in a listpack, where an element takes at most 14 bytes more than
  its length.
\<close>

definition hash_room :: "hashobj \<Rightarrow> sds \<Rightarrow> sds \<Rightarrow> bool" where
  "hash_room h f v = (case h of HashLp zl \<Rightarrow> length zl + length f + length v + 28 < 2 ^ 32 | HashHt d \<Rightarrow> True)"

text \<open>
  Limits that keep every listpack below its 32-bit size, even when nothing checks the size before an
  update. The default limits do; the configuration accepts larger ones.
\<close>

definition hash_env_ok :: "hash_env \<Rightarrow> bool" where
  "hash_env_ok E \<longleftrightarrow> 7 + (hash_max_listpack_entries E + 1) * (2 * hash_max_listpack_value E + 28) < 2 ^ 32"

fun hval_ok :: "hval \<Rightarrow> bool" where
  "hval_ok (HStr s) = True"
| "hval_ok (HLl v) = is_int64 v"

lemma sdigits10_eq: "sdigits10 v = length (sdec v)"
  by (auto simp: sdigits10_def digits10_eq sdec_def int_ranges)

lemma hval_len_sds: "hval_len v = length (hval_sds v)"
  by (cases v) (simp_all add: sdsll2str_correct sdigits10_eq)

lemma lp_value_at:
  assumes "represents zl vs" "i < length vs"
  shows "hval_sds (lp_value zl (lp_at zl i)) = vs ! i" "hval_ok (lp_value zl (lp_at zl i))"
proof -
  obtain n es where es: "zl = lp_of n es" "lp_ok n es" "vs = map enc_val es" by (rule representsE [OF assms(1)])
  have i: "i < length es" using assms(2) es(3) by simp
  note ok = nth_enc_ok [OF es(2) i]
  obtain rest where r: "drop (lp_at zl i) zl = es ! i @ rest"
    using drop_entry [OF i, of n] lp_at_pos [OF es(2) i] es(1) by auto
  have g: "lpGetValue (es ! i @ rest) = lpGet (es ! i) False"
    using get_enc(1) [OF ok, of rest False 0] by (simp add: lpGetValue_def lpGet_def)
  have "hval_sds (lp_value zl (lp_at zl i)) = vs ! i \<and> hval_ok (lp_value zl (lp_at zl i))"
  proof (cases "lpGet (es ! i) False")
    case (StrAt off k)
    have "off + k = length (es ! i)" using get_enc(3) [OF ok, of "[]" False 0] StrAt by (simp add: lpGet_def)
    then have "map (rd (es ! i @ rest)) [off..<off + k] = map (rd (es ! i)) [off..<off + k]"
      by (intro map_cong) (simp_all add: rd_append)
    then show ?thesis using i by (simp add: lp_value_def r g StrAt es(3) enc_val_def)
  next
    case (IntVal v)
    then show ?thesis using i get_int64 [OF ok IntVal]
      by (simp add: lp_value_def r g es(3) enc_val_def sdsll2str_correct)
  qed (simp add: get_not_intbuf)
  then show "hval_sds (lp_value zl (lp_at zl i)) = vs ! i" "hval_ok (lp_value zl (lp_at zl i))" by simp_all
qed

subsection \<open>The loop over all entries\<close>

definition lp_it :: "byte list \<Rightarrow> nat \<Rightarrow> hashTypeIterator" where
  "lp_it zl i =
     (case i of 0 \<Rightarrow> LpHashIter None None | Suc j \<Rightarrow> LpHashIter (Some (lp_at zl (2 * j))) (Some (lp_at zl (Suc (2 * j)))))"

lemma lp_it_next:
  assumes "represents zl (flat kvs)" "i \<le> length kvs"
  shows "hashTypeNext (HashLp zl) (lp_it zl i) =
    Some (if i < length kvs then (lp_it zl (Suc i), True) else (lp_it zl i, False))"
proof (cases i)
  case 0
  show ?thesis
  proof (cases kvs)
    case Nil
    then show ?thesis using api_first [OF assms(1)] by (simp add: 0 lp_it_def)
  next
    case (Cons x xs)
    then show ?thesis using api_first [OF assms(1)] lpl.pair_next(1) [OF assms(1), of 0] by (simp add: 0 lp_it_def)
  qed
next
  case (Suc j)
  then have j: "j < length kvs" using assms(2) by simp
  show ?thesis
    using lpl.pair_next(2) [OF assms(1) j] lpl.pair_next(1) [OF assms(1), of "Suc j"] by (simp add: Suc lp_it_def)
qed

lemma lp_it_current:
  assumes "represents zl (flat kvs)" "i < length kvs"
  shows "hashTypeCurrentObjectNewSds (HashLp zl) (lp_it zl (Suc i)) OBJ_HASH_KEY = Some (fst (kvs ! i))"
    "hashTypeCurrentObjectNewSds (HashLp zl) (lp_it zl (Suc i)) OBJ_HASH_VALUE = Some (snd (kvs ! i))"
  using lp_value_at(1) [OF assms(1), of "2 * i"] lp_value_at(1) [OF assms(1), of "Suc (2 * i)"] flat_nth [OF assms(2)] assms(2)
  by (simp_all add: hashTypeCurrentObjectNewSds_def hashTypeCurrentObject_def lp_it_def)

lemma hash_iterate_lp:
  assumes "represents zl (flat kvs)"
  shows "i \<le> length kvs \<Longrightarrow> length kvs - i < n \<Longrightarrow> hash_iterate n (HashLp zl) (lp_it zl i) = Some (drop i kvs)"
proof (induction n arbitrary: i)
  case (Suc n)
  show ?case
  proof (cases "i < length kvs")
    case True
    then have "drop i kvs = (fst (kvs ! i), snd (kvs ! i)) # drop (Suc i) kvs" by (simp add: Cons_nth_drop_Suc)
    then show ?thesis using Suc.IH [of "Suc i"] Suc.prems True
      by (simp add: lp_it_next [OF assms] lp_it_current [OF assms True])
  next
    case False
    then show ?thesis using Suc.prems by (simp add: lp_it_next [OF assms])
  qed
qed simp

lemma length_represents: "represents zl vs \<Longrightarrow> length vs + 7 \<le> length zl"
proof (erule representsE)
  fix n es
  assume es: "zl = lp_of n es" "vs = map enc_val es"
  have "length es \<le> length (body es)"
  proof (induction es)
    case (Cons e es)
    then show ?case using length_backlen_pos [of "length e"] by (simp add: length_entry del: length_greater_0_conv)
  qed simp
  then show ?thesis by (simp add: es length_lp_of)
qed

lemma hash_pairs_lp: "represents zl (flat kvs) \<Longrightarrow> hash_pairs (HashLp zl) = Some kvs"
  using hash_iterate_lp [of zl kvs 0 "length zl"] length_represents [of zl "flat kvs"]
  by (simp add: hash_pairs_def hashTypeInitIterator_def lp_it_def)

lemma hash_map_lp: "represents zl (flat kvs) \<Longrightarrow> hash_map (HashLp zl) = map_of kvs"
  by (simp add: hash_map_def hash_pairs_lp)

lemma hash_iterate_ht:
  assumes "dict_ok T d" "it_ok d it" "length (it_todo d it) < n"
  shows "hash_iterate n (HashHt d) (HtHashIter it de) = Some (it_todo d it)"
  using assms
proof (induction n arbitrary: it de)
  case (Suc n)
  obtain d1 it1 r where nx: "dictNext d it = (d1, it1, r)" using prod_cases3 by blast
  note sp = dictNext_spec(1) [OF Suc.prems(1,2) nx]
  show ?case
  proof (cases "it_todo d it")
    case Nil
    then show ?thesis using sp nx by simp
  next
    case (Cons e es)
    then have s: "r = Some e" "it_todo d it1 = es" "it_ok d it1" using sp by simp_all
    then show ?thesis using Suc.IH [of it1 r] Suc.prems Cons nx
      by (simp add: hashTypeCurrentObjectNewSds_def hashTypeCurrentObject_def)
  qed
qed simp

lemma hash_pairs_ht: "dict_ok T d \<Longrightarrow> hash_pairs (HashHt d) = Some (dict_entries d)"
  using hash_iterate_ht [of T d dictGetIterator "dictSize d + 1" None] it_ok_init(1) [of d] it_todo_init(1) [of T d]
    dictSize_entries [of T d]
  by (simp add: hash_pairs_def hashTypeInitIterator_def)

subsection \<open>Conversion\<close>

lemma hash_add_pairs_ok:
  assumes "dict_ok (hashDictType E) d" "distinct (map fst kvs)" "fst ` set kvs \<inter> dom (dict_map d) = {}"
    "dictSize d + length kvs \<le> 2 ^ 60"
  shows "\<exists>d1. hash_add_pairs E kvs d = Some d1 \<and> hash_dup_pairs E kvs d = d1 \<and> dict_ok (hashDictType E) d1 \<and>
    dict_map d1 = dict_map d ++ map_of kvs"
  using assms
proof (induction kvs arbitrary: d rule: flat.induct)
  case (2 k v kvs)
  let ?T = "hashDictType E"
  have n: "dict_map d k = None" and sz: "dictSize d < 2 ^ 60" using "2.prems" by auto
  obtain d1 b where a: "dictAdd ?T d k v [] = (d1, b)" by fastforce
  note ad = dictAdd_ok [OF "2.prems"(1) sz, of k v "[]", unfolded a fst_conv snd_conv]
  have b: b and m: "dict_map d1 = (dict_map d)(k \<mapsto> v)" using ad n by simp_all
  have "dictSize d1 = Suc (dictSize d)"
    using dictSize_card [OF ad(1)] dictSize_card [OF "2.prems"(1)] n m by (simp add: card_insert_if domIff)
  moreover have "fst ` set kvs \<inter> dom (dict_map d1) = {}" using "2.prems"(2,3) by (auto simp: m)
  ultimately obtain d2 where d2: "hash_add_pairs E kvs d1 = Some d2" "hash_dup_pairs E kvs d1 = d2" "dict_ok ?T d2"
    "dict_map d2 = dict_map d1 ++ map_of kvs"
    using "2.IH" [OF ad(1)] "2.prems"(2,4) by auto
  moreover have "map_of kvs k = None" using "2.prems"(2) by (simp add: map_of_eq_None_iff)
  ultimately show ?case using a b by (auto simp: m map_add_def fun_eq_iff split: option.splits)
qed simp

lemma hashTypeLength_lp:
  assumes "represents zl (flat kvs)"
  shows "\<exists>zl1. hashTypeLength (HashLp zl) = Some (HashLp zl1, length kvs) \<and> represents zl1 (flat kvs)"
  using api_length [OF assms] by (auto simp: hashTypeLength_def)

lemma hashTypeConvert_ok:
  assumes "represents zl (flat kvs)" "distinct (map fst kvs)" "length kvs \<le> 2 ^ 60"
  shows "\<exists>d. hashTypeConvert E (HashLp zl) OBJ_ENCODING_HT = Some (HashHt d) \<and> dict_ok (hashDictType E) d \<and>
    dict_map d = map_of kvs"
proof -
  obtain zl1 where l: "hashTypeLength (HashLp zl) = Some (HashLp zl1, length kvs)" "represents zl1 (flat kvs)"
    using hashTypeLength_lp [OF assms(1)] by blast
  let ?d = "fst (dictExpand dictCreate (length kvs)) :: (sds, sds) dict"
  have d: "dict_ok (hashDictType E) ?d" "dict_map ?d = Map.empty" by (simp_all add: expanded_empty [OF refl])
  have "dictSize ?d + length kvs \<le> 2 ^ 60" using assms(3) dictSize_card [OF d(1)] d(2) by simp
  with hash_add_pairs_ok [OF d(1) assms(2)] d(2) obtain d1 where
    "hash_add_pairs E kvs ?d = Some d1" "dict_ok (hashDictType E) d1" "dict_map d1 = map_of kvs" by auto
  then show ?thesis using l hash_pairs_lp [OF l(2)] by (simp add: hashTypeConvert_def hashTypeConvertListpack_def)
qed

lemma small_pairs_sum:
  "\<forall>x \<in> set (flat kvs). length x \<le> m \<Longrightarrow> (\<Sum>x \<leftarrow> flat kvs. length x + 14) \<le> length kvs * (2 * m + 28)"
  by (induction kvs rule: flat.induct) auto

lemma env_room:
  assumes "hash_env_ok E" "hash_ok E h" "length f \<le> hash_max_listpack_value E" "length v \<le> hash_max_listpack_value E"
  shows "hash_room h f v"
proof (cases h)
  case (HashLp zl)
  then obtain kvs where k: "represents zl (flat kvs)" "small_pairs E kvs" using assms(2) by (auto simp: hash_ok_def)
  let ?m = "2 * hash_max_listpack_value E + 28"
  have b: "\<forall>x \<in> set (flat kvs). length x \<le> hash_max_listpack_value E" "length kvs \<le> hash_max_listpack_entries E"
    using k(2) by (simp_all add: small_pairs_def)
  have "length zl \<le> 7 + hash_max_listpack_entries E * ?m"
    using api_weight [OF k(1)] small_pairs_sum [OF b(1)] mult_le_mono1 [OF b(2), of ?m] by linarith
  moreover have "(hash_max_listpack_entries E + 1) * ?m = hash_max_listpack_entries E * ?m + ?m" by simp
  ultimately show ?thesis using assms(1,3,4) unfolding hash_env_ok_def by (simp add: HashLp hash_room_def)
qed (simp add: hash_room_def)

text \<open>A listpack has fewer pairs than bytes.\<close>

lemma represents_pairs: "represents zl (flat kvs) \<Longrightarrow> length zl < 2 ^ 32 \<and> length kvs \<le> 2 ^ 60"
proof -
  assume r: "represents zl (flat kvs)"
  obtain n es where "zl = lp_of n es" "lp_ok n es" by (rule representsE [OF r])
  then have "length zl < 2 ^ 32" by (simp add: lp_ok_def length_lp_of)
  then show ?thesis using length_represents [OF r] by simp
qed

subsection \<open>Lookup\<close>

lemma hashTypeGetFromListpack_ok:
  assumes "represents zl (flat kvs)"
  shows "\<exists>r. hashTypeGetFromListpack zl f = Some r \<and> map_option hval_sds r = map_of kvs f \<and> (\<forall>v. r = Some v \<longrightarrow> hval_ok v)"
proof (cases "kvs = []")
  case True
  then show ?thesis using api_first [OF assms] by (simp add: hashTypeGetFromListpack_def)
next
  case False
  note fd = lpl.pair_find [OF assms False, of f]
  show ?thesis
  proof (cases "field_idx f kvs")
    case None
    then show ?thesis using api_first [OF assms] fd False field_idx_None [of f kvs] by (simp add: hashTypeGetFromListpack_def)
  next
    case (Some i)
    note fi = field_idx_Some [OF Some]
    have "Suc (2 * i) < length (flat kvs)" using fi by simp
    note v = lp_value_at [OF assms this]
    have n: "lpNext zl (lp_at zl (2 * i)) = Some (Some (lp_at zl (Suc (2 * i))))"
      using lpl.pair_next(1) [OF assms, of i] fi by simp
    show ?thesis using api_first [OF assms] fd False Some n v fi flat_nth [of i kvs]
      by (simp add: hashTypeGetFromListpack_def)
  qed
qed

lemma hashTypeGetValue_ok:
  assumes "hash_ok E h"
  shows "\<exists>h1 r. hashTypeGetValue E h f = Some (h1, r) \<and> hash_ok E h1 \<and> hash_map h1 = hash_map h \<and>
    map_option hval_sds r = hash_map h f \<and> (\<forall>v. r = Some v \<longrightarrow> hval_ok v)"
proof (cases h)
  case (HashLp zl)
  then obtain kvs where k: "represents zl (flat kvs)" using assms by (auto simp: hash_ok_def)
  then show ?thesis using hashTypeGetFromListpack_ok [OF k, of f] assms HashLp
    by (auto simp: hashTypeGetValue_def hash_map_lp)
next
  case (HashHt d)
  then have d: "dict_ok (hashDictType E) d" using assms by (simp add: hash_ok_def)
  obtain d1 l where f: "dictFind (hashDictType E) d f = (d1, l)" by fastforce
  note ff = dictFind_ok(1,2) [OF d, of f, unfolded f fst_conv snd_conv]
  show ?thesis using ff rehash_rel_map(1) [OF d ff(1)] f
    by (cases l) (auto simp: HashHt hashTypeGetValue_def hashTypeGetFromHashTable_def hash_ok_def hash_map_def rehash_rel_def
        option.map_comp comp_def option.map_ident)
qed

lemma hash_okE:
  assumes "hash_ok E h"
  obtains (lp) zl kvs where "h = HashLp zl" "represents zl (flat kvs)" "small_pairs E kvs" "hash_map h = map_of kvs"
  | (ht) d where "h = HashHt d" "dict_ok (hashDictType E) d" "hash_map h = dict_map d"
proof (cases h)
  case (HashLp zl)
  with assms obtain kvs where k: "represents zl (flat kvs)" "small_pairs E kvs" by (auto simp: hash_ok_def)
  then show ?thesis by (rule lp [OF HashLp _ _ hash_map_lp [OF k(1), folded HashLp]])
next
  case (HashHt d)
  then show ?thesis using assms ht [OF HashHt] by (simp add: hash_ok_def hash_map_def)
qed

lemma hash_ok_lp: "represents zl (flat kvs) \<Longrightarrow> small_pairs E kvs \<Longrightarrow> hash_ok E (HashLp zl)"
  by (auto simp: hash_ok_def)

lemma hash_ok_ht [simp]: "hash_ok E (HashHt d) = dict_ok (hashDictType E) d" "hash_map (HashHt d) = dict_map d"
  by (simp_all add: hash_ok_def hash_map_def)

lemma hashTypeLength_ok:
  assumes "hash_ok E h"
  shows "\<exists>h1. hashTypeLength h = Some (h1, card (dom (hash_map h))) \<and> hash_ok E h1 \<and> hash_map h1 = hash_map h"
  using assms
proof (cases rule: hash_okE)
  case (lp zl kvs)
  obtain zl1 where z: "hashTypeLength (HashLp zl) = Some (HashLp zl1, length kvs)" "represents zl1 (flat kvs)"
    using hashTypeLength_lp [OF lp(2)] by blast
  have "card (dom (map_of kvs)) = length kvs"
    using lp(3) distinct_card [of "map fst kvs"] by (simp add: small_pairs_def dom_map_of_conv_image_fst)
  then show ?thesis using z hash_ok_lp [OF z(2) lp(3)] hash_map_lp [OF z(2)] by (simp add: lp(1) lp(4) [unfolded lp(1)])
next
  case (ht d)
  then show ?thesis using dictSize_card [OF ht(2)] by (simp add: hashTypeLength_def)
qed

lemma hashTypeConvert_small:
  assumes "represents zl (flat kvs)" "distinct (map fst kvs)"
  shows "\<exists>h1. hashTypeConvert E (HashLp zl) OBJ_ENCODING_HT = Some h1 \<and> hash_ok E h1 \<and> hash_map h1 = map_of kvs \<and>
    (\<exists>d. h1 = HashHt d)"
  using hashTypeConvert_ok [OF assms, of E] represents_pairs [OF assms(1)] by auto

subsection \<open>Update\<close>

lemma hashSet_listpack_ok:
  assumes r: "represents zl (flat kvs)" and s: "small_pairs E kvs" and w: "hash_room (HashLp zl) f v"
    and l: "length f \<le> hash_max_listpack_value E" "length v \<le> hash_max_listpack_value E"
  shows "\<exists>zl1 kvs1. hashSet_listpack zl f v = Some (zl1, map_of kvs f \<noteq> None) \<and> represents zl1 (flat kvs1) \<and>
    distinct (map fst kvs1) \<and> length kvs1 \<le> hash_max_listpack_entries E + 1 \<and>
    (\<forall>x \<in> set (flat kvs1). length x \<le> hash_max_listpack_value E) \<and> map_of kvs1 = (map_of kvs)(f \<mapsto> v)"
proof (cases "field_idx f kvs")
  case None
  let ?k = "kvs @ [(f, v)]"
  have b: "\<forall>x \<in> set (flat ?k). length x \<le> hash_max_listpack_value E" "length ?k \<le> hash_max_listpack_entries E + 1"
    using s l by (auto simp: small_pairs_def flat_append)
  have n: "map_of kvs f = None" using None by (simp add: field_idx_None)
  obtain zl1 where a: "hashSet_append zl f v = Some zl1" "represents zl1 (flat ?k)"
    using lpl.pair_append [OF r, of f v] w by (auto simp: hashSet_append_def hash_room_def)
  have "hashSet_listpack zl f v = Some (zl1, False)"
    using a(1) api_first [OF r] lpl.pair_find [OF r, of f] None by (cases "kvs = []") (simp_all add: hashSet_listpack_def)
  moreover have "f \<notin> fst ` set kvs" using n by (simp add: map_of_eq_None_iff)
  moreover have "map_of ?k = (map_of kvs)(f \<mapsto> v)" using n by (auto simp: map_add_def fun_eq_iff split: option.splits)
  ultimately show ?thesis using a(2) b s n by (intro exI [of _ zl1] exI [of _ ?k]) (auto simp: small_pairs_def)
next
  case (Some i)
  note fi = field_idx_Some [OF Some]
  let ?k = "kvs[i := (f, v)]"
  have "length zl + length v + 14 < 2 ^ 32" using w by (simp add: hash_room_def)
  then   obtain zl1 p where a: "lpReplace zl (lp_at zl (Suc (2 * i))) v = Ret (zl1, p)" "represents zl1 (flat ?k)"
    using lpl.pair_replace [OF r, of i v] fi by auto
  have ne: "kvs \<noteq> []" using fi by auto
  have "hashSet_listpack zl f v = Some (zl1, True)"
    using a(1) api_first [OF r] lpl.pair_find [OF r ne, of f] lpl.pair_next(1) [OF r, of i] fi ne Some
    by (simp add: hashSet_listpack_def)
  moreover have "set (flat ?k) \<subseteq> insert v (set (flat kvs))"
    using fi set_update_subset_insert [of "flat kvs" "Suc (2 * i)" v] flat_update [of i kvs v] by simp
  then have "\<forall>x \<in> set (flat ?k). length x \<le> hash_max_listpack_value E" using s l(2) by (auto simp: small_pairs_def)
  moreover have "map fst ?k = map fst kvs" "map_of ?k = (map_of kvs)(f \<mapsto> v)"
    using map_fst_update_idx [of i kvs v] map_of_update_idx [of kvs i v] fi s by (auto simp: small_pairs_def)
  ultimately show ?thesis using a(2) s fi by (intro exI [of _ zl1] exI [of _ ?k]) (auto simp: small_pairs_def)
qed

lemma hashSet_dict_ok:
  assumes "dict_ok (hashDictType E) d" "dictSize d < 2 ^ 60"
  shows "\<exists>d1. hashSet_dict E d f v = (d1, dict_map d f \<noteq> None) \<and> dict_ok (hashDictType E) d1 \<and>
    dict_map d1 = (dict_map d)(f \<mapsto> v)"
proof -
  let ?T = "hashDictType E"
  obtain d1 l where f: "dictFind ?T d f = (d1, l)" by fastforce
  note ff = dictFind_ok [OF assms(1), of f, unfolded f fst_conv snd_conv]
  have ok: "dict_ok ?T d1" using ff(1) by (simp add: rehash_rel_def)
  note m = rehash_rel_map [OF assms(1) ff(1)]
  show ?thesis
  proof (cases l)
    case None
    have "dictSize d1 < 2 ^ 60" using m(2) assms(2) by simp
    note ad = dictAdd_ok [OF ok this, of f v "[]"]
    have "dict_map d f = None" using ff(2) None by simp
    then show ?thesis using ad m(1) None f by (simp add: hashSet_dict_def)
  next
    case (Some x)
    note lx = ff(3) [OF Some]
    have "dict_map d f = Some (snd (dict_entry d1 x))" using ff(2) Some by simp
    then show ?thesis using dictSetVal_ok [OF ok, of x v] lx m(1) Some f by (simp add: hashSet_dict_def)
  qed
qed

lemma hashTypeSet_ok:
  assumes w: "length f \<le> hash_max_listpack_value E \<Longrightarrow> length v \<le> hash_max_listpack_value E \<Longrightarrow> hash_room h f v"
    and ok: "hash_ok E h" and c: "card (dom (hash_map h)) < 2 ^ 60"
  shows "\<exists>h1. hashTypeSet E h f v = Some (h1, hash_map h f \<noteq> None) \<and> hash_ok E h1 \<and> hash_map h1 = (hash_map h)(f \<mapsto> v)"
proof -
  have set_dict: "\<exists>d1. hashSet_dict E d f v = (d1, hash_map h f \<noteq> None) \<and> dict_ok (hashDictType E) d1 \<and>
      dict_map d1 = (hash_map h)(f \<mapsto> v)"
    if "dict_ok (hashDictType E) d" "dict_map d = hash_map h" for d
    using hashSet_dict_ok [OF that(1), of f v] c dictSize_card [OF that(1)] that(2) by simp
  from ok show ?thesis
  proof (cases rule: hash_okE)
    case (lp zl kvs)
    have dk: "distinct (map fst kvs)" "length kvs \<le> hash_max_listpack_entries E + 1" using lp(3) by (simp_all add: small_pairs_def)
    show ?thesis
    proof (cases "length f > hash_max_listpack_value E \<or> length v > hash_max_listpack_value E")
      case True
      obtain d where d: "hashTypeConvert E h OBJ_ENCODING_HT = Some (HashHt d)" "dict_ok (hashDictType E) d" "dict_map d = hash_map h"
        using hashTypeConvert_small [OF lp(2) dk(1), of E] lp(1,4) by auto
      show ?thesis using set_dict [OF d(2,3)] d(1) True lp(1) by (auto simp: hashTypeSet_def)
    next
      case False
      then obtain zl1 kvs1 where z: "hashSet_listpack zl f v = Some (zl1, hash_map h f \<noteq> None)" "represents zl1 (flat kvs1)"
        "distinct (map fst kvs1)" "length kvs1 \<le> hash_max_listpack_entries E + 1"
        "\<forall>x \<in> set (flat kvs1). length x \<le> hash_max_listpack_value E" "map_of kvs1 = (hash_map h)(f \<mapsto> v)"
        using hashSet_listpack_ok [OF lp(2,3), of f v] w lp(1,4) by auto
      obtain zl2 where l: "hashTypeLength (HashLp zl1) = Some (HashLp zl2, length kvs1)" "represents zl2 (flat kvs1)"
        using hashTypeLength_lp [OF z(2)] by blast
      show ?thesis
      proof (cases "length kvs1 > hash_max_listpack_entries E")
        case True
        then show ?thesis using hashTypeConvert_small [OF l(2) z(3)] False lp(1) z(1,6) l(1)
          by (auto simp: hashTypeSet_def)
      next
        case small: False
        then have "hash_ok E (HashLp zl2)" using hash_ok_lp [OF l(2)] z(3,5) by (simp add: small_pairs_def)
        then show ?thesis using False small lp(1) z(1,6) l(1) hash_map_lp [OF l(2)] by (simp add: hashTypeSet_def)
      qed
    qed
  next
    case (ht d)
    then show ?thesis using set_dict [OF ht(2) ht(3) [symmetric]] by (auto simp: hashTypeSet_def)
  qed
qed

subsection \<open>Deletion, conversion before an update, copying\<close>

lemma small_without:
  assumes "small_pairs E kvs" shows "small_pairs E (without kvs i n)"
proof -
  have "set (without kvs i n) \<subseteq> set kvs" by (auto simp: without_def dest: in_set_takeD in_set_dropD)
  then have "set (flat (without kvs i n)) \<subseteq> set (flat kvs)" by (auto simp: set_flat)
  moreover have "length (without kvs i n) \<le> length kvs" by (simp add: without_def)
  ultimately show ?thesis using assms distinct_without [of kvs i n] by (auto simp: small_pairs_def)
qed

lemma hashTypeDelete_ok:
  assumes "hash_ok E h"
  shows "\<exists>h1. hashTypeDelete E h f = Some (h1, hash_map h f \<noteq> None) \<and> hash_ok E h1 \<and> hash_map h1 = (hash_map h)(f := None)"
  using assms
proof (cases rule: hash_okE)
  case (lp zl kvs)
  show ?thesis
  proof (cases "field_idx f kvs")
    case None
    then have n: "map_of kvs f = None" by (simp add: field_idx_None)
    have "hashTypeDelete E h f = Some (h, False)"
      using api_first [OF lp(2)] lpl.pair_find [OF lp(2), of f] None by (cases "kvs = []") (simp_all add: hashTypeDelete_def lp(1))
    then show ?thesis using n assms by (auto simp: lp(4) fun_eq_iff)
  next
    case (Some i)
    note fi = field_idx_Some [OF Some]
    have ne: "kvs \<noteq> []" using fi by auto
    obtain zl1 p where z: "lpDeleteRangeWithEntry zl (lp_at zl (2 * i)) 2 = Some (zl1, p)" "represents zl1 (flat (without kvs i 1))"
      using lpl.pair_delete [OF lp(2), of i] fi by blast
    have "hashTypeDelete E h f = Some (HashLp zl1, True)"
      using api_first [OF lp(2)] lpl.pair_find [OF lp(2) ne, of f] Some ne z(1) by (simp add: hashTypeDelete_def lp(1))
    moreover have "map_of (without kvs i 1) = (map_of kvs)(f := None)"
      using map_of_without_idx [of kvs i] lp(3) fi by (simp add: small_pairs_def)
    ultimately show ?thesis using hash_ok_lp [OF z(2) small_without [OF lp(3)]] hash_map_lp [OF z(2)] fi by (simp add: lp(4))
  qed
next
  case (ht d)
  let ?T = "hashDictType E"
  obtain d1 b where a: "dictDelete ?T d f = (d1, b)" by fastforce
  note dl = dictDelete_ok [OF ht(2), of f, unfolded a fst_conv snd_conv]
  let ?d = "if htNeedsResize d1 then fst (dictResize ?T d1) else d1"
  have r: "rehash_rel ?T d1 ?d" using dict_maintain_rel [OF dl(1), of Resize] rehash_rel_refl [OF dl(1)] by simp
  then have "dict_ok ?T ?d" by (simp add: rehash_rel_def)
  then show ?thesis using dl a rehash_rel_map(1) [OF dl(1) r] ht(1,3) by (cases b) (auto simp: hashTypeDelete_def)
qed

lemma hash_args_sum_eq:
  "hash_args_sum E args acc =
     (if \<exists>a \<in> set args. length a > hash_max_listpack_value E then None else Some (acc + sum_list (map length args)))"
  by (induction args arbitrary: acc) auto

text \<open>
  \<^verbatim>\<open>hashTypeTryConversion\<close> changes nothing but the encoding. If the hash is still a listpack, the strings are
  within the limits and it stays below the safety size with them.
\<close>

lemma hashTypeTryConversion_ok:
  assumes "hash_ok E h"
  shows "\<exists>h1. hashTypeTryConversion E h args = Some h1 \<and> hash_ok E h1 \<and> hash_map h1 = hash_map h \<and>
    (\<forall>zl. h1 = HashLp zl \<longrightarrow>
       (\<forall>a \<in> set args. length a \<le> hash_max_listpack_value E) \<and> length zl + sum_list (map length args) \<le> LISTPACK_MAX_SAFETY_SIZE)"
  using assms
proof (cases rule: hash_okE)
  case (lp zl kvs)
  have "distinct (map fst kvs)" using lp(3) by (simp add: small_pairs_def)
  then obtain d where d: "hashTypeConvert E h OBJ_ENCODING_HT = Some (HashHt d)" "hash_ok E (HashHt d)" "hash_map (HashHt d) = hash_map h"
    using hashTypeConvert_small [OF lp(2), of E] lp(1,4) by auto
  obtain n es where es: "zl = lp_of n es" "lp_ok n es" by (rule representsE [OF lp(2)])
  have "lpGetTotalBytes zl = length zl" using lp_total [OF es(2)] by (simp add: es(1) length_lp_of)
  then have sf: "lpSafeToAdd (Some zl) k \<longleftrightarrow> length zl + k \<le> LISTPACK_MAX_SAFETY_SIZE" for k by (simp add: lpSafeToAdd_def not_less)
  show ?thesis
  proof (cases "(\<exists>a \<in> set args. length a > hash_max_listpack_value E) \<or> \<not> lpSafeToAdd (Some zl) (sum_list (map length args))")
    case True
    then have "hashTypeTryConversion E h args = Some (HashHt d)" using d(1) lp(1) by (auto simp: hashTypeTryConversion_def hash_args_sum_eq)
    then show ?thesis using d(2,3) by simp
  next
    case False
    then have "hashTypeTryConversion E h args = Some h" using lp(1) by (auto simp: hashTypeTryConversion_def hash_args_sum_eq)
    then show ?thesis using assms False lp(1) sf by (auto simp: not_less)
  qed
next
  case (ht d)
  then show ?thesis by (simp add: hashTypeTryConversion_def)
qed

lemma hashTypeDup_ok:
  assumes "hash_ok E h" "card (dom (hash_map h)) \<le> 2 ^ 60"
  shows "\<exists>h1. hashTypeDup E h = Some h1 \<and> hash_ok E h1 \<and> hash_map h1 = hash_map h \<and>
    ((\<exists>zl. h = HashLp zl) \<longleftrightarrow> (\<exists>zl. h1 = HashLp zl))"
  using assms(1)
proof (cases rule: hash_okE)
  case (lp zl kvs)
  obtain n es where es: "zl = lp_of n es" "lp_ok n es" by (rule representsE [OF lp(2)])
  have "lpBytes zl = length zl" using lp_total [OF es(2)] by (simp add: es(1) lpBytes_def length_lp_of)
  then show ?thesis using assms(1) lp(1) by (simp add: hashTypeDup_def)
next
  case (ht d)
  let ?d = "fst (dictExpand dictCreate (dictSize d)) :: (sds, sds) dict"
  have d: "dict_ok (hashDictType E) ?d" "dict_map ?d = Map.empty" by (simp_all add: expanded_empty [OF refl])
  have "distinct (map fst (dict_entries d))" using ht(2) by (simp add: dict_ok_def)
  moreover have "dictSize ?d + length (dict_entries d) \<le> 2 ^ 60"
    using assms(2) dictSize_card [OF d(1)] d(2) dictSize_entries [OF ht(2)] dictSize_card [OF ht(2)] ht(3) by simp
  ultimately show ?thesis using hash_add_pairs_ok [OF d(1), of "dict_entries d"] d(2) hash_pairs_ht [OF ht(2)] ht(1)
    by (auto simp: hashTypeDup_def dict_map_def)
qed

lemma createHashObject_represents: "represents lpNew (flat [])"
proof -
  have n: "lpNew = lp_of 0 []" by (simp add: lpNew_def lp_of_def hdr_def LP_HDR_SIZE_def lpSetTotalBytes_def lpSetNumElements_def
    write_at_def numeral_eq_Suc LP_EOF_def)
  have "lp_ok 0 []" by (simp add: lp_ok_def numele_ok_def LP_HDR_NUMELE_UNKNOWN_def)
  from representsI [OF this] show ?thesis by (simp add: n)
qed

lemma createHashObject_ok: "hash_ok E createHashObject" "hash_map createHashObject = Map.empty"
  using hash_ok_lp [OF createHashObject_represents, of E] hash_map_lp [OF createHashObject_represents]
  by (simp_all add: createHashObject_def small_pairs_def)

lemma hash_pairs_ok:
  assumes "hash_ok E h"
  shows "\<exists>kvs. hash_pairs h = Some kvs \<and> distinct (map fst kvs) \<and> map_of kvs = hash_map h"
  using assms
proof (cases rule: hash_okE)
  case (lp zl kvs)
  then show ?thesis using hash_pairs_lp [OF lp(2)] by (simp add: small_pairs_def)
next
  case (ht d)
  then show ?thesis using hash_pairs_ht [OF ht(2)] by (simp add: dict_map_def dict_ok_def)
qed

section \<open>The hash as a map\<close>

text \<open>
  The calls on one object: a conditional insertion as \<^verbatim>\<open>HSETNX\<close> makes it, an update as \<^verbatim>\<open>HSET\<close> makes it, which
  tells whether the field is new, a deletion, a lookup, and calls that must not be visible.
\<close>

definition hash_insert :: "hash_env \<Rightarrow> hashobj \<Rightarrow> sds \<Rightarrow> sds \<Rightarrow> (hashobj \<times> bool) option" where
  "hash_insert E h k v =
     (case hashTypeExists E h k of
        None \<Rightarrow> None
      | Some (h1, True) \<Rightarrow> Some (h1, False)
      | Some (h1, False) \<Rightarrow>
          (case hashTypeTryConversion E h1 [k, v] of
             None \<Rightarrow> None
           | Some h2 \<Rightarrow> map_option (\<lambda>(h3, update). (h3, True)) (hashTypeSet E h2 k v)))"

definition hash_update :: "hash_env \<Rightarrow> hashobj \<Rightarrow> sds \<Rightarrow> sds \<Rightarrow> (hashobj \<times> bool) option" where
  "hash_update E h k v =
     (case hashTypeTryConversion E h [k, v] of
        None \<Rightarrow> None
      | Some h1 \<Rightarrow> map_option (\<lambda>(h2, update). (h2, \<not> update)) (hashTypeSet E h1 k v))"

definition hash_fetch :: "hash_env \<Rightarrow> hashobj \<Rightarrow> sds \<Rightarrow> (hashobj \<times> sds option) option" where
  "hash_fetch E h k = map_option (\<lambda>(h1, r). (h1, map_option hval_sds r)) (hashTypeGetValue E h k)"

datatype hash_maint = Length_Call | Try_Conversion "sds list"

fun hash_maintain :: "hash_env \<Rightarrow> hashobj \<Rightarrow> hash_maint \<Rightarrow> hashobj option" where
  "hash_maintain E h Length_Call = map_option fst (hashTypeLength h)"
| "hash_maintain E h (Try_Conversion args) = hashTypeTryConversion E h args"

lemma hashTypeExists_ok:
  assumes "hash_ok E h"
  shows "\<exists>h1. hashTypeExists E h f = Some (h1, hash_map h f \<noteq> None) \<and> hash_ok E h1 \<and> hash_map h1 = hash_map h"
proof -
  obtain h1 r where "hashTypeGetValue E h f = Some (h1, r)" "hash_ok E h1" "hash_map h1 = hash_map h" "hash_map h f = map_option hval_sds r"
    using hashTypeGetValue_ok [OF assms, of f] by force
  then show ?thesis by (simp add: hashTypeExists_def)
qed

text \<open>An update after the check of the size always finds room.\<close>

lemma hash_set_checked:
  assumes "hash_ok E h" "card (dom (hash_map h)) < 2 ^ 60"
  shows "\<exists>h1 h2. hashTypeTryConversion E h [k, v] = Some h1 \<and> hashTypeSet E h1 k v = Some (h2, hash_map h k \<noteq> None) \<and>
    hash_ok E h2 \<and> hash_map h2 = (hash_map h)(k \<mapsto> v)"
proof -
  obtain h1 where h1: "hashTypeTryConversion E h [k, v] = Some h1" "hash_ok E h1" "hash_map h1 = hash_map h"
    "\<forall>zl. h1 = HashLp zl \<longrightarrow> length zl + sum_list (map length [k, v]) \<le> LISTPACK_MAX_SAFETY_SIZE"
    using hashTypeTryConversion_ok [OF assms(1), of "[k, v]"] by blast
  have "hash_room h1 k v" using h1(4) by (cases h1) (auto simp: hash_room_def LISTPACK_MAX_SAFETY_SIZE_def)
  then show ?thesis using hashTypeSet_ok [OF _ h1(2), of k v] h1 assms(2) by auto
qed

lemma hash_insert_ok:
  assumes "hash_ok E h" "card (dom (hash_map h)) < 2 ^ 60"
  shows "\<exists>h1. hash_insert E h k v = Some (h1, hash_map h k = None) \<and> hash_ok E h1 \<and>
    hash_map h1 = (if hash_map h k = None then (hash_map h)(k \<mapsto> v) else hash_map h)"
proof -
  obtain h1 where h1: "hashTypeExists E h k = Some (h1, hash_map h k \<noteq> None)" "hash_ok E h1" "hash_map h1 = hash_map h"
    using hashTypeExists_ok [OF assms(1)] by blast
  then show ?thesis using hash_set_checked [OF h1(2), of k v] assms(2)
    by (cases "hash_map h k") (auto simp: hash_insert_def)
qed

lemma hash_update_ok:
  assumes "hash_ok E h" "card (dom (hash_map h)) < 2 ^ 60"
  shows "\<exists>h1. hash_update E h k v = Some (h1, hash_map h k = None) \<and> hash_ok E h1 \<and> hash_map h1 = (hash_map h)(k \<mapsto> v)"
  using hash_set_checked [OF assms, of k v] by (auto simp: hash_update_def)

lemma hash_fetch_ok:
  assumes "hash_ok E h"
  shows "\<exists>h1. hash_fetch E h k = Some (h1, hash_map h k) \<and> hash_ok E h1 \<and> hash_map h1 = hash_map h"
  using hashTypeGetValue_ok [OF assms, of k] by (auto simp: hash_fetch_def)

lemma finite_hash_map: "finite (dom (hash_map h))"
  by (simp add: hash_map_def finite_dom_map_of split: hashobj.split)

lemma hash_maintain_ok:
  assumes "hash_ok E h"
  shows "\<exists>h1. hash_maintain E h m = Some h1 \<and> hash_ok E h1 \<and> hash_map h1 = hash_map h"
proof (cases m)
  case Length_Call
  then show ?thesis using hashTypeLength_ok [OF assms] by auto
next
  case (Try_Conversion args)
  then show ?thesis using hashTypeTryConversion_ok [OF assms, of args] by auto
qed

abbreviation hash_machine :: "hash_env \<Rightarrow> hashobj \<Rightarrow> (sds, sds, hash_maint) map_op \<Rightarrow> hashobj \<times> sds map_reply" where
  "hash_machine E \<equiv> map_exec (\<lambda>h k v. the (hash_insert E h k v)) (\<lambda>h k v. the (hash_update E h k v))
     (\<lambda>h k. the (hashTypeDelete E h k)) (\<lambda>h k. the (hash_fetch E h k)) (\<lambda>h m. the (hash_maintain E h m))"

lemma hash_map_impl:
  "map_impl createHashObject (\<lambda>h k v. the (hash_insert E h k v)) (\<lambda>h k v. the (hash_update E h k v))
     (\<lambda>h k. the (hashTypeDelete E h k)) (\<lambda>h k. the (hash_fetch E h k)) (\<lambda>h m. the (hash_maintain E h m))
     (hash_ok E) hash_map (2 ^ 60)"
proof (unfold_locales, goal_cases)
  case (3 h)
  show ?case by (rule finite_hash_map)
next
  case (4 h k v)
  then show ?case using hash_insert_ok [OF 4, of k v] by auto
next
  case (5 h k v)
  then show ?case using hash_update_ok [OF 5, of k v] by auto
next
  case (6 h k)
  then show ?case using hashTypeDelete_ok [OF 6, of k] by auto
next
  case (7 h k)
  then show ?case using hash_fetch_ok [OF 7, of k] by auto
next
  case (8 h m)
  then show ?case using hash_maintain_ok [OF 8, of m] by auto
qed (fact createHashObject_ok)+

text \<open>The default limits of \<^verbatim>\<open>config.c\<close>.\<close>

definition default_hash_env :: "sds dictType \<Rightarrow> hash_env" where
  "default_hash_env T = \<lparr>hashDictType = T, hash_max_listpack_entries = 512, hash_max_listpack_value = 64\<rparr>"

lemma default_hash_env_ok: "hash_env_ok (default_hash_env T)"
  by (simp add: hash_env_ok_def default_hash_env_def)

interpretation hobj: map_impl createHashObject "\<lambda>h k v. the (hash_insert E h k v)" "\<lambda>h k v. the (hash_update E h k v)"
    "\<lambda>h k. the (hashTypeDelete E h k)" "\<lambda>h k. the (hash_fetch E h k)" "\<lambda>h m. the (hash_maintain E h m)" "hash_ok E" hash_map "2 ^ 60"
  for E :: hash_env
  by (rule hash_map_impl)

text \<open>A sequence of calls on one object, which ends at the first failed assertion.\<close>

fun hash_call :: "hash_env \<Rightarrow> hashobj \<Rightarrow> (sds, sds, hash_maint) map_op \<Rightarrow> (hashobj \<times> sds map_reply) option" where
  "hash_call E h (Insert k v) = map_option (apsnd Flag) (hash_insert E h k v)"
| "hash_call E h (Update k v) = map_option (apsnd Flag) (hash_update E h k v)"
| "hash_call E h (Delete k) = map_option (apsnd Flag) (hashTypeDelete E h k)"
| "hash_call E h (Fetch k) = map_option (apsnd Val) (hash_fetch E h k)"
| "hash_call E h (Maintain m) = map_option (\<lambda>h1. (h1, Flag True)) (hash_maintain E h m)"

fun hash_calls :: "hash_env \<Rightarrow> hashobj \<Rightarrow> (sds, sds, hash_maint) map_op list \<Rightarrow> (hashobj \<times> sds map_reply list) option" where
  "hash_calls E h [] = Some (h, [])"
| "hash_calls E h (c # cs) =
     (case hash_call E h c of
        None \<Rightarrow> None
      | Some (h1, r) \<Rightarrow> map_option (apsnd ((#) r)) (hash_calls E h1 cs))"

lemma hash_call_machine:
  assumes "hash_ok E h" "card (dom (hash_map h)) < 2 ^ 60"
  shows "hash_call E h c = Some (hash_machine E h c)"
proof (cases c)
  case (Insert k v)
  then show ?thesis using hash_insert_ok [OF assms, of k v] by auto
next
  case (Update k v)
  then show ?thesis using hash_update_ok [OF assms, of k v] by auto
next
  case (Delete k)
  then show ?thesis using hashTypeDelete_ok [OF assms(1), of k] by auto
next
  case (Fetch k)
  then show ?thesis using hash_fetch_ok [OF assms(1), of k] by auto
next
  case (Maintain m)
  then show ?thesis using hash_maintain_ok [OF assms(1), of m] by auto
qed

lemma hash_calls_ok:
  assumes ok: "hash_ok E h" and c: "card (dom (hash_map h)) + length cs \<le> 2 ^ 60"
  shows "\<exists>h1. hash_calls E h cs = Some (h1, snd (run_ops map_spec (hash_map h) cs)) \<and> hash_ok E h1 \<and>
    hash_map h1 = fst (run_ops map_spec (hash_map h) cs)"
  using ok c
proof (induction cs arbitrary: h)
  case (Cons c cs)
  have sm: "card (dom (hash_map h)) < 2 ^ 60" using Cons.prems(2) by simp
  obtain h1 r where h1: "hash_machine E h c = (h1, r)" by fastforce
  have st: "hash_ok E h1" "map_spec (hash_map h) c = (hash_map h1, r)"
    using hobj.exec_refines [OF Cons.prems(1) sm, of c] by (simp_all add: h1)
  have "card (dom (hash_map h1)) \<le> Suc (card (dom (hash_map h)))"
    using card_dom_map_spec [OF finite_hash_map, of h c] by (simp add: st(2))
  then show ?case using Cons.IH [OF st(1)] Cons.prems(2) hash_call_machine [OF Cons.prems(1) sm, of c]
    by (auto simp: h1 st(2) split: prod.splits)
qed simp

section \<open>Properties\<close>

text \<open>A dict type for the examples.\<close>

definition ex_hash_env :: hash_env where
  "ex_hash_env = default_hash_env (setDictType ex_env)"



text \<open>
  Without the check of the size, as \<^verbatim>\<open>HINCRBY\<close> and \<^verbatim>\<open>HINCRBYFLOAT\<close> call it, \<^verbatim>\<open>hashTypeSet\<close> goes on with the null
  pointer of \<^verbatim>\<open>lpAppend\<close> when the limits let the listpack grow up to its 32-bit size.
\<close>

lemma hashTypeSet_no_room:
  assumes r: "represents zl (flat kvs)" and f: "map_of kvs f = None" "length f < 2 ^ 32 - 5"
    and l: "length f \<le> hash_max_listpack_value E" "length v \<le> hash_max_listpack_value E"
    and big: "2 ^ 32 \<le> length zl + length (entry (lp_encode f))"
  shows "hashTypeSet E (HashLp zl) f v = None"
proof -
  obtain n es where es: "zl = lp_of n es" "lp_ok n es" by (rule representsE [OF r])
  have p: "lpGetTotalBytes zl - 1 = pos es (length es)" using lp_total [OF es(2)] pos_end by (simp add: es(1))
  have "lpInsert zl (StrArg f) (pos es (length es)) LP_BEFORE = Null"
    using insert_pos [OF es(2) str_arg [OF f(2)], of LP_BEFORE "length es"] big
    by (auto simp: es(1) size_after_def split: lp_result.splits)
  then have "hashSet_append zl f v = None" unfolding hashSet_append_def lpAppend_def p by simp
  moreover have "field_idx f kvs = None" using f(1) by (simp add: field_idx_None)
  ultimately have "hashSet_listpack zl f v = None"
    using api_first [OF r] lpl.pair_find [OF r, of f] by (cases "kvs = []") (simp_all add: hashSet_listpack_def)
  then show ?thesis using l by (simp add: hashTypeSet_def)
qed

text \<open>
  Iterating over a hash object yields every field once, with its value, in either encoding, and
  \<^verbatim>\<open>hashTypeDup\<close> gives an equal object of the same encoding; both always return.
\<close>

lemma hash_iteration_and_copy:
  assumes "hash_ok E h" "card (dom (hash_map h)) \<le> 2 ^ 60"
  shows "\<exists>kvs h1. hash_pairs h = Some kvs \<and> distinct (map fst kvs) \<and> map_of kvs = hash_map h \<and>
    hashTypeDup E h = Some h1 \<and> hash_ok E h1 \<and> hash_map h1 = hash_map h \<and>
    ((\<exists>zl. h = HashLp zl) \<longleftrightarrow> (\<exists>zl. h1 = HashLp zl))"
  using hashTypeDup_ok [OF assms] hash_pairs_ok [OF assms(1)] by blast

end
