(* ===== verification/Hash_Commands.thy ===== *)
theory Hash_Commands
  imports Hash_Object Set_Commands
begin

text \<open>
  The hash commands of \<^verbatim>\<open>t_hash.c\<close>, on the keyspace of the set commands, where the objects of other types are
  hashes and the rest.

  A handler gets the arguments of the command, which are strings, and returns the new state and the
  reply; \<open>None\<close> is a failed assertion. The state has \<^verbatim>\<open>server.dirty\<close> and the log of \<^verbatim>\<open>signalModifiedKey\<close>
  and \<^verbatim>\<open>notifyKeyspaceEvent\<close> calls, as for the set commands. The \<^verbatim>\<open>long double\<close> arithmetic of
  \<^verbatim>\<open>HINCRBYFLOAT\<close> is the record \<open>ld_arith\<close>.
\<close>

section \<open>Model of the commands\<close>

datatype 'y other = HashVal hashobj | RestVal 'y

type_synonym 'y hserver = "'y other server"

datatype hreply =
    HInt int | HWrongType | HNull | HBulk sds | HOk | HError string | HArray "hreply list" | HMapReply int "hreply list"

definition set_hash :: "sds \<Rightarrow> hashobj \<Rightarrow> 'y hserver \<Rightarrow> 'y hserver" where
  "set_hash k h S = S\<lparr>keyspace := (keyspace S)(k \<mapsto> OtherVal (HashVal h))\<rparr>"

text \<open>Looking up a key with the type check: a hash, no key, or a wrong type.\<close>

datatype hlookup = HashAt hashobj | NoKey | BadType

definition hash_lookup :: "'y hserver \<Rightarrow> sds \<Rightarrow> hlookup" where
  "hash_lookup S key =
     (case keyspace S key of
        None \<Rightarrow> NoKey
      | Some (OtherVal (HashVal h)) \<Rightarrow> HashAt h
      | _ \<Rightarrow> BadType)"

definition hashTypeLookupWriteOrCreate :: "'y hserver \<Rightarrow> sds \<Rightarrow> ('y hserver \<times> hashobj) option" where
  "hashTypeLookupWriteOrCreate S key =
     (case hash_lookup S key of
        BadType \<Rightarrow> None
      | HashAt h \<Rightarrow> Some (S, h)
      | NoKey \<Rightarrow> Some (set_hash key createHashObject S, createHashObject))"

subsection \<open>HSETNX, HSET, HINCRBY\<close>

definition hsetnxCommand :: "hash_env \<Rightarrow> 'y hserver \<Rightarrow> sds \<Rightarrow> sds \<Rightarrow> sds \<Rightarrow> ('y hserver \<times> hreply) option" where
  "hsetnxCommand E S key field v =
     (case hashTypeLookupWriteOrCreate S key of
        None \<Rightarrow> Some (S, HWrongType)
      | Some (S1, h) \<Rightarrow>
          (case hashTypeExists E h field of
             None \<Rightarrow> None
           | Some (h1, True) \<Rightarrow> Some (set_hash key h1 S1, HInt 0)
           | Some (h1, False) \<Rightarrow>
               (case hashTypeTryConversion E h1 [field, v] of
                  None \<Rightarrow> None
                | Some h2 \<Rightarrow>
                    (case hashTypeSet E h2 field v of
                       None \<Rightarrow> None
                     | Some (h3, update) \<Rightarrow>
                         Some (add_dirty 1 (log_events [Signal key, Notify ''hset'' key] (set_hash key h3 S1)), HInt 1)))))"

fun hset_loop :: "hash_env \<Rightarrow> hashobj \<Rightarrow> sds list \<Rightarrow> nat \<Rightarrow> (hashobj \<times> nat) option" where
  "hset_loop E h (f # v # args) created =
     (case hashTypeSet E h f v of
        None \<Rightarrow> None
      | Some (h1, update) \<Rightarrow> hset_loop E h1 args (if update then created else created + 1))"
| "hset_loop E h args created = Some (h, created)"

text \<open>\<^verbatim>\<open>HSET\<close> and \<^verbatim>\<open>HMSET\<close>; the second letter of the command name selects the reply.\<close>

definition hsetCommand :: "hash_env \<Rightarrow> 'y hserver \<Rightarrow> sds \<Rightarrow> sds \<Rightarrow> sds list \<Rightarrow> ('y hserver \<times> hreply) option" where
  "hsetCommand E S cmdname key args =
     (if (length args + 2) mod 2 = 1 then Some (S, HError ''wrong number of arguments'')
      else
        (case hashTypeLookupWriteOrCreate S key of
           None \<Rightarrow> Some (S, HWrongType)
         | Some (S1, h) \<Rightarrow>
             (case hashTypeTryConversion E h args of
                None \<Rightarrow> None
              | Some h1 \<Rightarrow>
                  (case hset_loop E h1 args 0 of
                     None \<Rightarrow> None
                   | Some (h2, created) \<Rightarrow>
                       Some (add_dirty (int (length args div 2)) (log_events [Signal key, Notify ''hset'' key] (set_hash key h2 S1)),
                         if cmdname ! 1 = ch CHR ''s'' \<or> cmdname ! 1 = ch CHR ''S'' then HInt (int created) else HOk)))))"

text \<open>The value a field counts as: 0 when it is missing, \<open>None\<close> when it is no integer.\<close>

fun hval_ll :: "hval option \<Rightarrow> int option" where
  "hval_ll None = Some 0"
| "hval_ll (Some (HStr s)) = string2ll s"
| "hval_ll (Some (HLl v)) = Some v"

definition hincrbyCommand :: "hash_env \<Rightarrow> 'y hserver \<Rightarrow> sds \<Rightarrow> sds \<Rightarrow> sds \<Rightarrow> ('y hserver \<times> hreply) option" where
  "hincrbyCommand E S key field incrarg =
     (case string2ll incrarg of
        None \<Rightarrow> Some (S, HError ''value is not an integer or out of range'')
      | Some incr \<Rightarrow>
          (case hashTypeLookupWriteOrCreate S key of
             None \<Rightarrow> Some (S, HWrongType)
           | Some (S1, h) \<Rightarrow>
               (case hashTypeGetValue E h field of
                  None \<Rightarrow> None
                | Some (h1, r) \<Rightarrow>
                    (case hval_ll r of
                       None \<Rightarrow> Some (set_hash key h1 S1, HError ''hash value is not an integer'')
                     | Some oldvalue \<Rightarrow>
                         (if incr < 0 \<and> oldvalue < 0 \<and> incr < INT64_MIN - oldvalue \<or>
                             incr > 0 \<and> oldvalue > 0 \<and> incr > INT64_MAX - oldvalue
                          then Some (set_hash key h1 S1, HError ''increment or decrement would overflow'')
                          else
                            (case hashTypeSet E h1 field (sdsll2str (oldvalue + incr)) of
                               None \<Rightarrow> None
                             | Some (h2, update) \<Rightarrow>
                                 Some (add_dirty 1 (log_events [Signal key, Notify ''hincrby'' key] (set_hash key h2 S1)),
                                   HInt (oldvalue + incr))))))))"

subsection \<open>HINCRBYFLOAT\<close>

datatype c_errno = No_Error | ERANGE | EINVAL

text \<open>
  The \<^verbatim>\<open>long double\<close> operations of the C implementation: \<^verbatim>\<open>strtold\<close> with the offset of its end pointer and
  \<^verbatim>\<open>errno\<close>, the tests, the conversion, the sum, and \<^verbatim>\<open>snprintf\<close> with \<^verbatim>\<open>%.17Lf\<close>.
\<close>

record 'f ld_arith =
  ld_strtold :: "sds \<Rightarrow> 'f \<times> nat \<times> c_errno"
  ld_zero :: 'f
  ld_huge :: "'f \<Rightarrow> bool"
  ld_isnan :: "'f \<Rightarrow> bool"
  ld_isinf :: "'f \<Rightarrow> bool"
  ld_of_ll :: "int \<Rightarrow> 'f"
  ld_add :: "'f \<Rightarrow> 'f \<Rightarrow> 'f"
  ld_fixed17 :: "'f \<Rightarrow> sds"

definition MAX_LONG_DOUBLE_CHARS :: nat where "MAX_LONG_DOUBLE_CHARS = 5 * 1024"

definition c_isspace :: "byte \<Rightarrow> bool" where
  "c_isspace b \<longleftrightarrow> b = 32 \<or> 9 \<le> b \<and> b \<le> 13"

definition string2ld :: "'f ld_arith \<Rightarrow> sds \<Rightarrow> 'f option" where
  "string2ld A s =
     (if length s = 0 \<or> length s \<ge> MAX_LONG_DOUBLE_CHARS then None
      else
        (let buf = s @ [0] in
         case ld_strtold A buf of
           (x, eptr, errno) \<Rightarrow>
             (if c_isspace (buf ! 0) \<or> buf ! eptr \<noteq> 0 \<or> eptr \<noteq> length s \<or>
                 errno = ERANGE \<and> (ld_huge A x \<or> x = ld_zero A) \<or> errno = EINVAL \<or> ld_isnan A x
              then None else Some x)))"

text \<open>\<^verbatim>\<open>ld2string\<close> in the mode \<^verbatim>\<open>LD_STR_HUMAN\<close>, for a value that is not infinite.\<close>

definition ld2string_human :: "'f ld_arith \<Rightarrow> 'f \<Rightarrow> sds" where
  "ld2string_human A x =
     (let s = ld_fixed17 A x in
      if length s + 1 > MAX_LONG_DOUBLE_CHARS then []
      else
        (let s1 = (if ch CHR ''.'' \<in> set s then
                     (let t = rev (dropWhile (\<lambda>b. b = ch CHR ''0'') (rev s)) in
                      if last t = ch CHR ''.'' then butlast t else t)
                   else s)
         in if s1 = [ch CHR ''-'', ch CHR ''0''] then [ch CHR ''0''] else s1))"

definition hval_ld :: "'f ld_arith \<Rightarrow> hval option \<Rightarrow> 'f option" where
  "hval_ld A r =
     (case r of
        None \<Rightarrow> Some (ld_zero A)
      | Some (HStr s) \<Rightarrow> string2ld A s
      | Some (HLl v) \<Rightarrow> Some (ld_of_ll A v))"

definition hincrbyfloatCommand ::
    "hash_env \<Rightarrow> 'f ld_arith \<Rightarrow> 'y hserver \<Rightarrow> sds \<Rightarrow> sds \<Rightarrow> sds \<Rightarrow> ('y hserver \<times> hreply) option" where
  "hincrbyfloatCommand E A S key field incrarg =
     (case string2ld A incrarg of
        None \<Rightarrow> Some (S, HError ''value is not a valid float'')
      | Some incr \<Rightarrow>
          (case hashTypeLookupWriteOrCreate S key of
             None \<Rightarrow> Some (S, HWrongType)
           | Some (S1, h) \<Rightarrow>
               (case hashTypeGetValue E h field of
                  None \<Rightarrow> None
                | Some (h1, r) \<Rightarrow>
                    (case hval_ld A r of
                       None \<Rightarrow> Some (set_hash key h1 S1, HError ''hash value is not a float'')
                     | Some x \<Rightarrow>
                         (let y = ld_add A x incr in
                          if ld_isnan A y \<or> ld_isinf A y
                          then Some (set_hash key h1 S1, HError ''increment would produce NaN or Infinity'')
                          else
                            (let buf = ld2string_human A y in
                             case hashTypeSet E h1 field buf of
                               None \<Rightarrow> None
                             | Some (h2, update) \<Rightarrow>
                                 Some (add_dirty 1 (log_events [Signal key, Notify ''hincrbyfloat'' key] (set_hash key h2 S1)),
                                   HBulk buf)))))))"

subsection \<open>HDEL\<close>

fun hdel_loop :: "hash_env \<Rightarrow> hashobj \<Rightarrow> sds list \<Rightarrow> nat \<Rightarrow> (hashobj \<times> nat \<times> bool) option" where
  "hdel_loop E h [] deleted = Some (h, deleted, False)"
| "hdel_loop E h (f # fs) deleted =
     (case hashTypeDelete E h f of
        None \<Rightarrow> None
      | Some (h1, False) \<Rightarrow> hdel_loop E h1 fs deleted
      | Some (h1, True) \<Rightarrow>
          (case hashTypeLength h1 of
             None \<Rightarrow> None
           | Some (h2, n) \<Rightarrow> if n = 0 then Some (h2, deleted + 1, True) else hdel_loop E h2 fs (deleted + 1)))"

definition hdelCommand :: "hash_env \<Rightarrow> 'y hserver \<Rightarrow> sds \<Rightarrow> sds list \<Rightarrow> ('y hserver \<times> hreply) option" where
  "hdelCommand E S key fs =
     (case hash_lookup S key of
        NoKey \<Rightarrow> Some (S, HInt 0)
      | BadType \<Rightarrow> Some (S, HWrongType)
      | HashAt h \<Rightarrow>
          (case hdel_loop E h fs 0 of
             None \<Rightarrow> None
           | Some (h1, deleted, keyremoved) \<Rightarrow>
               (let S1 = (if keyremoved then del_key key S else set_hash key h1 S);
                    S2 = (if deleted > 0
                          then add_dirty (int deleted)
                            (log_events ([Signal key, Notify ''hdel'' key] @ (if keyremoved then [Notify ''del'' key] else [])) S1)
                          else S1)
                in Some (S2, HInt (int deleted)))))"

subsection \<open>The reading commands\<close>

text \<open>A value as a bulk reply; \<^verbatim>\<open>addReplyBulkLongLong\<close> prints a number.\<close>

fun hval_reply :: "hval \<Rightarrow> hreply" where
  "hval_reply (HStr s) = HBulk s"
| "hval_reply (HLl v) = HBulk (case ll2string (replicate 64 0) 64 v of (n, buf) \<Rightarrow> take n buf)"

definition addHashFieldToReply :: "hash_env \<Rightarrow> hashobj option \<Rightarrow> sds \<Rightarrow> (hashobj option \<times> hreply) option" where
  "addHashFieldToReply E ho field =
     (case ho of
        None \<Rightarrow> Some (None, HNull)
      | Some h \<Rightarrow>
          map_option (\<lambda>(h1, r). (Some h1, case r of None \<Rightarrow> HNull | Some v \<Rightarrow> hval_reply v)) (hashTypeGetValue E h field))"

definition set_hash_opt :: "sds \<Rightarrow> hashobj option \<Rightarrow> 'y hserver \<Rightarrow> 'y hserver" where
  "set_hash_opt key ho S = (case ho of None \<Rightarrow> S | Some h \<Rightarrow> set_hash key h S)"

definition hgetCommand :: "hash_env \<Rightarrow> 'y hserver \<Rightarrow> sds \<Rightarrow> sds \<Rightarrow> ('y hserver \<times> hreply) option" where
  "hgetCommand E S key field =
     (case hash_lookup S key of
        NoKey \<Rightarrow> Some (S, HNull)
      | BadType \<Rightarrow> Some (S, HWrongType)
      | HashAt h \<Rightarrow>
          map_option (\<lambda>(ho, r). (set_hash_opt key ho S, r)) (addHashFieldToReply E (Some h) field))"

fun hmget_loop :: "hash_env \<Rightarrow> hashobj option \<Rightarrow> sds list \<Rightarrow> (hashobj option \<times> hreply list) option" where
  "hmget_loop E ho [] = Some (ho, [])"
| "hmget_loop E ho (f # fs) =
     (case addHashFieldToReply E ho f of
        None \<Rightarrow> None
      | Some (ho1, r) \<Rightarrow> map_option (apsnd ((#) r)) (hmget_loop E ho1 fs))"

definition hmgetCommand :: "hash_env \<Rightarrow> 'y hserver \<Rightarrow> sds \<Rightarrow> sds list \<Rightarrow> ('y hserver \<times> hreply) option" where
  "hmgetCommand E S key fs =
     (case hash_lookup S key of
        BadType \<Rightarrow> Some (S, HWrongType)
      | l \<Rightarrow>
          map_option (\<lambda>(ho, rs). (set_hash_opt key ho S, HArray rs))
            (hmget_loop E (case l of HashAt h \<Rightarrow> Some h | _ \<Rightarrow> None) fs))"

definition hlenCommand :: "'y hserver \<Rightarrow> sds \<Rightarrow> ('y hserver \<times> hreply) option" where
  "hlenCommand S key =
     (case hash_lookup S key of
        NoKey \<Rightarrow> Some (S, HInt 0)
      | BadType \<Rightarrow> Some (S, HWrongType)
      | HashAt h \<Rightarrow> map_option (\<lambda>(h1, n). (set_hash key h1 S, HInt (int n))) (hashTypeLength h))"

definition hstrlenCommand :: "hash_env \<Rightarrow> 'y hserver \<Rightarrow> sds \<Rightarrow> sds \<Rightarrow> ('y hserver \<times> hreply) option" where
  "hstrlenCommand E S key field =
     (case hash_lookup S key of
        NoKey \<Rightarrow> Some (S, HInt 0)
      | BadType \<Rightarrow> Some (S, HWrongType)
      | HashAt h \<Rightarrow> map_option (\<lambda>(h1, n). (set_hash key h1 S, HInt (int n))) (hashTypeGetValueLength E h field))"

definition hexistsCommand :: "hash_env \<Rightarrow> 'y hserver \<Rightarrow> sds \<Rightarrow> sds \<Rightarrow> ('y hserver \<times> hreply) option" where
  "hexistsCommand E S key field =
     (case hash_lookup S key of
        NoKey \<Rightarrow> Some (S, HInt 0)
      | BadType \<Rightarrow> Some (S, HWrongType)
      | HashAt h \<Rightarrow> map_option (\<lambda>(h1, b). (set_hash key h1 S, HInt (if b then 1 else 0))) (hashTypeExists E h field))"

text \<open>
  \<^verbatim>\<open>HKEYS\<close>, \<^verbatim>\<open>HVALS\<close> and \<^verbatim>\<open>HGETALL\<close>, with the two bits of \<^verbatim>\<open>flags\<close>; the count is checked at the end. The
  numbers that \<^verbatim>\<open>addHashIteratorCursorToReply\<close> prints have the notation of \<open>hash_pairs\<close>. Both \<^verbatim>\<open>length\<close>, which
  takes the length of the hash, and \<^verbatim>\<open>count\<close> are of type \<^verbatim>\<open>int\<close>: the first is cut to 32 bits, and counting
  beyond the largest \<^verbatim>\<open>int\<close>, which is undefined, gives \<open>None\<close> as a failed assertion does.
\<close>

definition hgetall_items :: "bool \<Rightarrow> bool \<Rightarrow> (sds \<times> sds) list \<Rightarrow> hreply list" where
  "hgetall_items keys vals kvs =
     concat (map (\<lambda>(k, v). (if keys then [HBulk k] else []) @ (if vals then [HBulk v] else [])) kvs)"

definition genericHgetallCommand :: "'y hserver \<Rightarrow> sds \<Rightarrow> bool \<Rightarrow> bool \<Rightarrow> ('y hserver \<times> hreply) option" where
  "genericHgetallCommand S key keys vals =
     (case hash_lookup S key of
        NoKey \<Rightarrow> Some (S, if keys \<and> vals then HMapReply 0 [] else HArray [])
      | BadType \<Rightarrow> Some (S, HWrongType)
      | HashAt h \<Rightarrow>
          (case hashTypeLength h of
             None \<Rightarrow> None
           | Some (h1, n) \<Rightarrow>
               (case hash_pairs h1 of
                  None \<Rightarrow> None
                | Some kvs \<Rightarrow>
                    (let length32 = sint (word_of_nat n :: u32);
                         items = hgetall_items keys vals kvs;
                         count = int (length items)
                     in if count > INT32_MAX then None
                        else if (if keys \<and> vals then count div 2 else count) \<noteq> length32 then None
                        else Some (set_hash key h1 S, if keys \<and> vals then HMapReply length32 items else HArray items)))))"

definition hkeysCommand :: "'y hserver \<Rightarrow> sds \<Rightarrow> ('y hserver \<times> hreply) option" where
  "hkeysCommand S key = genericHgetallCommand S key True False"

definition hvalsCommand :: "'y hserver \<Rightarrow> sds \<Rightarrow> ('y hserver \<times> hreply) option" where
  "hvalsCommand S key = genericHgetallCommand S key False True"

definition hgetallCommand :: "'y hserver \<Rightarrow> sds \<Rightarrow> ('y hserver \<times> hreply) option" where
  "hgetallCommand S key = genericHgetallCommand S key True True"

section \<open>Hashes in the keyspace\<close>

text \<open>
  The key holds the map \<open>m\<close>: a well-formed hash object of it, or no key when the map is empty.
\<close>

definition holds_at :: "hash_env \<Rightarrow> 'y hserver \<Rightarrow> sds \<Rightarrow> (sds \<rightharpoonup> sds) \<Rightarrow> bool" where
  "holds_at E S key m \<longleftrightarrow>
     (if m = Map.empty then keyspace S key = None
      else (\<exists>h. keyspace S key = Some (OtherVal (HashVal h)) \<and> hash_ok E h \<and> hash_map h = m))"

text \<open>The state after a command that leaves \<open>m\<close> at the key, other keys alone, and these traces.\<close>

definition hash_result :: "hash_env \<Rightarrow> 'y hserver \<Rightarrow> sds \<Rightarrow> (sds \<rightharpoonup> sds) \<Rightarrow> int \<Rightarrow> event list \<Rightarrow> 'y hserver \<Rightarrow> bool" where
  "hash_result E S key m n evs S' \<longleftrightarrow>
     holds_at E S' key m \<and> (\<forall>k. k \<noteq> key \<longrightarrow> keyspace S' k = keyspace S k) \<and>
     dirty S' = dirty S + n \<and> events S' = events S @ evs"

lemma holds_atE:
  assumes "holds_at E S key m"
  obtains (none) "m = Map.empty" "hash_lookup S key = NoKey"
  | (hash) h where "m \<noteq> Map.empty" "hash_lookup S key = HashAt h" "hash_ok E h" "hash_map h = m"
proof (cases "m = Map.empty")
  case True
  then show ?thesis using assms none by (simp add: holds_at_def hash_lookup_def)
next
  case False
  then obtain h where "keyspace S key = Some (OtherVal (HashVal h))" "hash_ok E h" "hash_map h = m"
    using assms by (auto simp: holds_at_def)
  then show ?thesis using False hash [of h] by (simp add: hash_lookup_def)
qed

lemma set_hash_simps [simp]:
  "keyspace (set_hash k h S) = (keyspace S)(k \<mapsto> OtherVal (HashVal h))" "dirty (set_hash k h S) = dirty S"
  "events (set_hash k h S) = events S" "set_hash k h (set_hash k h' S) = set_hash k h S"
  by (simp_all add: set_hash_def)

lemma server_simps [simp]:
  "keyspace (add_dirty n S) = keyspace S" "dirty (add_dirty n S) = dirty S + n" "events (add_dirty n S) = events S"
  "keyspace (log_events evs S) = keyspace S" "dirty (log_events evs S) = dirty S" "events (log_events evs S) = events S @ evs"
  "keyspace (del_key k S) = (keyspace S)(k := None)" "dirty (del_key k S) = dirty S" "events (del_key k S) = events S"
  by (simp_all add: add_dirty_def log_events_def del_key_def)

lemma lookup_create:
  assumes "holds_at E S key m"
  obtains S1 h where "hashTypeLookupWriteOrCreate S key = Some (S1, h)" "hash_ok E h" "hash_map h = m"
    "\<forall>h'. set_hash key h' S1 = set_hash key h' S"
  using assms
proof (cases rule: holds_atE)
  case none
  show ?thesis
    by (rule that [of "set_hash key createHashObject S" createHashObject])
      (simp_all add: none hashTypeLookupWriteOrCreate_def createHashObject_ok)
next
  case (hash h)
  then show ?thesis by (intro that [of S h]) (simp_all add: hashTypeLookupWriteOrCreate_def)
qed

lemma hash_result_set:
  assumes "hash_ok E h" "hash_map h = m" "m \<noteq> Map.empty"
  shows "hash_result E S key m n evs (add_dirty n (log_events evs (set_hash key h S)))"
  using assms by (simp add: hash_result_def holds_at_def)

lemma hash_result_same:
  assumes "hash_ok E h" "hash_map h = m" "m \<noteq> Map.empty"
  shows "hash_result E S key m 0 [] (set_hash key h S)"
  using assms by (simp add: hash_result_def holds_at_def)

lemma hash_result_refl: "holds_at E S key m \<Longrightarrow> hash_result E S key m 0 [] S"
  by (simp add: hash_result_def)

section \<open>The writing commands\<close>

lemma hset_loop_ok:
  assumes "hash_env_ok E"
  shows "hash_ok E h \<Longrightarrow> card (dom (hash_map h)) + length kvs \<le> 2 ^ 60 \<Longrightarrow>
    \<exists>h1. hset_loop E h (flat kvs) c = Some (h1, c + card (fst ` set kvs - dom (hash_map h))) \<and> hash_ok E h1 \<and>
      hash_map h1 = hash_map h ++ map_of (rev kvs)"
proof (induction kvs arbitrary: h c rule: flat.induct)
  case (2 k v kvs)
  let ?m = "hash_map h"
  obtain h1 where h1: "hashTypeSet E h k v = Some (h1, ?m k \<noteq> None)" "hash_ok E h1" "hash_map h1 = ?m(k \<mapsto> v)"
    using hashTypeSet_ok [OF env_room [OF assms "2.prems"(1)] "2.prems"(1), of k v] "2.prems"(2) by auto
  have d: "dom (hash_map h1) = insert k (dom ?m)" by (simp add: h1(3))
  have "card (dom (hash_map h1)) + length kvs \<le> 2 ^ 60"
    using "2.prems"(2) finite_hash_map [of h] by (simp add: d card_insert_if)
  then have h2: "\<exists>h2. hset_loop E h1 (flat kvs) c = Some (h2, c + card (fst ` set kvs - insert k (dom ?m))) \<and> hash_ok E h2 \<and>
      hash_map h2 = ?m(k \<mapsto> v) ++ map_of (rev kvs)" for c
    using "2.IH" [OF h1(2), of c] unfolding d unfolding h1(3) by blast
  have "card (fst ` set ((k, v) # kvs) - dom ?m) = (if ?m k = None then 1 else 0) + card (fst ` set kvs - insert k (dom ?m))"
  proof (cases "?m k = None")
    case True
    then have "fst ` set ((k, v) # kvs) - dom ?m = insert k (fst ` set kvs - insert k (dom ?m))" by auto
    then show ?thesis using True by simp
  next
    case False
    then have "fst ` set ((k, v) # kvs) - dom ?m = fst ` set kvs - insert k (dom ?m)" by auto
    then show ?thesis using False by simp
  qed
  moreover have "?m(k \<mapsto> v) ++ map_of (rev kvs) = ?m ++ map_of (rev ((k, v) # kvs))"
    by (auto simp: map_add_def fun_eq_iff split: option.split)
  ultimately show ?case using h1(1) h2 [of "if ?m k = None then c + 1 else c"] by (auto simp: ac_simps split: if_splits)
qed simp

lemma hdel_loop_ok:
  assumes "hash_ok E h" "hash_map h \<noteq> Map.empty"
  shows "\<exists>h1. hdel_loop E h fs d = Some (h1, d + card (set fs \<inter> dom (hash_map h)), hash_map h |` (- set fs) = Map.empty) \<and>
    hash_ok E h1 \<and> hash_map h1 = hash_map h |` (- set fs)"
  using assms
proof (induction fs arbitrary: h d)
  case (Cons f fs)
  let ?m = "hash_map h"
  obtain h1 where h1: "hashTypeDelete E h f = Some (h1, ?m f \<noteq> None)" "hash_ok E h1" "hash_map h1 = ?m(f := None)"
    using hashTypeDelete_ok [OF Cons.prems(1)] by blast
  obtain h2 where h2: "hashTypeLength h1 = Some (h2, card (dom (?m(f := None))))" "hash_ok E h2" "hash_map h2 = ?m(f := None)"
    using hashTypeLength_ok [OF h1(2)] h1(3) by auto
  have r: "?m(f := None) |` (- set fs) = ?m |` (- set (f # fs))" by (auto simp: restrict_map_def fun_eq_iff)
  show ?case
  proof (cases "?m f")
    case None
    then have "?m(f := None) = ?m" "set (f # fs) \<inter> dom ?m = set fs \<inter> dom ?m" by auto
    then show ?thesis using Cons.IH [OF h1(2)] Cons.prems(2) h1 r None by simp
  next
    case (Some v)
    have c: "card (set (f # fs) \<inter> dom ?m) = Suc (card (set fs \<inter> dom (?m(f := None))))"
    proof -
      have "set (f # fs) \<inter> dom ?m = insert f (set fs \<inter> dom (?m(f := None)))" using Some by auto
      then show ?thesis by simp
    qed
    have fin: "finite (dom ?m - {f})" using finite_hash_map [of h] by simp
    show ?thesis
    proof (cases "?m(f := None) = Map.empty")
      case True
      then have "dom ?m - {f} = {}" by (metis dom_empty dom_fun_upd)
      then show ?thesis using True h1 h2 Some c r [symmetric] by simp
    next
      case False
      then have "dom ?m - {f} \<noteq> {}" by (metis dom_eq_empty_conv dom_fun_upd)
      then have "card (dom ?m - {f}) \<noteq> 0" using fin by simp
      moreover have "\<exists>h3. hdel_loop E h2 fs (d + 1) = Some (h3, d + 1 + card (set fs \<inter> dom (?m(f := None))),
          ?m |` (- set (f # fs)) = Map.empty) \<and> hash_ok E h3 \<and> hash_map h3 = ?m |` (- set (f # fs))"
        using Cons.IH [OF h2(2), of "d + 1"] False unfolding h2(3) r by blast
      ultimately show ?thesis using h1(1) h2(1) Some c by simp
    qed
  qed
qed (simp add: restrict_map_def)

lemma map_add_nonempty: "kvs \<noteq> [] \<Longrightarrow> m ++ map_of (rev kvs) \<noteq> Map.empty"
  by (metis dom_eq_empty_conv dom_map_add dom_map_of_conv_image_fst image_is_empty set_empty set_rev sup_eq_bot_iff)

lemma hset_ok:
  assumes e: "hash_env_ok E" and h: "holds_at E S key m" and k: "kvs \<noteq> []" "card (dom m) + length kvs \<le> 2 ^ 60"
  shows "\<exists>S'. hsetCommand E S name key (flat kvs) =
      Some (S', if name ! 1 = ch CHR ''s'' \<or> name ! 1 = ch CHR ''S'' then HInt (int (card (fst ` set kvs - dom m))) else HOk) \<and>
    hash_result E S key (m ++ map_of (rev kvs)) (int (length kvs)) [Signal key, Notify ''hset'' key] S'"
proof -
  obtain S1 h where l: "hashTypeLookupWriteOrCreate S key = Some (S1, h)" "hash_ok E h" "hash_map h = m"
    "\<forall>h'. set_hash key h' S1 = set_hash key h' S" by (rule lookup_create [OF h])
  obtain h1 where h1: "hashTypeTryConversion E h (flat kvs) = Some h1" "hash_ok E h1" "hash_map h1 = m"
    using hashTypeTryConversion_ok [OF l(2), of "flat kvs"] l(3) by auto
  obtain h2 where h2: "hset_loop E h1 (flat kvs) 0 = Some (h2, card (fst ` set kvs - dom m))" "hash_ok E h2"
    "hash_map h2 = m ++ map_of (rev kvs)"
    using hset_loop_ok [OF e h1(2), of kvs 0] k(2) h1(3) by auto
  show ?thesis
    using hash_result_set [OF h2(2,3) map_add_nonempty [OF k(1)], of S key "int (length kvs)" "[Signal key, Notify ''hset'' key]"]
      h1(1) h2(1) l(1,4) by (simp add: hsetCommand_def)
qed

lemma hsetnx_ok:
  assumes e: "hash_env_ok E" and h: "holds_at E S key m" and k: "card (dom m) < 2 ^ 60"
  shows "\<exists>S'. hsetnxCommand E S key f v = Some (S', HInt (if m f = None then 1 else 0)) \<and>
    (if m f = None then hash_result E S key (m(f \<mapsto> v)) 1 [Signal key, Notify ''hset'' key] S' else hash_result E S key m 0 [] S')"
proof -
  obtain S1 h where l: "hashTypeLookupWriteOrCreate S key = Some (S1, h)" "hash_ok E h" "hash_map h = m"
    "\<forall>h'. set_hash key h' S1 = set_hash key h' S" by (rule lookup_create [OF h])
  obtain h1 where h1: "hashTypeExists E h f = Some (h1, m f \<noteq> None)" "hash_ok E h1" "hash_map h1 = m"
    using hashTypeExists_ok [OF l(2), of f] l(3) by auto
  show ?thesis
  proof (cases "m f")
    case None
    obtain h2 where h2: "hashTypeTryConversion E h1 [f, v] = Some h2" "hash_ok E h2" "hash_map h2 = m"
      using hashTypeTryConversion_ok [OF h1(2), of "[f, v]"] h1(3) by auto
    obtain h3 b where h3: "hashTypeSet E h2 f v = Some (h3, b)" "hash_ok E h3" "hash_map h3 = m(f \<mapsto> v)"
      using hashTypeSet_ok [OF env_room [OF e h2(2)] h2(2), of f v] k h2(3) by auto
    show ?thesis using hash_result_set [OF h3(2,3), of S key 1 "[Signal key, Notify ''hset'' key]"] None h1(1) h2(1) h3(1) l(1,4)
      by (simp add: hsetnxCommand_def)
  next
    case (Some w)
    then have "m \<noteq> Map.empty" by auto
    then show ?thesis using hash_result_same [OF h1(2,3), of S key] Some h1(1) l(1,4) by (simp add: hsetnxCommand_def)
  qed
qed

lemma hval_ll_sds:
  assumes "\<forall>v. r = Some v \<longrightarrow> hval_ok v"
  shows "hval_ll r = (case map_option hval_sds r of None \<Rightarrow> Some 0 | Some s \<Rightarrow> string2ll s)"
  using assms by (cases r rule: hval_ll.cases) (simp_all add: sdsll2str_correct string2ll_sdec)

lemma string2ll_range: "string2ll s = Some v \<Longrightarrow> is_int64 v"
  by (simp add: string2ll_iff)

text \<open>The overflow test of \<^verbatim>\<open>HINCRBY\<close> is exact.\<close>

lemma overflow_test:
  assumes "is_int64 x" "is_int64 i"
  shows "i < 0 \<and> x < 0 \<and> i < INT64_MIN - x \<or> i > 0 \<and> x > 0 \<and> i > INT64_MAX - x \<longleftrightarrow> \<not> is_int64 (x + i)"
  using assms by (auto simp: is_int64_def int_ranges)

definition field_int :: "(sds \<rightharpoonup> sds) \<Rightarrow> sds \<Rightarrow> int option" where
  "field_int m f = (case m f of None \<Rightarrow> Some 0 | Some s \<Rightarrow> string2ll s)"

lemma field_int_range: "field_int m f = Some x \<Longrightarrow> is_int64 x"
  by (auto simp: field_int_def is_int64_def int_ranges dest: string2ll_range split: option.splits)

lemma hincrby_ok:
  assumes e: "hash_env_ok E" and h: "holds_at E S key m" and k: "card (dom m) < 2 ^ 60" and i: "string2ll arg = Some i"
  shows "\<exists>S'. hincrbyCommand E S key f arg = Some (S',
      case field_int m f of
        None \<Rightarrow> HError ''hash value is not an integer''
      | Some x \<Rightarrow> if is_int64 (x + i) then HInt (x + i) else HError ''increment or decrement would overflow'') \<and>
    (case field_int m f of
       Some x \<Rightarrow>
         if is_int64 (x + i) then hash_result E S key (m(f \<mapsto> sdec (x + i))) 1 [Signal key, Notify ''hincrby'' key] S'
         else hash_result E S key m 0 [] S'
     | None \<Rightarrow> hash_result E S key m 0 [] S')"
proof -
  obtain S1 h where l: "hashTypeLookupWriteOrCreate S key = Some (S1, h)" "hash_ok E h" "hash_map h = m"
    "\<forall>h'. set_hash key h' S1 = set_hash key h' S" by (rule lookup_create [OF h])
  obtain h1 r where h1: "hashTypeGetValue E h f = Some (h1, r)" "hash_ok E h1" "hash_map h1 = m"
    "map_option hval_sds r = m f" "\<forall>v. r = Some v \<longrightarrow> hval_ok v"
    using hashTypeGetValue_ok [OF l(2), of f] l(3) by auto
  have v: "hval_ll r = field_int m f" using hval_ll_sds [OF h1(5)] h1(4) by (simp add: field_int_def)
  have ii: "is_int64 i" by (rule string2ll_range [OF i])
  have same: "hash_result E S key m 0 [] (set_hash key h1 S)" if "m \<noteq> Map.empty" by (rule hash_result_same [OF h1(2,3) that])
  show ?thesis
  proof (cases "field_int m f")
    case None
    then have "m \<noteq> Map.empty" by (auto simp: field_int_def)
    then show ?thesis using same None h1(1) l(1,4) v i by (simp add: hincrbyCommand_def)
  next
    case (Some x)
    note ov = overflow_test [OF field_int_range [OF Some] ii]
    show ?thesis
    proof (cases "is_int64 (x + i)")
      case True
      obtain h2 b where h2: "hashTypeSet E h1 f (sdec (x + i)) = Some (h2, b)" "hash_ok E h2" "hash_map h2 = m(f \<mapsto> sdec (x + i))"
        using hashTypeSet_ok [OF env_room [OF e h1(2)] h1(2), of f "sdec (x + i)"] k h1(3) by auto
      show ?thesis using hash_result_set [OF h2(2,3), of S key 1 "[Signal key, Notify ''hincrby'' key]"] True Some h1(1) h2(1) l(1,4) v i
        by (simp add: hincrbyCommand_def ov sdsll2str_correct)
    next
      case False
      then have "m \<noteq> Map.empty" using Some ii by (auto simp: field_int_def)
      then show ?thesis using same False Some h1(1) l(1,4) v i by (simp add: hincrbyCommand_def ov)
    qed
  qed
qed

text \<open>
  \<^verbatim>\<open>HINCRBYFLOAT\<close> on a key that does not exist, with a sum that is not finite: the key has been created by then.
\<close>

definition leaves_empty :: "'f ld_arith \<Rightarrow> 'y hserver \<Rightarrow> sds \<Rightarrow> sds \<Rightarrow> bool" where
  "leaves_empty A S key arg \<longleftrightarrow>
     hash_lookup S key = NoKey \<and>
     (case string2ld A arg of
        None \<Rightarrow> False
      | Some i \<Rightarrow> ld_isnan A (ld_add A (ld_zero A) i) \<or> ld_isinf A (ld_add A (ld_zero A) i))"

lemma hincrbyfloat_ok:
  assumes e: "hash_env_ok E" and h: "holds_at E S key m" and k: "card (dom m) < 2 ^ 60"
  shows "if leaves_empty A S key arg
    then hincrbyfloatCommand E A S key f arg = Some (set_hash key createHashObject S, HError ''increment would produce NaN or Infinity'')
    else \<exists>S' r m' n evs. hincrbyfloatCommand E A S key f arg = Some (S', r) \<and> hash_result E S key m' n evs S'"
proof (cases "string2ld A arg")
  case None
  then show ?thesis using hash_result_refl [OF h] by (auto simp: hincrbyfloatCommand_def leaves_empty_def)
next
  case (Some i)
  obtain S1 h0 where l: "hashTypeLookupWriteOrCreate S key = Some (S1, h0)" "hash_ok E h0" "hash_map h0 = m"
    "\<forall>h'. set_hash key h' S1 = set_hash key h' S" by (rule lookup_create [OF h])
  obtain h1 r where h1: "hashTypeGetValue E h0 f = Some (h1, r)" "hash_ok E h1" "hash_map h1 = m" "map_option hval_sds r = m f"
    using hashTypeGetValue_ok [OF l(2), of f] l(3) by auto
  let ?bad = "\<lambda>y. ld_isnan A y \<or> ld_isinf A y"
  have new: "h1 = createHashObject \<and> r = None \<and> m = Map.empty" if "hash_lookup S key = NoKey"
  proof -
    have "h0 = createHashObject" "m = Map.empty" using that l(1,3) by (auto simp: hashTypeLookupWriteOrCreate_def createHashObject_ok)
    then show ?thesis using h1(1,4) by (auto simp: hashTypeGetValue_def createHashObject_def)
  qed
  have same: "hash_result E S key m 0 [] (set_hash key h1 S)" if "hash_lookup S key \<noteq> NoKey"
    using h
  proof (cases rule: holds_atE)
    case (hash h)
    show ?thesis by (rule hash_result_same [OF h1(2,3) hash(1)])
  qed (use that in simp)
  show ?thesis
  proof (cases "hval_ld A r")
    case None
    then have "hash_lookup S key \<noteq> NoKey" using new by (auto simp: hval_ld_def)
    then show ?thesis using same None Some h1(1) l(1,4) by (auto simp: hincrbyfloatCommand_def leaves_empty_def)
  next
    case x: (Some x)
    show ?thesis
    proof (cases "?bad (ld_add A x i)")
      case True
      then have "hincrbyfloatCommand E A S key f arg = Some (set_hash key h1 S, HError ''increment would produce NaN or Infinity'')"
        using Some x h1(1) l(1,4) by (simp add: hincrbyfloatCommand_def Let_def)
      then show ?thesis using same new True Some x by (cases "hash_lookup S key = NoKey") (auto simp: leaves_empty_def hval_ld_def)
    next
      case False
      let ?v = "ld2string_human A (ld_add A x i)"
      obtain h2 b where h2: "hashTypeSet E h1 f ?v = Some (h2, b)" "hash_ok E h2" "hash_map h2 = m(f \<mapsto> ?v)"
        using hashTypeSet_ok [OF env_room [OF e h1(2)] h1(2), of f ?v] k h1(3) by auto
      have "\<not> leaves_empty A S key arg" using new False Some x by (auto simp: leaves_empty_def hval_ld_def)
      then show ?thesis
        using hash_result_set [OF h2(2,3), of S key 1 "[Signal key, Notify ''hincrbyfloat'' key]"] False Some x h1(1) h2(1) l(1,4)
        by (auto simp: hincrbyfloatCommand_def Let_def)
    qed
  qed
qed

lemma hdel_ok:
  assumes h: "holds_at E S key m"
  shows "\<exists>S'. hdelCommand E S key fs = Some (S', HInt (int (card (set fs \<inter> dom m)))) \<and>
    hash_result E S key (m |` (- set fs)) (int (card (set fs \<inter> dom m)))
      (if set fs \<inter> dom m = {} then []
       else [Signal key, Notify ''hdel'' key] @ (if m |` (- set fs) = Map.empty then [Notify ''del'' key] else [])) S'"
  using h
proof (cases rule: holds_atE)
  case none
  then show ?thesis using h by (simp add: hdelCommand_def hash_result_def)
next
  case (hash h)
  let ?c = "card (set fs \<inter> dom m)" and ?m = "m |` (- set fs)"
  obtain h1 where h1: "hdel_loop E h fs 0 = Some (h1, ?c, ?m = Map.empty)" "hash_ok E h1" "hash_map h1 = ?m"
    using hdel_loop_ok [OF hash(3), of fs 0] hash(1,4) by auto
  have c: "?c = 0 \<longleftrightarrow> set fs \<inter> dom m = {}" by simp
  have "?m \<noteq> Map.empty" if "set fs \<inter> dom m = {}"
  proof -
    have "m x = None" if "x \<in> set fs" for x using that \<open>set fs \<inter> dom m = {}\<close> by (auto simp: domIff)
    then have "?m = m" by (auto simp: restrict_map_def fun_eq_iff)
    then show ?thesis using hash(1) by simp
  qed
  then show ?thesis using h1 hash(2) c
    by (cases "?m = Map.empty"; cases "?c = 0")
      (simp_all add: hdelCommand_def Let_def hash_result_def holds_at_def)
qed

section \<open>The reading commands\<close>

lemma hval_reply_sds: "hval_ok v \<Longrightarrow> hval_reply v = HBulk (hval_sds v)"
proof (cases v)
  case (HLl i)
  assume "hval_ok v"
  then have "length (sdec i) < 64" using length_sdec [of i] HLl by (simp add: LONG_STR_SIZE_def)
  then show ?thesis using ll2string_correct [of 64 "replicate 64 0" i] by (simp add: HLl sdsll2str_correct)
qed simp

definition bulk_opt :: "sds option \<Rightarrow> hreply" where
  "bulk_opt r = (case r of None \<Rightarrow> HNull | Some s \<Rightarrow> HBulk s)"

lemma field_reply_ok:
  assumes "hash_ok E h"
  shows "\<exists>h1. addHashFieldToReply E (Some h) f = Some (Some h1, bulk_opt (hash_map h f)) \<and> hash_ok E h1 \<and> hash_map h1 = hash_map h"
proof -
  obtain h1 r where h1: "hashTypeGetValue E h f = Some (h1, r)" "hash_ok E h1" "hash_map h1 = hash_map h"
    "map_option hval_sds r = hash_map h f" "\<forall>v. r = Some v \<longrightarrow> hval_ok v"
    using hashTypeGetValue_ok [OF assms, of f] by blast
  have "(case r of None \<Rightarrow> HNull | Some v \<Rightarrow> hval_reply v) = bulk_opt (hash_map h f)"
    using h1(5) h1(4) [symmetric] by (cases r) (simp_all add: bulk_opt_def hval_reply_sds)
  then show ?thesis using h1(1-3) by (simp add: addHashFieldToReply_def)
qed

lemma hmget_loop_ok:
  assumes "hash_ok E h"
  shows "\<exists>h1. hmget_loop E (Some h) fs = Some (Some h1, map (\<lambda>f. bulk_opt (hash_map h f)) fs) \<and> hash_ok E h1 \<and>
    hash_map h1 = hash_map h"
  using assms
proof (induction fs arbitrary: h)
  case (Cons f fs)
  obtain h1 where h1: "addHashFieldToReply E (Some h) f = Some (Some h1, bulk_opt (hash_map h f))" "hash_ok E h1"
    "hash_map h1 = hash_map h" using field_reply_ok [OF Cons.prems] by blast
  then show ?case using Cons.IH [OF h1(2)] by auto
qed simp

lemma hmget_loop_none: "hmget_loop E None fs = Some (None, map (\<lambda>f. HNull) fs)"
  by (induction fs) (simp_all add: addHashFieldToReply_def)

lemma hget_ok:
  assumes "holds_at E S key m"
  shows "\<exists>S'. hgetCommand E S key f = Some (S', bulk_opt (m f)) \<and> hash_result E S key m 0 [] S'"
  using assms
proof (cases rule: holds_atE)
  case none
  then show ?thesis using hash_result_refl [OF assms] by (simp add: hgetCommand_def bulk_opt_def)
next
  case (hash h)
  then show ?thesis using field_reply_ok [OF hash(3), of f] hash_result_same [of E _ m S key]
    by (auto simp: hgetCommand_def set_hash_opt_def)
qed

lemma hmget_ok:
  assumes "holds_at E S key m"
  shows "\<exists>S'. hmgetCommand E S key fs = Some (S', HArray (map (\<lambda>f. bulk_opt (m f)) fs)) \<and> hash_result E S key m 0 [] S'"
  using assms
proof (cases rule: holds_atE)
  case none
  then show ?thesis using hash_result_refl [OF assms] by (simp add: hmgetCommand_def bulk_opt_def hmget_loop_none set_hash_opt_def)
next
  case (hash h)
  then show ?thesis using hmget_loop_ok [OF hash(3), of fs] hash_result_same [of E _ m S key]
    by (auto simp: hmgetCommand_def set_hash_opt_def)
qed

lemma hlen_ok:
  assumes "holds_at E S key m"
  shows "\<exists>S'. hlenCommand S key = Some (S', HInt (int (card (dom m)))) \<and> hash_result E S key m 0 [] S'"
  using assms
proof (cases rule: holds_atE)
  case none
  then show ?thesis using hash_result_refl [OF assms] by (simp add: hlenCommand_def)
next
  case (hash h)
  then show ?thesis using hashTypeLength_ok [OF hash(3)] hash_result_same [of E _ m S key] by (auto simp: hlenCommand_def)
qed

lemma hstrlen_ok:
  assumes "holds_at E S key m"
  shows "\<exists>S'. hstrlenCommand E S key f = Some (S', HInt (case m f of None \<Rightarrow> 0 | Some v \<Rightarrow> int (length v))) \<and>
    hash_result E S key m 0 [] S'"
  using assms
proof (cases rule: holds_atE)
  case none
  then show ?thesis using hash_result_refl [OF assms] by (simp add: hstrlenCommand_def)
next
  case (hash h)
  obtain h1 r where h1: "hashTypeGetValue E h f = Some (h1, r)" "hash_ok E h1" "hash_map h1 = m" "m f = map_option hval_sds r"
    using hashTypeGetValue_ok [OF hash(3), of f] hash(4) by force
  then show ?thesis using hash(1,2) hash_result_same [of E _ m S key]
    by (cases r) (auto simp: hstrlenCommand_def hashTypeGetValueLength_def hval_len_sds)
qed

lemma hexists_ok:
  assumes "holds_at E S key m"
  shows "\<exists>S'. hexistsCommand E S key f = Some (S', HInt (if m f = None then 0 else 1)) \<and> hash_result E S key m 0 [] S'"
  using assms
proof (cases rule: holds_atE)
  case none
  then show ?thesis using hash_result_refl [OF assms] by (simp add: hexistsCommand_def)
next
  case (hash h)
  obtain h1 where h1: "hashTypeExists E h f = Some (h1, m f \<noteq> None)" "hash_ok E h1" "hash_map h1 = m"
    using hashTypeExists_ok [OF hash(3), of f] hash(4) by auto
  then show ?thesis using hash(2) hash_result_same [OF h1(2,3) hash(1), of S key] by (simp add: hexistsCommand_def)
qed

lemma length_items:
  "length (hgetall_items keys vals kvs) = (of_bool keys + of_bool vals) * length kvs"
  by (induction kvs) (auto simp: hgetall_items_def)

text \<open>Up to the largest \<^verbatim>\<open>int\<close> the count is right; beyond it the command fails.\<close>

lemma sint_of_nat32: "int n \<le> INT32_MAX \<Longrightarrow> sint (word_of_nat n :: u32) = int n"
  by (simp add: int_ranges signed_of_nat signed_take_bit_int_eq_self)

lemma hgetall_ok:
  assumes "holds_at E S key m" "keys \<or> vals"
  shows "if (of_bool keys + of_bool vals) * int (card (dom m)) \<le> INT32_MAX
    then \<exists>S' kvs. genericHgetallCommand S key keys vals =
        Some (S', if keys \<and> vals then HMapReply (int (card (dom m))) (hgetall_items keys vals kvs) else HArray (hgetall_items keys vals kvs)) \<and>
      distinct (map fst kvs) \<and> map_of kvs = m \<and> hash_result E S key m 0 [] S'
    else genericHgetallCommand S key keys vals = None"
  using assms(1)
proof (cases rule: holds_atE)
  case none
  then show ?thesis using hash_result_refl [OF assms(1)]
    by (auto simp: genericHgetallCommand_def hgetall_items_def int_ranges intro!: exI [of _ S] exI [of _ "[]"])
next
  case (hash h)
  obtain h1 where h1: "hashTypeLength h = Some (h1, card (dom m))" "hash_ok E h1" "hash_map h1 = m"
    using hashTypeLength_ok [OF hash(3)] hash(4) by auto
  obtain kvs where k: "hash_pairs h1 = Some kvs" "distinct (map fst kvs)" "map_of kvs = m"
    using hash_pairs_ok [OF h1(2)] h1(3) by auto
  have c: "card (dom m) = length kvs"
    using distinct_card [OF k(2)] k(3) by (metis dom_map_of_conv_image_fst length_map list.set_map)
  have n: "int (length (hgetall_items keys vals kvs)) = (of_bool keys + of_bool vals) * int (card (dom m))"
    by (simp add: length_items c)
  show ?thesis
  proof (cases "(of_bool keys + of_bool vals) * int (card (dom m)) \<le> INT32_MAX")
    case True
    have "int (card (dom m)) \<le> INT32_MAX" using True assms(2) by (auto simp: of_bool_def split: if_splits)
    note w = sint_of_nat32 [OF this, unfolded c]
    have "genericHgetallCommand S key keys vals = Some (set_hash key h1 S,
        if keys \<and> vals then HMapReply (int (card (dom m))) (hgetall_items keys vals kvs) else HArray (hgetall_items keys vals kvs))"
      using h1(1) k(1) hash(2) True assms(2) unfolding genericHgetallCommand_def by (auto simp: Let_def n w length_items c)
    then show ?thesis using True k(2,3) hash_result_same [OF h1(2,3) hash(1), of S key] by auto
  next
    case False
    then show ?thesis using h1(1) k(1) hash(2) by (simp add: genericHgetallCommand_def Let_def n)
  qed
qed

end
