(* ===== verification/Keyspace_Server.thy ===== *)
theory Keyspace_Server
  imports Set_Server Hash_Commands
begin

text \<open>
  Properties of the hash commands, and of a server that executes set and hash commands in any order
  on one keyspace.
\<close>

section \<open>Properties of the hash commands\<close>

definition empty_server :: "unit hserver" where
  "empty_server = \<lparr>keyspace = Map.empty, dirty = 0, events = []\<rparr>"

lemma empty_holds: "holds_at E empty_server key Map.empty"
  by (simp add: holds_at_def empty_server_def)

lemma ex_hash_env_ok: "hash_env_ok ex_hash_env"
  by (simp add: ex_hash_env_def default_hash_env_ok)







text \<open>
  Claim C37. \<^verbatim>\<open>HINCRBYFLOAT\<close> on a key that does not exist, with an increment that parses but whose sum with 0 is
  not finite, such as \<^verbatim>\<open>inf\<close>, answers with an error but leaves behind a key that holds an empty hash: the
  key is created before the sum is checked. No other modelled command leaves an empty hash.
\<close>

theorem hincrbyfloat_leaves_empty_hash:
  assumes "keyspace S key = None" "string2ld A arg = Some i" "ld_isnan A (ld_add A (ld_zero A) i) \<or> ld_isinf A (ld_add A (ld_zero A) i)"
  shows "\<exists>S'. hincrbyfloatCommand E A S key f arg = Some (S', HError ''increment would produce NaN or Infinity'') \<and>
    keyspace S' key = Some (OtherVal (HashVal createHashObject)) \<and> hash_map createHashObject = Map.empty \<and>
    dirty S' = dirty S \<and> events S' = events S"
proof -
  have r: "represents lpNew (flat [])" using createHashObject_represents by simp
  have "hashTypeGetValue E createHashObject f = Some (createHashObject, None)"
    using api_first [OF r] by (simp add: hashTypeGetValue_def createHashObject_def hashTypeGetFromListpack_def)
  then show ?thesis using assms
    by (auto simp: hincrbyfloatCommand_def hashTypeLookupWriteOrCreate_def hash_lookup_def hval_ld_def Let_def createHashObject_ok)
qed

text \<open>A number line with two points, the second one infinite, as an instance of the arithmetic.\<close>

definition ex_ld :: "bool ld_arith" where
  "ex_ld = \<lparr>ld_strtold = (\<lambda>s. (s \<noteq> [48, 0], length s - 1, No_Error)), ld_zero = False, ld_huge = (\<lambda>x. x), ld_isnan = (\<lambda>_. False),
     ld_isinf = (\<lambda>x. x), ld_of_ll = (\<lambda>v. v \<noteq> 0), ld_add = (\<lambda>x y. x \<or> y), ld_fixed17 = (\<lambda>x. [48])\<rparr>"

theorem hincrbyfloat_leaves_empty_hash_witness:
  "\<exists>S'. hincrbyfloatCommand ex_hash_env ex_ld empty_server [1] [2] [105, 110, 102] =
       Some (S', HError ''increment would produce NaN or Infinity'') \<and>
     keyspace S' [1] = Some (OtherVal (HashVal createHashObject))"
proof -
  have "string2ld ex_ld [105, 110, 102] = Some True"
    by (simp add: string2ld_def ex_ld_def MAX_LONG_DOUBLE_CHARS_def c_isspace_def word_le_def)
  then show ?thesis using hincrbyfloat_leaves_empty_hash [of empty_server "[1]" ex_ld "[105, 110, 102]" True ex_hash_env "[2]"]
    by (auto simp: empty_server_def ex_ld_def)
qed

section \<open>Set and hash commands on one keyspace\<close>

datatype hash_cmd =
    HSET sds sds "sds list" | HSETNX sds sds sds | HINCRBY sds sds sds | HDEL sds "sds list"
  | HGET sds sds | HMGET sds "sds list" | HLEN sds | HSTRLEN sds sds | HEXISTS sds sds
  | HGETALL sds bool bool | HINCRBYFLOAT sds sds sds

fun hash_command :: "hash_env \<Rightarrow> 'f ld_arith \<Rightarrow> 'y hserver \<Rightarrow> hash_cmd \<Rightarrow> ('y hserver \<times> hreply) option" where
  "hash_command E A S (HSET name k args) = hsetCommand E S name k args"
| "hash_command E A S (HSETNX k f v) = hsetnxCommand E S k f v"
| "hash_command E A S (HINCRBY k f a) = hincrbyCommand E S k f a"
| "hash_command E A S (HDEL k fs) = hdelCommand E S k fs"
| "hash_command E A S (HGET k f) = hgetCommand E S k f"
| "hash_command E A S (HMGET k fs) = hmgetCommand E S k fs"
| "hash_command E A S (HLEN k) = hlenCommand S k"
| "hash_command E A S (HSTRLEN k f) = hstrlenCommand E S k f"
| "hash_command E A S (HEXISTS k f) = hexistsCommand E S k f"
| "hash_command E A S (HGETALL k keys vals) = genericHgetallCommand S k keys vals"
| "hash_command E A S (HINCRBYFLOAT k f a) = hincrbyfloatCommand E A S k f a"

fun hash_key :: "hash_cmd \<Rightarrow> sds" where
  "hash_key (HSET name k args) = k"
| "hash_key (HSETNX k f v) = k"
| "hash_key (HINCRBY k f a) = k"
| "hash_key (HDEL k fs) = k"
| "hash_key (HGET k f) = k"
| "hash_key (HMGET k fs) = k"
| "hash_key (HLEN k) = k"
| "hash_key (HSTRLEN k f) = k"
| "hash_key (HEXISTS k f) = k"
| "hash_key (HGETALL k keys vals) = k"
| "hash_key (HINCRBYFLOAT k f a) = k"

definition hash_at :: "'y hserver \<Rightarrow> sds \<Rightarrow> sds \<rightharpoonup> sds" where
  "hash_at S k = (case hash_lookup S k of HashAt h \<Rightarrow> hash_map h | _ \<Rightarrow> Map.empty)"

text \<open>
  The arity of the commands, and a bound on the number of fields; for the commands that list a hash the
  number of strings has to fit an \<^verbatim>\<open>int\<close>.
\<close>

fun hcmd_ok :: "'y hserver \<Rightarrow> hash_cmd \<Rightarrow> bool" where
  "hcmd_ok S (HSET name k args) \<longleftrightarrow> args \<noteq> [] \<and> card (dom (hash_at S k)) + length args \<le> 2 ^ 60"
| "hcmd_ok S (HGETALL k keys vals) \<longleftrightarrow>
     (keys \<or> vals) \<and> (of_bool keys + of_bool vals) * int (card (dom (hash_at S k))) \<le> INT32_MAX"
| "hcmd_ok S c \<longleftrightarrow> card (dom (hash_at S (hash_key c))) < 2 ^ 60"

text \<open>The step that leaves an empty hash behind.\<close>

fun spoils :: "'f ld_arith \<Rightarrow> 'y hserver \<Rightarrow> hash_cmd \<Rightarrow> bool" where
  "spoils A S (HINCRBYFLOAT k f a) \<longleftrightarrow> leaves_empty A S k a"
| "spoils A S c \<longleftrightarrow> False"

text \<open>Every hash is well-formed and not empty.\<close>

definition hash_db_inv :: "hash_env \<Rightarrow> 'y hserver \<Rightarrow> bool" where
  "hash_db_inv E S \<longleftrightarrow> (\<forall>k h. keyspace S k = Some (OtherVal (HashVal h)) \<longrightarrow> hash_ok E h \<and> hash_map h \<noteq> Map.empty)"

lemma key_type:
  assumes "hash_db_inv E S"
  obtains "hash_lookup S k = BadType" | "holds_at E S k (hash_at S k)"
proof (cases "hash_lookup S k")
  case (HashAt h)
  then have "keyspace S k = Some (OtherVal (HashVal h))"
    by (auto simp: hash_lookup_def split: option.splits robj.splits other.splits)
  then show ?thesis using assms that(2) HashAt by (simp add: hash_db_inv_def holds_at_def hash_at_def)
next
  case NoKey
  then have "keyspace S k = None" by (auto simp: hash_lookup_def split: option.splits robj.splits other.splits)
  then show ?thesis using that(2) NoKey by (simp add: holds_at_def hash_at_def)
qed (use that(1) in simp)

lemma holds_at_iff: "holds_at E S k m \<Longrightarrow> keyspace S k \<noteq> Some (SetVal s)"
  by (auto simp: holds_at_def split: if_splits)

lemma hash_result_inv:
  assumes inv: "hash_db_inv E S" and h: "holds_at E S key m" and r: "hash_result E S key m' n evs S'"
  shows "hash_db_inv E S'" "keyspace S' k = Some (SetVal s) \<longleftrightarrow> keyspace S k = Some (SetVal s)"
proof -
  have r: "holds_at E S' key m'" "\<And>k. k \<noteq> key \<Longrightarrow> keyspace S' k = keyspace S k" using r by (simp_all add: hash_result_def)
  show "keyspace S' k = Some (SetVal s) \<longleftrightarrow> keyspace S k = Some (SetVal s)"
    using holds_at_iff [OF h] holds_at_iff [OF r(1)] r(2) by (cases "k = key") auto
  show "hash_db_inv E S'" unfolding hash_db_inv_def
  proof (intro allI impI)
    fix k h
    assume k: "keyspace S' k = Some (OtherVal (HashVal h))"
    show "hash_ok E h \<and> hash_map h \<noteq> Map.empty"
      using k r inv by (cases "k = key") (auto simp: holds_at_def hash_db_inv_def split: if_splits)
  qed
qed

lemma even_flat: "even (length args) \<Longrightarrow> \<exists>kvs. args = flat kvs"
proof (induction args rule: induct_list012)
  case 1
  then show ?case by (metis flat.simps(1))
next
  case (3 x y zs)
  then show ?case by (metis (no_types, lifting) even_Suc flat.simps(2) length_Cons)
qed simp

text \<open>A command checks its arguments first, then the type of its key.\<close>

lemma bad_type:
  assumes "hash_lookup S (hash_key c) = BadType"
  shows "\<exists>r. hash_command E A S c = Some (S, r) \<and> (r = HWrongType \<or> (\<exists>e. r = HError e))"
  using assms
  by (cases c) (simp_all add: hsetCommand_def hsetnxCommand_def hincrbyCommand_def hdelCommand_def hgetCommand_def hmgetCommand_def
      hlenCommand_def hstrlenCommand_def hexistsCommand_def genericHgetallCommand_def hincrbyfloatCommand_def
      hashTypeLookupWriteOrCreate_def split: option.split)

lemma hash_command_result:
  assumes e: "hash_env_ok E" and h: "holds_at E S (hash_key c) m" and m: "m = hash_at S (hash_key c)" and ok: "hcmd_ok S c"
    and s: "\<not> spoils A S c"
  shows "\<exists>S' r m' n evs. hash_command E A S c = Some (S', r) \<and> hash_result E S (hash_key c) m' n evs S'"
proof (cases c)
  case (HSET name k args)
  show ?thesis
  proof (cases "even (length args)")
    case True
    then obtain kvs where kvs: "args = flat kvs" using even_flat by blast
    have "kvs \<noteq> []" "card (dom m) + length kvs \<le> 2 ^ 60" using ok by (auto simp: HSET kvs m)
    from hset_ok [OF e _ this, of S k name] show ?thesis using h by (auto simp: HSET kvs)
  next
    case False
    then have "hash_command E A S c = Some (S, HError ''wrong number of arguments'')"
      by (simp add: HSET hsetCommand_def odd_iff_mod_2_eq_one)
    then show ?thesis using hash_result_refl [OF h] by blast
  qed
next
  case (HSETNX k f v)
  then show ?thesis using hsetnx_ok [OF e h, of f v] ok by (auto simp: m split: if_splits)
next
  case (HINCRBY k f a)
  show ?thesis
  proof (cases "string2ll a")
    case None
    then show ?thesis using hash_result_refl [OF h] by (auto simp: HINCRBY hincrbyCommand_def)
  next
    case (Some i)
    then show ?thesis using hincrby_ok [OF e h _ Some, of f] ok by (fastforce simp: HINCRBY m split: option.splits if_splits)
  qed
next
  case (HDEL k fs)
  then show ?thesis using hdel_ok [OF h, of fs] by (simp add: m) blast
next
  case (HGET k f)
  then show ?thesis using hget_ok [OF h, of f] by (simp add: m) blast
next
  case (HMGET k fs)
  then show ?thesis using hmget_ok [OF h, of fs] by (simp add: m) blast
next
  case (HLEN k)
  then show ?thesis using hlen_ok [OF h] by (simp add: m) blast
next
  case (HSTRLEN k f)
  then show ?thesis using hstrlen_ok [OF h, of f] by (simp add: m) blast
next
  case (HEXISTS k f)
  then show ?thesis using hexists_ok [OF h, of f] by (simp add: m) blast
next
  case (HGETALL k keys vals)
  then show ?thesis using hgetall_ok [OF h, of keys vals] ok by (simp add: m) blast
next
  case (HINCRBYFLOAT k f a)
  then show ?thesis using hincrbyfloat_ok [OF e h, of A a f] ok s by (simp add: m)
qed

lemma spoils_result:
  assumes "hash_env_ok E" "hash_db_inv E S" "spoils A S c"
  shows "\<exists>r. hash_command E A S c = Some (set_hash (hash_key c) createHashObject S, r)" "keyspace S (hash_key c) = None"
proof -
  obtain k f a where c: "c = HINCRBYFLOAT k f a" and l: "leaves_empty A S k a" using assms(3) by (cases c) auto
  have "hash_lookup S k = NoKey" using l by (simp add: leaves_empty_def)
  then show n: "keyspace S (hash_key c) = None" by (auto simp: c hash_lookup_def split: option.splits robj.splits other.splits)
  then have "holds_at E S k Map.empty" by (simp add: c holds_at_def)
  from hincrbyfloat_ok [OF assms(1) this, of A a f] l
  show "\<exists>r. hash_command E A S c = Some (set_hash (hash_key c) createHashObject S, r)" by (simp add: c)
qed

subsection \<open>Set commands create no hashes\<close>

definition keeps_other :: "'x server \<Rightarrow> 'x server \<Rightarrow> bool" where
  "keeps_other S S1 \<longleftrightarrow> (\<forall>k x. keyspace S1 k = Some (OtherVal x) \<longrightarrow> keyspace S k = Some (OtherVal x))"

lemma keeps_other_refl [simp]: "keeps_other S S"
  by (simp add: keeps_other_def)

lemma keeps_other_trans: "keeps_other S S1 \<Longrightarrow> keeps_other S1 S2 \<Longrightarrow> keeps_other S S2"
  by (simp add: keeps_other_def)

lemma keeps_other_simps [simp]:
  "keeps_other S (add_dirty n S1) = keeps_other S S1" "keeps_other S (log_events evs S1) = keeps_other S S1"
  by (simp_all add: keeps_other_def)

lemma keeps_other_set_key [simp]: "keeps_other S S1 \<Longrightarrow> keeps_other S (set_key k s S1)"
  by (auto simp: keeps_other_def set_key_def)

lemma keeps_other_del_key [simp]: "keeps_other S S1 \<Longrightarrow> keeps_other S (del_key k S1)"
  by (auto simp: keeps_other_def)

lemma keeps_other_sinter_test: "keeps_other S (fst (sinter_test E S k0 e ks))"
proof (induction ks arbitrary: S)
  case (Cons k ks)
  have "keeps_other S (fst (sinter_test E (set_key k s S) k0 e ks))" for s
    by (rule keeps_other_trans [OF _ Cons.IH]) (rule keeps_other_set_key [OF keeps_other_refl])
  then show ?case using Cons.IH [of S] keeps_other_set_key [OF keeps_other_refl, of S k]
    by (auto split: setele.splits setobj.splits prod.splits bool.splits)
qed simp

lemma keeps_other_sinter_loop:
  "sinter_loop E mode k0 ks es (S, dst, out, crd) = Some (S1, r) \<Longrightarrow> keeps_other S S1"
proof (induction es arbitrary: S dst out crd)
  case (Cons e es)
  obtain S2 b where t: "sinter_test E S k0 e ks = (S2, b)" by fastforce
  then have "keeps_other S S2" using keeps_other_sinter_test [of S E k0 e ks] by simp
  moreover have "keeps_other S2 S1"
    using Cons.prems Cons.IH by (auto simp: t split: bool.splits sinter_mode.splits if_splits option.splits)
  ultimately show ?case by (rule keeps_other_trans)
qed simp

lemma keeps_other_store_result: "store_result S dk dst name = (S1, r) \<Longrightarrow> keeps_other S S1"
  by (auto simp: store_result_def split: if_splits)

lemma keeps_other_sinter:
  assumes "sinterGenericCommand E S keys mode = Some (S1, r)"
  shows "keeps_other S S1"
proof (cases "lookup_sets S keys")
  case None
  then show ?thesis using assms by (simp add: sinterGenericCommand_def)
next
  case (Some sets)
  let ?ks = "sort_key (key_size S) (map the sets)"
  show ?thesis
  proof (cases "None \<in> set sets")
    case True
    then show ?thesis using assms Some by (auto simp: sinterGenericCommand_def split: sinter_mode.splits if_splits)
  next
    case False
    with assms Some obtain es S2 dst out crd where
      l: "sinter_loop E mode (hd ?ks) (tl ?ks) es (S, createIntsetObject, [], 0) = Some (S2, dst, out, crd)"
      and f: "(case mode of Card limit \<Rightarrow> Some (S2, IntReply (int crd)) | Store dk \<Rightarrow> Some (store_result S2 dk dst ''sinterstore'')
        | Members \<Rightarrow> Some (S2, SetReply crd out)) = Some (S1, r)"
      by (auto simp: sinterGenericCommand_def Let_def split: option.splits)
    have "keeps_other S2 S1" using f by (auto split: sinter_mode.splits dest: keeps_other_store_result)
    then show ?thesis using keeps_other_trans [OF keeps_other_sinter_loop [OF l]] by blast
  qed
qed

lemma keeps_other_sdiff_test: "keeps_other S (fst (sdiff_test E S k0 x sets))"
proof (induction sets arbitrary: S)
  case (Cons s sets)
  have "keeps_other S (fst (sdiff_test E (set_key k t S) k0 x sets))" for k t
    by (rule keeps_other_trans [OF _ Cons.IH]) (rule keeps_other_set_key [OF keeps_other_refl])
  then show ?case using Cons.IH [of S] keeps_other_set_key [OF keeps_other_refl, of S]
    by (cases s) (auto split: prod.splits bool.splits)
qed simp

lemma keeps_other_sdiff1_loop:
  "sdiff1_loop E k0 sets es (S, dst, crd) = Some (S1, r) \<Longrightarrow> keeps_other S S1"
proof (induction es arbitrary: S dst crd)
  case (Cons e es)
  obtain S2 b where t: "sdiff_test E S k0 (ele_sds e) sets = (S2, b)" by fastforce
  then have "keeps_other S S2" using keeps_other_sdiff_test [of S E k0 "ele_sds e" sets] by simp
  moreover have "keeps_other S2 S1" using Cons.prems Cons.IH by (auto simp: t split: bool.splits option.splits)
  ultimately show ?case by (rule keeps_other_trans)
qed simp

lemma keeps_other_sdiff: "sdiff_compute E S sets = Some (S1, r) \<Longrightarrow> keeps_other S S1"
  by (auto simp: sdiff_compute_def dest: keeps_other_sdiff1_loop split: list.splits option.splits if_splits)

lemma keeps_other_sunionDiff:
  assumes "sunionDiffGenericCommand E S keys dstkey op = Some (S1, r)"
  shows "keeps_other S S1"
proof (cases "lookup_sets S keys")
  case None
  then show ?thesis using assms by (simp add: sunionDiffGenericCommand_def)
next
  case (Some sets)
  with assms obtain S2 dst crd where
    c: "(case op of SET_OP_UNION \<Rightarrow> map_option (Pair S) (sunion_loop E S sets (createIntsetObject, 0))
         | SET_OP_DIFF \<Rightarrow> sdiff_compute E S sets) = Some (S2, dst, crd)"
    and f: "(case dstkey of None \<Rightarrow> map_option (\<lambda>es. (S2, SetReply crd (map ele_sds es))) (set_elements dst)
        | Some dk \<Rightarrow> Some (store_result S2 dk dst (if op = SET_OP_UNION then ''sunionstore'' else ''sdiffstore''))) = Some (S1, r)"
    by (auto simp: sunionDiffGenericCommand_def split: option.splits)
  have "keeps_other S S2" using c by (auto split: setop.splits dest: keeps_other_sdiff)
  moreover have "keeps_other S2 S1" using f by (auto split: option.splits dest: keeps_other_store_result)
  ultimately show ?thesis by (rule keeps_other_trans)
qed

lemma keeps_other_set_command:
  assumes "set_command E S c = Some (S1, r)"
  shows "keeps_other S S1"
proof (cases c)
  case (SADD k vs)
  then show ?thesis using assms
    by (auto simp: saddCommand_def sadd_into_def Let_def split: option.splits robj.splits if_splits)
next
  case (SREM k vs)
  then show ?thesis using assms by (auto simp: sremCommand_def Let_def split: option.splits robj.splits prod.splits if_splits)
next
  case (SMOVE src dst v)
  then show ?thesis using assms
    by (auto simp: smoveCommand_def Let_def split: option.splits robj.splits prod.splits bool.splits if_splits)
next
  case (SISMEMBER k v)
  then show ?thesis using assms by (auto simp: sismemberCommand_def split: option.splits robj.splits prod.splits)
next
  case (SMISMEMBER k vs)
  then show ?thesis using assms by (auto simp: smismemberCommand_def split: option.splits robj.splits prod.splits)
next
  case (SCARD k)
  then show ?thesis using assms by (auto simp: scardCommand_def split: option.splits robj.splits)
qed (use assms in \<open>auto simp: sinterCommand_def sinterstoreCommand_def sunionCommand_def sunionstoreCommand_def sdiffCommand_def
    sdiffstoreCommand_def dest: keeps_other_sinter keeps_other_sunionDiff\<close>)

subsection \<open>The invariant of the keyspace\<close>

definition server_inv :: "set_env \<Rightarrow> hash_env \<Rightarrow> 'y hserver \<Rightarrow> bool" where
  "server_inv ES EH S \<longleftrightarrow> db_inv ES S \<and> hash_db_inv EH S"

datatype server_cmd = SetCmd set_cmd | HashCmd hash_cmd

datatype server_reply = SetRep reply | HashRep hreply

fun server_command ::
    "set_env \<Rightarrow> hash_env \<Rightarrow> 'f ld_arith \<Rightarrow> 'y hserver \<Rightarrow> server_cmd \<Rightarrow> ('y hserver \<times> server_reply) option" where
  "server_command ES EH A S (SetCmd c) = map_option (apsnd SetRep) (set_command ES S c)"
| "server_command ES EH A S (HashCmd c) = map_option (apsnd HashRep) (hash_command EH A S c)"

fun legal_cmd :: "'y hserver \<Rightarrow> server_cmd \<Rightarrow> bool" where
  "legal_cmd S (SetCmd c) = cmd_ok S c"
| "legal_cmd S (HashCmd c) = hcmd_ok S c"

fun spoils_cmd :: "'f ld_arith \<Rightarrow> 'y hserver \<Rightarrow> server_cmd \<Rightarrow> bool" where
  "spoils_cmd A S (SetCmd c) \<longleftrightarrow> False"
| "spoils_cmd A S (HashCmd c) \<longleftrightarrow> spoils A S c"

inductive runs_to :: "set_env \<Rightarrow> hash_env \<Rightarrow> 'f ld_arith \<Rightarrow> 'y hserver \<Rightarrow> 'y hserver \<Rightarrow> bool" for ES EH A S0 where
  begins: "runs_to ES EH A S0 S0"
| executes: "runs_to ES EH A S0 S \<Longrightarrow> legal_cmd S c \<Longrightarrow> \<not> spoils_cmd A S c \<Longrightarrow> server_command ES EH A S c = Some (S1, r) \<Longrightarrow>
    runs_to ES EH A S0 S1"

lemma db_inv_sets:
  assumes "db_inv ES S" "\<And>k s. keyspace S' k = Some (SetVal s) \<longleftrightarrow> keyspace S k = Some (SetVal s)"
  shows "db_inv ES S'"
proof -
  have "key_set S' k = key_set S k" if h: "has_set S' k" for k
  proof -
    obtain s where s: "keyspace S' k = Some (SetVal s)" using h by (auto simp: has_set_def)
    then have "keyspace S k = Some (SetVal s)" using assms(2) by blast
    with s show ?thesis by (simp add: key_set_def)
  qed
  then show ?thesis using assms by (auto simp: db_inv_def db_ok_def has_set_def)
qed

lemma hash_command_keeps:
  assumes e: "hash_env_ok EH" and inv: "server_inv ES EH S" and ok: "hcmd_ok S c"
  shows "\<exists>S' r. hash_command EH A S c = Some (S', r) \<and> (\<not> spoils A S c \<longrightarrow> server_inv ES EH S')"
proof -
  have hi: "hash_db_inv EH S" and di: "db_inv ES S" using inv by (simp_all add: server_inv_def)
  show ?thesis
  proof (cases "spoils A S c")
    case True
    then show ?thesis using spoils_result(1) [OF e hi True] by auto
  next
    case False
    from hi show ?thesis
    proof (cases rule: key_type [where k = "hash_key c"])
      case 1
      then show ?thesis using bad_type [OF 1, of EH A] inv by blast
    next
      case 2
      obtain S' r m' n evs where r: "hash_command EH A S c = Some (S', r)" "hash_result EH S (hash_key c) m' n evs S'"
        using hash_command_result [OF e 2 refl ok False] by blast
      note k = hash_result_inv [OF hi 2 r(2)]
      show ?thesis using r(1) k(1) db_inv_sets [OF di k(2)] by (auto simp: server_inv_def)
    qed
  qed
qed

lemma server_command_keeps:
  assumes "hash_env_ok EH" "server_inv ES EH S" "legal_cmd S c"
  shows "\<exists>S' r. server_command ES EH A S c = Some (S', r) \<and> (\<not> spoils_cmd A S c \<longrightarrow> server_inv ES EH S')"
proof (cases c)
  case (SetCmd d)
  obtain S' r where d: "set_command ES S d = Some (S', r)" "db_inv ES S'"
    using set_command_keeps [of ES S d] assms by (auto simp: SetCmd server_inv_def keeps_def)
  have "hash_db_inv EH S'"
    using keeps_other_set_command [OF d(1)] assms(2) by (auto simp: keeps_other_def hash_db_inv_def server_inv_def)
  then show ?thesis using d by (simp add: SetCmd server_inv_def)
next
  case (HashCmd d)
  then show ?thesis using hash_command_keeps [OF assms(1,2), of d A] assms(3) by auto
qed

text \<open>
  Claim C1. Set and hash commands, in any order and on any keys, some of which hold objects of other types,
  with limits of the small encoding of hashes that keep a listpack below 4 GB: in every state the
  server reaches, every set and every hash is well-formed, no key holds an empty set or hash, and
  every command of legal size returns, so that no assertion fails, no panic is reached and no loop
  fails to end. The one step that a run must not contain is an \<^verbatim>\<open>HINCRBYFLOAT\<close> on a key that does not exist
  whose sum is not finite: it returns as well, but it leaves an empty hash.
\<close>

theorem keyspace_invariant:
  assumes "hash_env_ok EH" "server_inv ES EH S0" "runs_to ES EH A S0 S"
  shows "server_inv ES EH S \<and> (\<forall>c. legal_cmd S c \<longrightarrow> server_command ES EH A S c \<noteq> None)"
proof -
  have "server_inv ES EH S"
    using assms(3)
  proof (induction rule: runs_to.induct)
    case (executes S c S1 r)
    then show ?case using server_command_keeps [OF assms(1), of ES S c A] by auto
  qed (rule assms(2))
  then show ?thesis using server_command_keeps [OF assms(1), of ES S _ A] by fastforce
qed

theorem keyspace_invariant_witness:
  "\<exists>S. runs_to ex_env ex_hash_env ex_ld empty_server S \<and> server_inv ex_env ex_hash_env S \<and> S \<noteq> empty_server"
proof -
  let ?c = "HashCmd (HSETNX [1] [2] [3])"
  have inv: "server_inv ex_env ex_hash_env empty_server"
    by (simp add: server_inv_def db_inv_def db_ok_def hash_db_inv_def has_set_def empty_server_def)
  have l: "legal_cmd empty_server ?c" "\<not> spoils_cmd ex_ld empty_server ?c"
    by (simp_all add: hash_at_def hash_lookup_def empty_server_def)
  obtain S r where s: "server_command ex_env ex_hash_env ex_ld empty_server ?c = Some (S, r)"
    using keyspace_invariant [OF ex_hash_env_ok inv runs_to.begins, of ex_ld] l by (metis not_None_eq surj_pair)
  then have "runs_to ex_env ex_hash_env ex_ld empty_server S" by (rule runs_to.executes [OF runs_to.begins l])
  moreover have "dirty S = 1"
    using s hsetnx_ok [OF ex_hash_env_ok empty_holds, of "[1]" "[2]" "[3]"] by (auto simp: hash_result_def empty_server_def)
  ultimately show ?thesis using keyspace_invariant [OF ex_hash_env_ok inv] by (intro exI [of _ S]) (auto simp: empty_server_def)
qed

end
