(* ===== verification/Key_Types.thy ===== *)
theory Key_Types
  imports Keyspace_Server
begin

text \<open>
  The type discipline of the keyspace, across the set commands of \<open>t_set.c\<close> and the hash commands of
  \<open>t_hash.c\<close>: a command that meets a key of another type replies with an error and changes nothing,
  and no command changes the type of a key other than a destination it overwrites.
\<close>

text \<open>Objects of other types survive a set command, except at a destination key.\<close>

definition not_other :: "'x server \<Rightarrow> sds \<Rightarrow> bool" where
  "not_other S k \<longleftrightarrow> (\<forall>x. keyspace S k \<noteq> Some (OtherVal x))"

definition other_kept :: "sds set \<Rightarrow> 'x server \<Rightarrow> 'x server \<Rightarrow> bool" where
  "other_kept A S S1 \<longleftrightarrow> (\<forall>k x. k \<notin> A \<longrightarrow> keyspace S k = Some (OtherVal x) \<longrightarrow> keyspace S1 k = Some (OtherVal x))"

lemma other_kept_refl [simp]: "other_kept A S S"
  by (simp add: other_kept_def)

lemma other_kept_trans: "other_kept A S S1 \<Longrightarrow> other_kept A S1 S2 \<Longrightarrow> other_kept A S S2"
  by (simp add: other_kept_def)

lemma other_kept_mono: "other_kept {} S S1 \<Longrightarrow> other_kept A S S1"
  by (simp add: other_kept_def)

lemma other_kept_simps [simp]:
  "other_kept A S (add_dirty n S1) = other_kept A S S1" "other_kept A S (log_events evs S1) = other_kept A S S1"
  by (simp_all add: other_kept_def)

lemma other_kept_set_key [simp]: "k \<in> A \<or> not_other S k \<Longrightarrow> other_kept A S S1 \<Longrightarrow> other_kept A S (set_key k s S1)"
  by (auto simp: other_kept_def not_other_def set_key_def)

lemma other_kept_del_key [simp]: "k \<in> A \<or> not_other S k \<Longrightarrow> other_kept A S S1 \<Longrightarrow> other_kept A S (del_key k S1)"
  by (auto simp: other_kept_def not_other_def)

lemma not_other_set_key [simp]: "not_other (set_key j s S) k \<longleftrightarrow> k = j \<or> not_other S k"
  by (auto simp: not_other_def set_key_def)

lemma sinter_test_types:
  "\<forall>k \<in> set ks. not_other S k \<Longrightarrow>
   other_kept {} S (fst (sinter_test E S k0 e ks)) \<and> (\<forall>k. not_other S k \<longrightarrow> not_other (fst (sinter_test E S k0 e ks)) k)"
proof (induction ks arbitrary: S)
  case (Cons k ks)
  have "other_kept {} S (fst (sinter_test E (set_key k s S) k0 e ks)) \<and>
      (\<forall>j. not_other S j \<longrightarrow> not_other (fst (sinter_test E (set_key k s S) k0 e ks)) j)" for s
    using Cons.IH [of "set_key k s S"] Cons.prems other_kept_trans [of "{}" S "set_key k s S"] by auto
  then show ?case using Cons.IH [of S] Cons.prems
    by (auto split: setele.splits setobj.splits prod.splits bool.splits)
qed simp

lemma sinter_loop_types:
  "\<forall>k \<in> set ks. not_other S k \<Longrightarrow> sinter_loop E mode k0 ks es (S, dst, out, crd) = Some (S1, r) \<Longrightarrow> other_kept {} S S1"
proof (induction es arbitrary: S dst out crd)
  case (Cons e es)
  obtain S2 b where t: "sinter_test E S k0 e ks = (S2, b)" by fastforce
  then have k: "other_kept {} S S2" "\<forall>k \<in> set ks. not_other S2 k" using sinter_test_types [of ks S E k0 e] Cons.prems(1) by auto
  have "other_kept {} S2 S1"
    using Cons.prems(2) Cons.IH [OF k(2)] by (auto simp: t split: bool.splits sinter_mode.splits if_splits option.splits)
  with k(1) show ?case by (rule other_kept_trans)
qed simp

lemma store_result_types: "store_result S dk dst name = (S1, r) \<Longrightarrow> dk \<in> A \<Longrightarrow> other_kept A S S1"
  by (auto simp: store_result_def split: if_splits)

lemma lookup_sets_types: "lookup_sets S keys = Some sets \<Longrightarrow> Some k \<in> set sets \<Longrightarrow> not_other S k"
  by (induction keys arbitrary: sets) (auto simp: not_other_def split: option.splits robj.splits)

fun sinter_dst :: "sinter_mode \<Rightarrow> sds set" where
  "sinter_dst (Store dk) = {dk}"
| "sinter_dst mode = {}"

lemma sinter_types:
  assumes "sinterGenericCommand E S keys mode = Some (S1, r)"
  shows "other_kept (sinter_dst mode) S S1"
proof (cases "lookup_sets S keys")
  case None
  then show ?thesis using assms by (simp add: sinterGenericCommand_def)
next
  case (Some sets)
  let ?ks = "sort_key (key_size S) (map the sets)"
  show ?thesis
  proof (cases "None \<in> set sets")
    case True
    then show ?thesis using assms Some by (auto simp: sinterGenericCommand_def split: sinter_mode.splits if_splits)
  next
    case False
    with assms Some obtain es S2 dst out crd where
      l: "sinter_loop E mode (hd ?ks) (tl ?ks) es (S, createIntsetObject, [], 0) = Some (S2, dst, out, crd)"
      and f: "(case mode of Card limit \<Rightarrow> Some (S2, IntReply (int crd)) | Store dk \<Rightarrow> Some (store_result S2 dk dst ''sinterstore'')
        | Members \<Rightarrow> Some (S2, SetReply crd out)) = Some (S1, r)"
      by (auto simp: sinterGenericCommand_def Let_def split: option.splits)
    have "not_other S k" if "k \<in> set ?ks" for k
      using that False lookup_sets_types [OF Some, of k] by (auto simp: image_iff) (metis option.collapse)
    then have "\<forall>k \<in> set (tl ?ks). not_other S k" by (metis list.sel(2) list.set_sel(2))
    from sinter_loop_types [OF this l] have "other_kept (sinter_dst mode) S S2" by (rule other_kept_mono)
    moreover have "other_kept (sinter_dst mode) S2 S1" using f by (auto split: sinter_mode.splits dest: store_result_types)
    ultimately show ?thesis by (rule other_kept_trans)
  qed
qed

lemma sdiff_test_types:
  "\<forall>k. Some k \<in> set sets \<longrightarrow> not_other S k \<Longrightarrow>
   other_kept {} S (fst (sdiff_test E S k0 x sets)) \<and> (\<forall>k. not_other S k \<longrightarrow> not_other (fst (sdiff_test E S k0 x sets)) k)"
proof (induction sets arbitrary: S)
  case (Cons s sets)
  have "other_kept {} S (fst (sdiff_test E (set_key k t S) k0 x sets)) \<and>
      (\<forall>j. not_other S j \<longrightarrow> not_other (fst (sdiff_test E (set_key k t S) k0 x sets)) j)" if "not_other S k" for k t
    using Cons.IH [of "set_key k t S"] Cons.prems that other_kept_trans [of "{}" S "set_key k t S"] by auto
  then show ?case using Cons.IH [of S] Cons.prems
    by (cases s) (auto split: prod.splits bool.splits)
qed simp

lemma sdiff1_loop_types:
  "\<forall>k. Some k \<in> set sets \<longrightarrow> not_other S k \<Longrightarrow> sdiff1_loop E k0 sets es (S, dst, crd) = Some (S1, r) \<Longrightarrow> other_kept {} S S1"
proof (induction es arbitrary: S dst crd)
  case (Cons e es)
  obtain S2 b where t: "sdiff_test E S k0 (ele_sds e) sets = (S2, b)" by fastforce
  then have k: "other_kept {} S S2" "\<forall>k. Some k \<in> set sets \<longrightarrow> not_other S2 k"
    using sdiff_test_types [of sets S E k0 "ele_sds e"] Cons.prems(1) by auto
  have "other_kept {} S2 S1"
    using Cons.prems(2) Cons.IH [OF k(2)] by (auto simp: t split: bool.splits option.splits)
  with k(1) show ?case by (rule other_kept_trans)
qed simp

lemma sdiff_types:
  assumes "\<forall>k. Some k \<in> set sets \<longrightarrow> not_other S k" "sdiff_compute E S sets = Some (S1, r)"
  shows "other_kept {} S S1"
  using assms
  by (auto simp: sdiff_compute_def intro: sdiff1_loop_types [rotated] split: list.splits option.splits if_splits)

lemma sunionDiff_types:
  assumes "sunionDiffGenericCommand E S keys dstkey op = Some (S1, r)"
  shows "other_kept (set_option dstkey) S S1"
proof (cases "lookup_sets S keys")
  case None
  then show ?thesis using assms by (simp add: sunionDiffGenericCommand_def)
next
  case (Some sets)
  with assms obtain S2 dst crd where
    c: "(case op of SET_OP_UNION \<Rightarrow> map_option (Pair S) (sunion_loop E S sets (createIntsetObject, 0))
         | SET_OP_DIFF \<Rightarrow> sdiff_compute E S sets) = Some (S2, dst, crd)"
    and f: "(case dstkey of None \<Rightarrow> map_option (\<lambda>es. (S2, SetReply crd (map ele_sds es))) (set_elements dst)
        | Some dk \<Rightarrow> Some (store_result S2 dk dst (if op = SET_OP_UNION then ''sunionstore'' else ''sdiffstore''))) = Some (S1, r)"
    by (auto simp: sunionDiffGenericCommand_def split: option.splits)
  have "other_kept {} S S2"
    using c sdiff_types [of sets S E S2] lookup_sets_types [OF Some] by (cases op) auto
  then have "other_kept (set_option dstkey) S S2" by (rule other_kept_mono)
  moreover have "other_kept (set_option dstkey) S2 S1" using f by (auto split: option.splits dest: store_result_types)
  ultimately show ?thesis by (rule other_kept_trans)
qed

text \<open>The keys a command overwrites, whatever their type.\<close>

fun set_cmd_dst :: "set_cmd \<Rightarrow> sds set" where
  "set_cmd_dst (SINTERSTORE dk ks) = {dk}"
| "set_cmd_dst (SUNIONSTORE dk ks) = {dk}"
| "set_cmd_dst (SDIFFSTORE dk ks) = {dk}"
| "set_cmd_dst c = {}"

lemma set_command_types:
  assumes "set_command E S c = Some (S1, r)"
  shows "other_kept (set_cmd_dst c) S S1"
proof (cases c)
  case (SADD k vs)
  then show ?thesis using assms
    by (auto simp: saddCommand_def sadd_into_def Let_def not_other_def split: option.splits robj.splits if_splits)
next
  case (SREM k vs)
  then show ?thesis using assms
    by (auto simp: sremCommand_def Let_def not_other_def split: option.splits robj.splits prod.splits if_splits)
next
  case (SMOVE src dst v)
  then show ?thesis using assms
    by (auto simp: smoveCommand_def Let_def not_other_def split: option.splits robj.splits prod.splits bool.splits if_splits)
next
  case (SISMEMBER k v)
  then show ?thesis using assms
    by (auto simp: sismemberCommand_def not_other_def split: option.splits robj.splits prod.splits)
next
  case (SMISMEMBER k vs)
  then show ?thesis using assms
    by (auto simp: smismemberCommand_def not_other_def split: option.splits robj.splits prod.splits)
next
  case (SCARD k)
  then show ?thesis using assms by (auto simp: scardCommand_def split: option.splits robj.splits)
qed (use assms in \<open>auto simp: sinterCommand_def sinterstoreCommand_def sunionCommand_def sunionstoreCommand_def sdiffCommand_def
    sdiffstoreCommand_def dest: sinter_types sunionDiff_types\<close>)

subsection \<open>Wrong types\<close>

text \<open>The keys a set command reads as sets: \<open>SMOVE\<close> stops before its destination when there is no source.\<close>

fun set_reads :: "'x server \<Rightarrow> set_cmd \<Rightarrow> sds list" where
  "set_reads S (SADD k vs) = [k]"
| "set_reads S (SREM k vs) = [k]"
| "set_reads S (SMOVE src dst v) = (if keyspace S src = None then [] else [src, dst])"
| "set_reads S (SISMEMBER k v) = [k]"
| "set_reads S (SMISMEMBER k vs) = [k]"
| "set_reads S (SCARD k) = [k]"
| "set_reads S (SINTER ks) = ks"
| "set_reads S (SINTERCARD limit ks) = ks"
| "set_reads S (SINTERSTORE dk ks) = ks"
| "set_reads S (SUNION ks) = ks"
| "set_reads S (SUNIONSTORE dk ks) = ks"
| "set_reads S (SDIFF ks) = ks"
| "set_reads S (SDIFFSTORE dk ks) = ks"

fun is_other :: "'x robj option \<Rightarrow> bool" where
  "is_other (Some (OtherVal x)) = True"
| "is_other v = False"

lemma lookup_sets_other: "lookup_sets S keys = None \<longleftrightarrow> (\<exists>k \<in> set keys. is_other (keyspace S k))"
  by (induction keys) (auto split: option.splits robj.splits)

lemma store_result_reply [simp]: "store_result S dk dst name \<noteq> (S1, WrongType)"
  by (simp add: store_result_def Let_def)

lemma sinter_wrong:
  assumes "sinterGenericCommand E S keys mode = Some (S1, r)"
  shows "(r = WrongType \<longleftrightarrow> (\<exists>k \<in> set keys. is_other (keyspace S k))) \<and> (r = WrongType \<longrightarrow> S1 = S)"
  using assms
  by (auto simp: sinterGenericCommand_def Let_def lookup_sets_other [symmetric] split: option.splits sinter_mode.splits if_splits)

lemma sunionDiff_wrong:
  assumes "sunionDiffGenericCommand E S keys dstkey op = Some (S1, r)"
  shows "(r = WrongType \<longleftrightarrow> (\<exists>k \<in> set keys. is_other (keyspace S k))) \<and> (r = WrongType \<longrightarrow> S1 = S)"
  using assms by (auto simp: sunionDiffGenericCommand_def lookup_sets_other [symmetric] split: option.splits)

lemma set_command_wrong:
  assumes "set_command E S c = Some (S1, r)"
  shows "(r = WrongType \<longleftrightarrow> (\<exists>k \<in> set (set_reads S c). is_other (keyspace S k))) \<and> (r = WrongType \<longrightarrow> S1 = S)"
proof (cases c)
  case (SADD k vs)
  then show ?thesis using assms
    by (auto simp: saddCommand_def sadd_into_def Let_def split: option.splits robj.splits if_splits)
next
  case (SREM k vs)
  then show ?thesis using assms
    by (auto simp: sremCommand_def Let_def split: option.splits robj.splits prod.splits if_splits)
next
  case (SMOVE src dst v)
  then show ?thesis using assms
    by (auto simp: smoveCommand_def Let_def split: option.splits robj.splits prod.splits bool.splits if_splits)
next
  case (SISMEMBER k v)
  then show ?thesis using assms by (auto simp: sismemberCommand_def split: option.splits robj.splits prod.splits)
next
  case (SMISMEMBER k vs)
  then show ?thesis using assms by (auto simp: smismemberCommand_def split: option.splits robj.splits prod.splits)
next
  case (SCARD k)
  then show ?thesis using assms by (auto simp: scardCommand_def split: option.splits robj.splits)
next
  case (SINTER ks)
  then show ?thesis using assms sinter_wrong [of E S ks Members] by (simp add: sinterCommand_def)
next
  case (SINTERCARD limit ks)
  then show ?thesis using assms sinter_wrong [of E S ks "Card limit"] by simp
next
  case (SINTERSTORE dk ks)
  then show ?thesis using assms sinter_wrong [of E S ks "Store dk"] by (simp add: sinterstoreCommand_def)
next
  case (SUNION ks)
  then show ?thesis using assms sunionDiff_wrong [of E S ks] by (simp add: sunionCommand_def)
next
  case (SUNIONSTORE dk ks)
  then show ?thesis using assms sunionDiff_wrong [of E S ks] by (simp add: sunionstoreCommand_def)
next
  case (SDIFF ks)
  then show ?thesis using assms sunionDiff_wrong [of E S ks] by (simp add: sdiffCommand_def)
next
  case (SDIFFSTORE dk ks)
  then show ?thesis using assms sunionDiff_wrong [of E S ks] by (simp add: sdiffstoreCommand_def)
qed

text \<open>A hash command checks its arguments first, then the type of its key.\<close>

lemma hash_command_wrong:
  assumes "hash_lookup S (hash_key c) = BadType" "hash_command E A S c = Some (S1, r)"
  shows "S1 = S \<and> (r = HWrongType \<or> (\<exists>e. r = HError e))"
  using bad_type [OF assms(1), of E A] assms(2) by auto

subsection \<open>The type discipline\<close>

datatype object_type = OBJ_SET | OBJ_HASH | OBJ_ELSE

fun obj_type :: "'y other robj \<Rightarrow> object_type" where
  "obj_type (SetVal s) = OBJ_SET"
| "obj_type (OtherVal (HashVal h)) = OBJ_HASH"
| "obj_type (OtherVal (RestVal y)) = OBJ_ELSE"

text \<open>The type a command is for.\<close>

fun cmd_type :: "server_cmd \<Rightarrow> object_type" where
  "cmd_type (SetCmd c) = OBJ_SET"
| "cmd_type (HashCmd c) = OBJ_HASH"

fun cmd_dst :: "server_cmd \<Rightarrow> sds set" where
  "cmd_dst (SetCmd c) = set_cmd_dst c"
| "cmd_dst (HashCmd c) = {}"

fun wrong_type :: "'y hserver \<Rightarrow> server_cmd \<Rightarrow> bool" where
  "wrong_type S (SetCmd c) \<longleftrightarrow> (\<exists>k \<in> set (set_reads S c). is_other (keyspace S k))"
| "wrong_type S (HashCmd c) \<longleftrightarrow> hash_lookup S (hash_key c) = BadType"

fun error_reply :: "server_reply \<Rightarrow> bool" where
  "error_reply (SetRep r) \<longleftrightarrow> r = WrongType"
| "error_reply (HashRep r) \<longleftrightarrow> r = HWrongType \<or> (\<exists>e. r = HError e)"

lemma set_command_keeps_type:
  assumes "set_command ES S c = Some (S1, r)" "k \<notin> set_cmd_dst c" "keyspace S k = Some a"
  shows "(\<forall>b. keyspace S1 k = Some b \<longrightarrow> obj_type a = obj_type b) \<and> (obj_type a \<noteq> OBJ_SET \<longrightarrow> keyspace S1 k = Some a)"
proof -
  have t: "obj_type a \<noteq> OBJ_SET \<longrightarrow> keyspace S1 k = Some a"
    using set_command_types [OF assms(1)] assms(2,3) by (cases a) (simp_all add: other_kept_def)
  have o: "a = OtherVal x" if "keyspace S1 k = Some (OtherVal x)" for x
    using keeps_other_set_command [OF assms(1)] assms(3) that unfolding keeps_other_def by (metis option.inject)
  have "obj_type a = obj_type b" if b: "keyspace S1 k = Some b" for b
  proof (cases b)
    case (SetVal s)
    show ?thesis
    proof (cases "obj_type a = OBJ_SET")
      case False
      then show ?thesis using t b by simp
    qed (simp add: SetVal)
  next
    case (OtherVal x)
    then show ?thesis using o [of x] b by simp
  qed
  then show ?thesis using t by blast
qed

lemma hash_command_keeps_type:
  assumes "hash_env_ok EH" "server_inv ES EH S" "hcmd_ok S c" "hash_command EH A S c = Some (S1, r)" "keyspace S k = Some a"
  shows "(\<forall>b. keyspace S1 k = Some b \<longrightarrow> obj_type a = obj_type b) \<and> (obj_type a \<noteq> OBJ_HASH \<longrightarrow> keyspace S1 k = Some a)"
proof -
  have hi: "hash_db_inv EH S" using assms(2) by (simp add: server_inv_def)
  show ?thesis
  proof (cases rule: key_type [OF hi, of "hash_key c", case_names bad good])
    case bad
    then show ?thesis using hash_command_wrong [OF bad assms(4)] assms(5) by simp
  next
    case good
    show ?thesis
    proof (cases "spoils A S c")
      case True
      have "S1 = set_hash (hash_key c) createHashObject S" using spoils_result(1) [OF assms(1) hi True] assms(4) by auto
      moreover have "k \<noteq> hash_key c" using spoils_result(2) [OF assms(1) hi True] assms(5) by auto
      ultimately show ?thesis using assms(5) by simp
    next
      case False
      obtain m' n evs where h: "hash_result EH S (hash_key c) m' n evs S1"
        using hash_command_result [OF assms(1) good refl assms(3) False] assms(4) by auto
      then show ?thesis using good assms(5)
        by (cases "k = hash_key c") (auto simp: hash_result_def holds_at_def split: if_splits)
    qed
  qed
qed

text \<open>
  Claim C21. Set and hash commands respect the types of keys. A command that reads a key of a type it is
  not for replies with an error and changes nothing at all: no key, counter, notification or event.
  Unless the key is the destination that a \<open>STORE\<close> command overwrites, a key that exists before and after
  a command has the same type, and an object of another type than the command is for stays exactly as
  it was: a set command leaves hashes and other objects alone, and a hash command sets and other objects.
\<close>

theorem commands_respect_types:
  assumes "hash_env_ok EH" "server_inv ES EH S" "legal_cmd S c" "server_command ES EH A S c = Some (S1, r)"
  shows "(wrong_type S c \<longrightarrow> S1 = S \<and> error_reply r) \<and>
    (\<forall>k a. k \<notin> cmd_dst c \<longrightarrow> keyspace S k = Some a \<longrightarrow>
       (\<forall>b. keyspace S1 k = Some b \<longrightarrow> obj_type a = obj_type b) \<and> (obj_type a \<noteq> cmd_type c \<longrightarrow> keyspace S1 k = Some a))"
proof (cases c)
  case (SetCmd d)
  then obtain q where d: "set_command ES S d = Some (S1, q)" "r = SetRep q" using assms(4) by auto
  have "wrong_type S c \<longrightarrow> S1 = S \<and> error_reply r" using set_command_wrong [OF d(1)] by (simp add: SetCmd d(2))
  then show ?thesis using set_command_keeps_type [OF d(1)] unfolding SetCmd cmd_dst.simps cmd_type.simps by blast
next
  case (HashCmd d)
  then obtain q where d: "hash_command EH A S d = Some (S1, q)" "r = HashRep q" using assms(4) by auto
  have k: "hcmd_ok S d" using assms(3) HashCmd by simp
  have "wrong_type S c \<longrightarrow> S1 = S \<and> error_reply r" using hash_command_wrong [OF _ d(1)] by (simp add: HashCmd d(2))
  then show ?thesis using hash_command_keeps_type [OF assms(1,2) k d(1)] unfolding HashCmd cmd_type.simps by blast
qed

definition list_server :: "unit hserver" where
  "list_server = \<lparr>keyspace = [[1] \<mapsto> OtherVal (RestVal ())], dirty = 0, events = []\<rparr>"

text \<open>\<open>SADD\<close> and \<open>HGET\<close> on a key that holds, say, a list.\<close>

theorem commands_respect_types_witness:
  "server_command ex_env ex_hash_env ex_ld list_server (SetCmd (SADD [1] [[2]])) = Some (list_server, SetRep WrongType) \<and>
   (\<exists>r. server_command ex_env ex_hash_env ex_ld list_server (HashCmd (HGET [1] [2])) = Some (list_server, r) \<and> error_reply r)"
proof -
  have b: "hash_lookup list_server [1] = BadType" by (simp add: hash_lookup_def list_server_def)
  have inv: "server_inv ex_env ex_hash_env list_server"
    by (auto simp: server_inv_def hash_db_inv_def db_inv_def db_ok_def has_set_def list_server_def)
  let ?h = "HashCmd (HGET [1] [2])" and ?s = "SetCmd (SADD [1] [[2]])"
  have l: "legal_cmd list_server ?h" "legal_cmd list_server ?s"
    by (simp add: hash_at_def b, simp add: key_set_def list_server_def)
  have w: "wrong_type list_server ?h" "wrong_type list_server ?s" by (simp add: b, simp add: list_server_def)
  have c: "server_command ex_env ex_hash_env ex_ld list_server ?h = Some (list_server, HashRep HWrongType)"
    "server_command ex_env ex_hash_env ex_ld list_server ?s = Some (list_server, SetRep WrongType)"
    by (simp add: hgetCommand_def b, simp add: saddCommand_def list_server_def)
  note t = commands_respect_types [OF ex_hash_env_ok inv l(1) c(1), THEN conjunct1, THEN mp, OF w(1)]
    commands_respect_types [OF ex_hash_env_ok inv l(2) c(2), THEN conjunct1, THEN mp, OF w(2)]
  show ?thesis using c(2) c(1) t(1) by blast
qed

end
