(* ===== verification/Adlist.thy ===== *)
theory Adlist
  imports Refinement "HOL-Library.Monad_Syntax"
begin

text \<open>
  The generic doubly linked list of \<^verbatim>\<open>adlist.c\<close>, with its nodes in an explicit store.

  A pointer to a node is a number, a null pointer is \<open>None\<close>, and the store maps the allocated pointers
  to nodes. Reading or writing through a pointer that is null or not allocated is the result \<open>None\<close> of
  the whole operation. The pointer that \<^verbatim>\<open>zmalloc\<close> returns, which aborts rather than fail, is an argument
  of the operations that allocate. The calls of the \<^verbatim>\<open>free\<close> method are logged; the \<^verbatim>\<open>dup\<close> and \<^verbatim>\<open>match\<close> methods
  are functions on values.
\<close>

section \<open>Model\<close>

type_synonym ptr = nat

record 'v listNode =
  n_prev :: "ptr option"
  n_next :: "ptr option"
  n_value :: 'v

record 'v adlist =
  l_head :: "ptr option"
  l_tail :: "ptr option"
  l_len :: nat
  l_dup :: "('v \<Rightarrow> 'v option) option"
  l_free :: bool
  l_match :: "('v \<Rightarrow> 'v \<Rightarrow> bool) option"

record 'v store =
  nodes :: "ptr \<rightharpoonup> 'v listNode"
  freed :: "'v list"

text \<open>Dereferencing, changing a node, allocating and freeing.\<close>

definition deref :: "'v store \<Rightarrow> ptr option \<Rightarrow> 'v listNode option" where
  "deref H p = p \<bind> nodes H"

definition modify :: "'v store \<Rightarrow> ptr option \<Rightarrow> ('v listNode \<Rightarrow> 'v listNode) \<Rightarrow> 'v store option" where
  "modify H p f =
     do { r \<leftarrow> p; n \<leftarrow> nodes H r; Some (H\<lparr>nodes := (nodes H)(r \<mapsto> f n)\<rparr>) }"

definition alloc_node :: "'v store \<Rightarrow> ptr \<Rightarrow> 'v listNode \<Rightarrow> 'v store" where
  "alloc_node H p n = H\<lparr>nodes := (nodes H)(p \<mapsto> n)\<rparr>"

definition zfree :: "'v store \<Rightarrow> ptr \<Rightarrow> 'v store" where
  "zfree H p = H\<lparr>nodes := (nodes H)(p := None)\<rparr>"

definition free_value :: "'v adlist \<Rightarrow> 'v \<Rightarrow> 'v store \<Rightarrow> 'v store" where
  "free_value l v H = (if l_free l then H\<lparr>freed := freed H @ [v]\<rparr> else H)"

subsection \<open>Creating, emptying, adding, deleting\<close>

definition listCreate :: "'v adlist" where
  "listCreate = \<lparr>l_head = None, l_tail = None, l_len = 0, l_dup = None, l_free = False, l_match = None\<rparr>"

fun listEmpty_loop :: "'v adlist \<Rightarrow> nat \<Rightarrow> ptr option \<Rightarrow> 'v store \<Rightarrow> 'v store option" where
  "listEmpty_loop l 0 current H = Some H"
| "listEmpty_loop l (Suc len) current H =
     do {
       p \<leftarrow> current;
       n \<leftarrow> nodes H p;
       listEmpty_loop l len (n_next n) (zfree (free_value l (n_value n) H) p)
     }"

definition listEmpty :: "'v store \<Rightarrow> 'v adlist \<Rightarrow> ('v store \<times> 'v adlist) option" where
  "listEmpty H l =
     do {
       H1 \<leftarrow> listEmpty_loop l (l_len l) (l_head l) H;
       Some (H1, l\<lparr>l_head := None, l_tail := None, l_len := 0\<rparr>)
     }"

definition listAddNodeHead :: "'v store \<Rightarrow> 'v adlist \<Rightarrow> ptr \<Rightarrow> 'v \<Rightarrow> ('v store \<times> 'v adlist) option" where
  "listAddNodeHead H l node v =
     (if l_len l = 0 then
        Some (alloc_node H node \<lparr>n_prev = None, n_next = None, n_value = v\<rparr>,
          l\<lparr>l_head := Some node, l_tail := Some node, l_len := l_len l + 1\<rparr>)
      else
        do {
          let H1 = alloc_node H node \<lparr>n_prev = None, n_next = l_head l, n_value = v\<rparr>;
          H2 \<leftarrow> modify H1 (l_head l) (n_prev_update (\<lambda>_. Some node));
          Some (H2, l\<lparr>l_head := Some node, l_len := l_len l + 1\<rparr>)
        })"

definition listAddNodeTail :: "'v store \<Rightarrow> 'v adlist \<Rightarrow> ptr \<Rightarrow> 'v \<Rightarrow> ('v store \<times> 'v adlist) option" where
  "listAddNodeTail H l node v =
     (if l_len l = 0 then
        Some (alloc_node H node \<lparr>n_prev = None, n_next = None, n_value = v\<rparr>,
          l\<lparr>l_head := Some node, l_tail := Some node, l_len := l_len l + 1\<rparr>)
      else
        do {
          let H1 = alloc_node H node \<lparr>n_prev = l_tail l, n_next = None, n_value = v\<rparr>;
          H2 \<leftarrow> modify H1 (l_tail l) (n_next_update (\<lambda>_. Some node));
          Some (H2, l\<lparr>l_tail := Some node, l_len := l_len l + 1\<rparr>)
        })"

text \<open>Writing through a pointer that may be null.\<close>

definition modify_unless_null :: "'v store \<Rightarrow> ptr option \<Rightarrow> ('v listNode \<Rightarrow> 'v listNode) \<Rightarrow> 'v store option" where
  "modify_unless_null H p f = (if p = None then Some H else modify H p f)"

definition listInsertNode :: "'v store \<Rightarrow> 'v adlist \<Rightarrow> ptr \<Rightarrow> ptr \<Rightarrow> 'v \<Rightarrow> bool \<Rightarrow> ('v store \<times> 'v adlist) option" where
  "listInsertNode H l old_node node v after =
     do {
       n \<leftarrow> nodes H old_node;
       let pn = (if after then (Some old_node, n_next n) else (n_prev n, Some old_node));
       let l1 = (if after then (if l_tail l = Some old_node then l\<lparr>l_tail := Some node\<rparr> else l)
                 else (if l_head l = Some old_node then l\<lparr>l_head := Some node\<rparr> else l));
       let H1 = alloc_node H node \<lparr>n_prev = fst pn, n_next = snd pn, n_value = v\<rparr>;
       H2 \<leftarrow> modify_unless_null H1 (fst pn) (n_next_update (\<lambda>_. Some node));
       H3 \<leftarrow> modify_unless_null H2 (snd pn) (n_prev_update (\<lambda>_. Some node));
       Some (H3, l1\<lparr>l_len := l_len l1 + 1\<rparr>)
     }"

definition listDelNode :: "'v store \<Rightarrow> 'v adlist \<Rightarrow> ptr \<Rightarrow> ('v store \<times> 'v adlist) option" where
  "listDelNode H l node =
     do {
       n \<leftarrow> nodes H node;
       H1 \<leftarrow> modify_unless_null H (n_prev n) (n_next_update (\<lambda>_. n_next n));
       let l1 = (if n_prev n = None then l\<lparr>l_head := n_next n\<rparr> else l);
       H2 \<leftarrow> modify_unless_null H1 (n_next n) (n_prev_update (\<lambda>_. n_prev n));
       let l2 = (if n_next n = None then l1\<lparr>l_tail := n_prev n\<rparr> else l1);
       Some (zfree (free_value l2 (n_value n) H2) node, l2\<lparr>l_len := l_len l2 - 1\<rparr>)
     }"

subsection \<open>Iterating, searching, copying\<close>

datatype direction = AL_START_HEAD | AL_START_TAIL

record listIter =
  i_next :: "ptr option"
  i_direction :: direction

definition listGetIterator :: "'v adlist \<Rightarrow> direction \<Rightarrow> listIter" where
  "listGetIterator l dir =
     \<lparr>i_next = (if dir = AL_START_HEAD then l_head l else l_tail l), i_direction = dir\<rparr>"

definition listRewind :: "'v adlist \<Rightarrow> listIter" where
  "listRewind l = \<lparr>i_next = l_head l, i_direction = AL_START_HEAD\<rparr>"

definition listRewindTail :: "'v adlist \<Rightarrow> listIter" where
  "listRewindTail l = \<lparr>i_next = l_tail l, i_direction = AL_START_TAIL\<rparr>"

definition listNext :: "'v store \<Rightarrow> listIter \<Rightarrow> (listIter \<times> ptr option) option" where
  "listNext H iter =
     (case i_next iter of
        None \<Rightarrow> Some (iter, None)
      | Some current \<Rightarrow>
          do {
            n \<leftarrow> nodes H current;
            Some (iter\<lparr>i_next := (if i_direction iter = AL_START_HEAD then n_next n else n_prev n)\<rparr>, Some current)
          })"

text \<open>
  The loops over the nodes are bounded by a number of rounds; running out is \<open>None\<close>. \<open>listDup\<close> takes the
  pointers that \<^verbatim>\<open>zmalloc\<close> returns in the order of the calls. Its result \<open>Some None\<close> is the failure of the
  \<^verbatim>\<open>dup\<close> method.
\<close>

fun listDup_loop :: "nat \<Rightarrow> ptr list \<Rightarrow> listIter \<Rightarrow> 'v store \<Rightarrow> 'v adlist \<Rightarrow> ('v store \<times> 'v adlist option) option" where
  "listDup_loop 0 ps iter H copy = None"
| "listDup_loop (Suc k) ps iter H copy =
     do {
       (iter1, node) \<leftarrow> listNext H iter;
       case node of
         None \<Rightarrow> Some (H, Some copy)
       | Some p \<Rightarrow>
           do {
             n \<leftarrow> nodes H p;
             case (case l_dup copy of None \<Rightarrow> Some (n_value n) | Some f \<Rightarrow> f (n_value n)) of
               None \<Rightarrow> do { (H1, copy1) \<leftarrow> listEmpty H copy; Some (H1, None) }
             | Some v \<Rightarrow>
                 (case ps of
                    [] \<Rightarrow> None
                  | q # qs \<Rightarrow> do { (H1, copy1) \<leftarrow> listAddNodeTail H copy q v; listDup_loop k qs iter1 H1 copy1 })
           }
     }"

definition listDup :: "'v store \<Rightarrow> 'v adlist \<Rightarrow> ptr list \<Rightarrow> ('v store \<times> 'v adlist option) option" where
  "listDup H orig ps =
     listDup_loop (l_len orig + 1) ps (listRewind orig) H
       (listCreate\<lparr>l_dup := l_dup orig, l_free := l_free orig, l_match := l_match orig\<rparr>)"

fun listSearchKey_loop :: "nat \<Rightarrow> 'v store \<Rightarrow> 'v adlist \<Rightarrow> 'v \<Rightarrow> listIter \<Rightarrow> ptr option option" where
  "listSearchKey_loop 0 H l key iter = None"
| "listSearchKey_loop (Suc k) H l key iter =
     do {
       (iter1, node) \<leftarrow> listNext H iter;
       case node of
         None \<Rightarrow> Some None
       | Some p \<Rightarrow>
           do {
             n \<leftarrow> nodes H p;
             if (case l_match l of Some f \<Rightarrow> f (n_value n) key | None \<Rightarrow> key = n_value n)
             then Some (Some p) else listSearchKey_loop k H l key iter1
           }
     }"

definition listSearchKey :: "'v store \<Rightarrow> 'v adlist \<Rightarrow> 'v \<Rightarrow> ptr option option" where
  "listSearchKey H l key = listSearchKey_loop (l_len l + 1) H l key (listRewind l)"

text \<open>The loops of \<^verbatim>\<open>listIndex\<close>, which count the index down.\<close>

fun listIndex_loop :: "'v store \<Rightarrow> ('v listNode \<Rightarrow> ptr option) \<Rightarrow> nat \<Rightarrow> ptr option \<Rightarrow> ptr option option" where
  "listIndex_loop H step 0 n = Some n"
| "listIndex_loop H step (Suc k) None = Some None"
| "listIndex_loop H step (Suc k) (Some p) = do { c \<leftarrow> nodes H p; listIndex_loop H step k (step c) }"

definition listIndex :: "'v store \<Rightarrow> 'v adlist \<Rightarrow> int \<Rightarrow> ptr option option" where
  "listIndex H l index =
     (if index < 0 then listIndex_loop H n_prev (nat (- index - 1)) (l_tail l)
      else listIndex_loop H n_next (nat index) (l_head l))"

subsection \<open>Rotating and joining\<close>

definition listRotateTailToHead :: "'v store \<Rightarrow> 'v adlist \<Rightarrow> ('v store \<times> 'v adlist) option" where
  "listRotateTailToHead H l =
     (if l_len l \<le> 1 then Some (H, l)
      else
        do {
          tail \<leftarrow> l_tail l;
          t \<leftarrow> nodes H tail;
          let l1 = l\<lparr>l_tail := n_prev t\<rparr>;
          H1 \<leftarrow> modify H (l_tail l1) (n_next_update (\<lambda>_. None));
          H2 \<leftarrow> modify H1 (l_head l1) (n_prev_update (\<lambda>_. Some tail));
          H3 \<leftarrow> modify H2 (Some tail) (n_prev_update (\<lambda>_. None));
          H4 \<leftarrow> modify H3 (Some tail) (n_next_update (\<lambda>_. l_head l1));
          Some (H4, l1\<lparr>l_head := Some tail\<rparr>)
        })"

definition listRotateHeadToTail :: "'v store \<Rightarrow> 'v adlist \<Rightarrow> ('v store \<times> 'v adlist) option" where
  "listRotateHeadToTail H l =
     (if l_len l \<le> 1 then Some (H, l)
      else
        do {
          head \<leftarrow> l_head l;
          h \<leftarrow> nodes H head;
          let l1 = l\<lparr>l_head := n_next h\<rparr>;
          H1 \<leftarrow> modify H (l_head l1) (n_prev_update (\<lambda>_. None));
          H2 \<leftarrow> modify H1 (l_tail l1) (n_next_update (\<lambda>_. Some head));
          H3 \<leftarrow> modify H2 (Some head) (n_next_update (\<lambda>_. None));
          H4 \<leftarrow> modify H3 (Some head) (n_prev_update (\<lambda>_. l_tail l1));
          Some (H4, l1\<lparr>l_tail := Some head\<rparr>)
        })"

definition listJoin :: "'v store \<Rightarrow> 'v adlist \<Rightarrow> 'v adlist \<Rightarrow> ('v store \<times> 'v adlist \<times> 'v adlist) option" where
  "listJoin H l oth =
     (if l_len oth = 0 then Some (H, l, oth)
      else
        do {
          H1 \<leftarrow> modify H (l_head oth) (n_prev_update (\<lambda>_. l_tail l));
          H2 \<leftarrow> modify_unless_null H1 (l_tail l) (n_next_update (\<lambda>_. l_head oth));
          let l1 = (if l_tail l = None then l\<lparr>l_head := l_head oth\<rparr> else l);
          Some (H2, l1\<lparr>l_tail := l_tail oth, l_len := l_len l1 + l_len oth\<rparr>,
            oth\<lparr>l_head := None, l_tail := None, l_len := 0\<rparr>)
        })"

section \<open>Lists in the store\<close>

text \<open>The first of some pointers, or what follows them; the last of them, or what precedes them.\<close>

definition hd_or :: "ptr list \<Rightarrow> ptr option \<Rightarrow> ptr option" where
  "hd_or ps e = (case ps of [] \<Rightarrow> e | p # _ \<Rightarrow> Some p)"

definition last_or :: "ptr option \<Rightarrow> ptr list \<Rightarrow> ptr option" where
  "last_or b ps = (if ps = [] then b else Some (last ps))"

text \<open>The nodes at \<open>ps\<close> are linked in both directions, between \<open>b\<close> and \<open>e\<close>, and hold the values \<open>vs\<close>.\<close>

fun linked :: "(ptr \<rightharpoonup> 'v listNode) \<Rightarrow> ptr option \<Rightarrow> ptr list \<Rightarrow> 'v list \<Rightarrow> ptr option \<Rightarrow> bool" where
  "linked H b [] [] e = True"
| "linked H b (p # ps) (v # vs) e =
     (H p = Some \<lparr>n_prev = b, n_next = hd_or ps e, n_value = v\<rparr> \<and> linked H (Some p) ps vs e)"
| "linked H b ps vs e = False"

definition list_at :: "'v store \<Rightarrow> 'v adlist \<Rightarrow> ptr list \<Rightarrow> 'v list \<Rightarrow> bool" where
  "list_at H l ps vs \<longleftrightarrow>
     distinct ps \<and> linked (nodes H) None ps vs None \<and> l_head l = hd_or ps None \<and> l_tail l = last_or None ps \<and>
     l_len l = length ps"

lemma or_simps [simp]:
  "hd_or [] e = e" "hd_or (p # ps) e = Some p" "hd_or (xs @ ys) e = hd_or xs (hd_or ys e)"
  "last_or b [] = b" "last_or b (p # ps) = last_or (Some p) ps" "last_or b (xs @ ys) = last_or (last_or b xs) ys"
  by (auto simp: hd_or_def last_or_def split: list.split)

lemma hd_or_None: "hd_or ps None = None \<longleftrightarrow> ps = []" and last_or_None: "last_or None ps = None \<longleftrightarrow> ps = []"
  by (auto simp: hd_or_def last_or_def split: list.split)

lemma linked_length: "linked H b ps vs e \<Longrightarrow> length vs = length ps"
  by (induction H b ps vs e rule: linked.induct) auto

lemma linked_append:
  "length vs = length ps \<Longrightarrow>
   linked H b (ps @ qs) (vs @ ws) e \<longleftrightarrow> linked H b ps vs (hd_or qs e) \<and> linked H (last_or b ps) qs ws e"
  by (induction ps vs arbitrary: b rule: list_induct2') auto

lemma linked_cong: "\<forall>p \<in> set ps. H' p = H p \<Longrightarrow> linked H' b ps vs e = linked H b ps vs e"
  by (induction H b ps vs e rule: linked.induct) auto

lemma linked_upd [simp]: "p \<notin> set ps \<Longrightarrow> linked (H(p := x)) b ps vs e = linked H b ps vs e"
  by (rule linked_cong) auto

lemma linked_dom: "linked H b ps vs e \<Longrightarrow> p \<in> set ps \<Longrightarrow> H p \<noteq> None"
  by (induction H b ps vs e rule: linked.induct) auto

text \<open>Changing the link at either end of a chain.\<close>

lemma linked_set_end:
  assumes "linked H b (ps @ [p]) vs e" "distinct (ps @ [p])"
  shows "\<exists>n. H p = Some n \<and> linked (H(p \<mapsto> n\<lparr>n_next := e'\<rparr>)) b (ps @ [p]) vs e'"
proof -
  have l: "length vs = length ps + 1" using linked_length [OF assms(1)] by simp
  then obtain ws w where vs: "vs = ws @ [w]" "length ws = length ps" by (metis Suc_eq_plus1 length_Suc_conv_rev)
  show ?thesis using assms by (simp add: vs linked_append)
qed

lemma linked_set_begin:
  assumes "linked H b (p # ps) vs e" "distinct (p # ps)"
  shows "\<exists>n. H p = Some n \<and> linked (H(p \<mapsto> n\<lparr>n_prev := b'\<rparr>)) b' (p # ps) vs e"
  using assms by (cases vs) auto

text \<open>Splitting a list at one of its nodes.\<close>

lemma linked_split:
  assumes "linked H b (xs @ p # ys) vs e"
  obtains us v ws where "vs = us @ v # ws" "length us = length xs" "linked H b xs us (Some p)"
    "H p = Some \<lparr>n_prev = last_or b xs, n_next = hd_or ys e, n_value = v\<rparr>" "linked H (Some p) ys ws e"
proof -
  have l: "length vs = length xs + Suc (length ys)" using linked_length [OF assms] by simp
  define us where "us = take (length xs) vs"
  obtain v ws where "drop (length xs) vs = v # ws" using l by (cases "drop (length xs) vs") auto
  then have vs: "vs = us @ v # ws" "length us = length xs" using l by (auto simp: us_def) (metis append_take_drop_id)
  then show ?thesis using assms that [OF vs] by (simp add: linked_append)
qed

lemma list_atD:
  assumes "list_at H l ps vs"
  shows "distinct ps" "linked (nodes H) None ps vs None" "l_head l = hd_or ps None" "l_tail l = last_or None ps"
    "l_len l = length ps" "length vs = length ps"
  using assms linked_length by (auto simp: list_at_def)

lemma modify_Some: "nodes H r = Some n \<Longrightarrow> modify H (Some r) f = Some (H\<lparr>nodes := (nodes H)(r \<mapsto> f n)\<rparr>)"
  by (simp add: modify_def)

text \<open>The parts of the store a change leaves alone.\<close>

definition frame :: "ptr set \<Rightarrow> 'v store \<Rightarrow> 'v store \<Rightarrow> bool" where
  "frame A H H' \<longleftrightarrow> (\<forall>p. p \<notin> A \<longrightarrow> nodes H' p = nodes H p)"

lemma frame_list_at:
  assumes "frame A H H'" "list_at H l qs ws" "set qs \<inter> A = {}"
  shows "list_at H' l qs ws"
proof -
  have "\<forall>p \<in> set qs. nodes H' p = nodes H p" using assms(1,3) by (auto simp: frame_def)
  then show ?thesis using assms(2) linked_cong [of qs "nodes H'" "nodes H"] by (simp add: list_at_def)
qed

section \<open>The operations on lists in the store\<close>

lemma listCreate_ok: "list_at H listCreate [] []"
  by (simp add: list_at_def listCreate_def)

lemma listAddNodeHead_ok:
  assumes l: "list_at H l ps vs" and p: "nodes H p = None"
  shows "\<exists>H' l'. listAddNodeHead H l p v = Some (H', l') \<and> list_at H' l' (p # ps) (v # vs) \<and>
    frame (insert p (set ps)) H H' \<and> freed H' = freed H"
proof -
  note d = list_atD [OF l]
  have np: "p \<notin> set ps" using linked_dom [OF d(2)] p by blast
  show ?thesis
  proof (cases ps)
    case Nil
    then show ?thesis using d by (simp add: listAddNodeHead_def list_at_def alloc_node_def frame_def)
  next
    case (Cons q qs)
    obtain n where n: "nodes H q = Some n" "linked ((nodes H)(q \<mapsto> n\<lparr>n_prev := Some p\<rparr>)) (Some p) ps vs None"
      using linked_set_begin [OF d(2) [unfolded Cons]] d(1) by (auto simp: Cons)
    have q: "q \<noteq> p" using np Cons by auto
    let ?n = "\<lparr>n_prev = None, n_next = Some q, n_value = v\<rparr>"
    have "linked ((nodes H)(p \<mapsto> ?n, q \<mapsto> n\<lparr>n_prev := Some p\<rparr>)) (Some p) ps vs None"
      using n(2) np by (simp add: fun_upd_twist [OF q [symmetric]])
    then show ?thesis using d n(1) q np Cons
      by (auto simp: listAddNodeHead_def alloc_node_def modify_def list_at_def frame_def)
  qed
qed

lemma listAddNodeTail_ok:
  assumes l: "list_at H l ps vs" and p: "nodes H p = None"
  shows "\<exists>H' l'. listAddNodeTail H l p v = Some (H', l') \<and> list_at H' l' (ps @ [p]) (vs @ [v]) \<and>
    frame (insert p (set ps)) H H' \<and> freed H' = freed H"
proof -
  note d = list_atD [OF l]
  have np: "p \<notin> set ps" using linked_dom [OF d(2)] p by blast
  show ?thesis
  proof (cases ps rule: rev_cases)
    case Nil
    then show ?thesis using d by (simp add: listAddNodeTail_def list_at_def alloc_node_def frame_def)
  next
    case (snoc qs q)
    obtain n where n: "nodes H q = Some n" "linked ((nodes H)(q \<mapsto> n\<lparr>n_next := Some p\<rparr>)) None ps vs (Some p)"
      using linked_set_end [OF d(2) [unfolded snoc]] d(1) by (auto simp: snoc)
    have q: "q \<noteq> p" using np snoc by auto
    let ?n = "\<lparr>n_prev = Some q, n_next = None, n_value = v\<rparr>"
    have "linked ((nodes H)(p \<mapsto> ?n, q \<mapsto> n\<lparr>n_next := Some p\<rparr>)) None ps vs (Some p)"
      using n(2) np by (simp add: fun_upd_twist [OF q [symmetric]])
    moreover have "last_or None ps = Some q" by (simp add: snoc)
    ultimately have "linked ((nodes H)(p \<mapsto> ?n, q \<mapsto> n\<lparr>n_next := Some p\<rparr>)) None (ps @ [p]) (vs @ [v]) None"
      using d(6) q by (simp add: linked_append)
    then show ?thesis using d n(1) q np snoc
      by (auto simp: listAddNodeTail_def alloc_node_def modify_def list_at_def frame_def)
  qed
qed

lemma modify_null_end:
  assumes "linked (nodes H) b ps vs e" "distinct ps"
  shows "\<exists>H'. modify_unless_null H (last_or None ps) (n_next_update (\<lambda>_. e')) = Some H' \<and> linked (nodes H') b ps vs e' \<and>
    frame (set ps) H H' \<and> freed H' = freed H"
proof (cases ps rule: rev_cases)
  case Nil
  then show ?thesis using assms by (cases vs) (simp_all add: modify_unless_null_def frame_def)
next
  case (snoc qs q)
  then show ?thesis using linked_set_end [of "nodes H" b qs q vs e e'] assms
    by (auto simp: modify_unless_null_def modify_def frame_def)
qed

lemma modify_null_begin:
  assumes "linked (nodes H) b ps vs e" "distinct ps"
  shows "\<exists>H'. modify_unless_null H (hd_or ps None) (n_prev_update (\<lambda>_. b')) = Some H' \<and> linked (nodes H') b' ps vs e \<and>
    frame (set ps) H H' \<and> freed H' = freed H"
proof (cases ps)
  case Nil
  then show ?thesis using assms by (cases vs) (simp_all add: modify_unless_null_def frame_def)
next
  case (Cons q qs)
  then show ?thesis using linked_set_begin [of "nodes H" b q qs vs e b'] assms
    by (auto simp: modify_unless_null_def modify_def frame_def)
qed

lemma linked_frame: "frame A H H' \<Longrightarrow> set ps \<inter> A = {} \<Longrightarrow> linked (nodes H') b ps vs e = linked (nodes H) b ps vs e"
  by (rule linked_cong) (auto simp: frame_def)

lemma frame_trans: "frame A H H1 \<Longrightarrow> frame B H1 H2 \<Longrightarrow> A \<subseteq> C \<Longrightarrow> B \<subseteq> C \<Longrightarrow> frame C H H2"
  unfolding frame_def by (metis subsetD)

text \<open>Linking two chains through a new node.\<close>

lemma insert_between:
  assumes c: "linked (nodes H) None xs us e1" "linked (nodes H) b2 ys ws None" "distinct (xs @ ys)" "p \<notin> set (xs @ ys)"
    and H1: "H1 = alloc_node H p \<lparr>n_prev = last_or None xs, n_next = hd_or ys None, n_value = v\<rparr>"
  shows "\<exists>H2 H3. modify_unless_null H1 (last_or None xs) (n_next_update (\<lambda>_. Some p)) = Some H2 \<and>
    modify_unless_null H2 (hd_or ys None) (n_prev_update (\<lambda>_. Some p)) = Some H3 \<and>
    linked (nodes H3) None (xs @ p # ys) (us @ v # ws) None \<and> frame (insert p (set (xs @ ys))) H H3 \<and> freed H3 = freed H"
proof -
  have f1: "frame {p} H H1" "freed H1 = freed H" by (simp_all add: H1 alloc_node_def frame_def)
  have c1: "linked (nodes H1) None xs us e1" "linked (nodes H1) b2 ys ws None"
    using c linked_frame [OF f1(1)] by auto
  obtain H2 where H2: "modify_unless_null H1 (last_or None xs) (n_next_update (\<lambda>_. Some p)) = Some H2"
    "linked (nodes H2) None xs us (Some p)" "frame (set xs) H1 H2" "freed H2 = freed H1"
    using modify_null_end [OF c1(1)] c(3) by auto
  have c2: "linked (nodes H2) b2 ys ws None" using linked_frame [OF H2(3), of ys] c1(2) c(3) by auto
  obtain H3 where H3: "modify_unless_null H2 (hd_or ys None) (n_prev_update (\<lambda>_. Some p)) = Some H3"
    "linked (nodes H3) (Some p) ys ws None" "frame (set ys) H2 H3" "freed H3 = freed H2"
    using modify_null_begin [OF c2] c(3) by auto
  have "linked (nodes H3) None xs us (Some p)" using linked_frame [OF H3(3), of xs] H2(2) c(3) by auto
  moreover have "nodes H3 p = nodes H1 p" using H2(3) H3(3) c(4) by (simp add: frame_def)
  then have "nodes H3 p = Some \<lparr>n_prev = last_or None xs, n_next = hd_or ys None, n_value = v\<rparr>"
    by (simp add: H1 alloc_node_def)
  ultimately have "linked (nodes H3) None (xs @ p # ys) (us @ v # ws) None"
    using H3(2) linked_append [of us xs "nodes H3" None "p # ys" "v # ws" None] linked_length [OF c(1)] by simp
  moreover have "frame (insert p (set (xs @ ys))) H H2" by (rule frame_trans [OF f1(1) H2(3)]) auto
  then have "frame (insert p (set (xs @ ys))) H H3" by (rule frame_trans [OF _ H3(3)]) auto
  ultimately show ?thesis using H2(1,4) H3(1,4) f1(2) by auto
qed

lemma listInsertNode_ok:
  assumes l: "list_at H l (xs @ q # ys) (us @ w # ws)" and len: "length us = length xs" and p: "nodes H p = None"
  shows "\<exists>H' l'. listInsertNode H l q p v after = Some (H', l') \<and>
    list_at H' l' (if after then xs @ q # p # ys else xs @ p # q # ys) (if after then us @ w # v # ws else us @ v # w # ws) \<and>
    frame (insert p (set (xs @ q # ys))) H H' \<and> freed H' = freed H"
proof -
  note d = list_atD [OF l]
  have np: "p \<notin> set (xs @ q # ys)" using linked_dom [OF d(2)] p by blast
  have q: "nodes H q = Some \<lparr>n_prev = last_or None xs, n_next = hd_or ys None, n_value = w\<rparr>"
    and c: "linked (nodes H) None xs us (Some q)" "linked (nodes H) (Some q) ys ws None"
    "linked (nodes H) (last_or None xs) (q # ys) (w # ws) None" "linked (nodes H) None (xs @ [q]) (us @ [w]) (hd_or ys None)"
    using d(2) len by (simp_all add: linked_append)
  show ?thesis
  proof (cases after)
    case True
    let ?H1 = "alloc_node H p \<lparr>n_prev = Some q, n_next = hd_or ys None, n_value = v\<rparr>"
    obtain H2 H3 where H: "modify_unless_null ?H1 (Some q) (n_next_update (\<lambda>_. Some p)) = Some H2"
      "modify_unless_null H2 (hd_or ys None) (n_prev_update (\<lambda>_. Some p)) = Some H3"
      "linked (nodes H3) None (xs @ q # p # ys) (us @ w # v # ws) None" "frame (insert p (set (xs @ q # ys))) H H3" "freed H3 = freed H"
      using insert_between [OF c(4,2), of p ?H1 v] d(1) np by auto
    have "l_tail l = Some q \<longleftrightarrow> ys = []" using d(1,4) last_in_set [of ys] by (auto simp: last_or_def split: if_splits)
    then show ?thesis using H d np q True by (auto simp: listInsertNode_def list_at_def last_or_def)
  next
    case False
    let ?H1 = "alloc_node H p \<lparr>n_prev = last_or None xs, n_next = Some q, n_value = v\<rparr>"
    obtain H2 H3 where H: "modify_unless_null ?H1 (last_or None xs) (n_next_update (\<lambda>_. Some p)) = Some H2"
      "modify_unless_null H2 (Some q) (n_prev_update (\<lambda>_. Some p)) = Some H3"
      "linked (nodes H3) None (xs @ p # q # ys) (us @ v # w # ws) None" "frame (insert p (set (xs @ q # ys))) H H3" "freed H3 = freed H"
      using insert_between [OF c(1,3), of p ?H1 v] d(1) np by auto
    have "l_head l = Some q \<longleftrightarrow> xs = []" using d(1,3) by (cases xs) auto
    then show ?thesis using H d np q False by (cases xs) (auto simp: listInsertNode_def list_at_def)
  qed
qed

lemma listDelNode_ok:
  assumes l: "list_at H l (xs @ p # ys) (us @ v # ws)" and len: "length us = length xs"
  shows "\<exists>H' l'. listDelNode H l p = Some (H', l') \<and> list_at H' l' (xs @ ys) (us @ ws) \<and> nodes H' p = None \<and>
    frame (set (xs @ p # ys)) H H' \<and> freed H' = freed H @ (if l_free l then [v] else [])"
proof -
  note d = list_atD [OF l]
  have p: "nodes H p = Some \<lparr>n_prev = last_or None xs, n_next = hd_or ys None, n_value = v\<rparr>"
    and c: "linked (nodes H) None xs us (Some p)" "linked (nodes H) (Some p) ys ws None"
    using d(2) len by (simp_all add: linked_append)
  have dd: "distinct xs" "distinct ys" "set ys \<inter> set xs = {}" "p \<notin> set xs" "p \<notin> set ys" using d(1) by auto
  obtain H1 where H1: "modify_unless_null H (last_or None xs) (n_next_update (\<lambda>_. hd_or ys None)) = Some H1"
    "linked (nodes H1) None xs us (hd_or ys None)" "frame (set xs) H H1" "freed H1 = freed H"
    using modify_null_end [OF c(1) dd(1)] by auto
  have c1: "linked (nodes H1) (Some p) ys ws None" using linked_frame [OF H1(3) dd(3)] c(2) by simp
  obtain H2 where H2: "modify_unless_null H1 (hd_or ys None) (n_prev_update (\<lambda>_. last_or None xs)) = Some H2"
    "linked (nodes H2) (last_or None xs) ys ws None" "frame (set ys) H1 H2" "freed H2 = freed H1"
    using modify_null_begin [OF c1 dd(2)] by auto
  have "linked (nodes H2) None xs us (hd_or ys None)" using linked_frame [OF H2(3)] dd(3) H1(2) by (simp add: inf_commute)
  then have k: "linked (nodes H2) None (xs @ ys) (us @ ws) None" using H2(2) by (simp add: linked_append [OF len])
  define l2 where "l2 = (if ys = [] then (if xs = [] then l\<lparr>l_head := None\<rparr> else l)\<lparr>l_tail := last_or None xs\<rparr>
    else if xs = [] then l\<lparr>l_head := hd_or ys None\<rparr> else l)"
  have "listDelNode H l p = Some (zfree (free_value l2 v H2) p, l2\<lparr>l_len := l_len l2 - 1\<rparr>)"
    using p H1(1) H2(1) by (simp add: listDelNode_def Let_def l2_def hd_or_None last_or_None)
  moreover have "list_at (zfree (free_value l2 v H2) p) (l2\<lparr>l_len := l_len l2 - 1\<rparr>) (xs @ ys) (us @ ws)"
    using k d dd by (auto simp: list_at_def l2_def zfree_def free_value_def last_or_def hd_or_def split: list.splits)
  moreover have "frame (set (xs @ ys)) H H2" by (rule frame_trans [OF H1(3) H2(3)]) auto
  then have "frame (set (xs @ p # ys)) H (zfree (free_value l2 v H2) p)" by (auto simp: frame_def zfree_def free_value_def)
  ultimately show ?thesis using H1(4) H2(4) by (auto simp: zfree_def free_value_def l2_def)
qed

text \<open>The rotations and the join.\<close>

lemma listRotateTailToHead_ok:
  assumes l: "list_at H l (ps @ [q]) (vs @ [w])"
  shows "\<exists>H' l'. listRotateTailToHead H l = Some (H', l') \<and> list_at H' l' (q # ps) (w # vs) \<and>
    frame (set (ps @ [q])) H H' \<and> freed H' = freed H"
proof (cases ps)
  case Nil
  then show ?thesis using list_atD [OF l] l by (auto simp: listRotateTailToHead_def frame_def)
next
  case (Cons p rs)
  note d = list_atD [OF l]
  have not_Nil: "ps \<noteq> []" by (simp add: Cons)
  have len: "length vs = length ps" using d(6) by simp
  have q: "nodes H q = Some \<lparr>n_prev = last_or None ps, n_next = None, n_value = w\<rparr>" and c: "linked (nodes H) None ps vs (Some q)"
    using d(2) by (simp_all add: linked_append [OF len])
  have dd: "distinct ps" "q \<notin> set ps" using d(1) by auto
  obtain H1 where H1: "modify_unless_null H (last_or None ps) (n_next_update (\<lambda>_. None)) = Some H1"
    "linked (nodes H1) None ps vs None" "frame (set ps) H H1" "freed H1 = freed H" using modify_null_end [OF c dd(1)] by blast
  obtain H2 where H2: "modify_unless_null H1 (hd_or ps None) (n_prev_update (\<lambda>_. Some q)) = Some H2"
    "linked (nodes H2) (Some q) ps vs None" "frame (set ps) H1 H2" "freed H2 = freed H1" using modify_null_begin [OF H1(2) dd(1)] by blast
  have nz: "last_or None ps \<noteq> None" "hd_or ps None \<noteq> None" using not_Nil by (simp_all add: last_or_None hd_or_None)
  have m: "modify H (last_or None ps) (n_next_update (\<lambda>_. None)) = Some H1" "modify H1 (hd_or ps None) (n_prev_update (\<lambda>_. Some q)) = Some H2"
    using H1(1) H2(1) nz by (simp_all add: modify_unless_null_def)
  have q2: "nodes H2 q = nodes H q" using H1(3) H2(3) dd(2) by (simp add: frame_def)
  let ?n = "\<lparr>n_prev = None, n_next = hd_or ps None, n_value = w\<rparr>"
  have "listRotateTailToHead H l = Some (H2\<lparr>nodes := (nodes H2)(q \<mapsto> ?n)\<rparr>, l\<lparr>l_tail := last_or None ps, l_head := Some q\<rparr>)"
    using d q m q2 by (simp add: listRotateTailToHead_def Cons modify_Some)
  moreover have "frame (set (ps @ [q])) H (H2\<lparr>nodes := (nodes H2)(q \<mapsto> ?n)\<rparr>)" using H1(3) H2(3) by (auto simp: frame_def)
  ultimately show ?thesis using H2 H1(4) d dd by (simp add: list_at_def Cons)
qed

lemma listRotateHeadToTail_ok:
  assumes l: "list_at H l (p # ps) (v # vs)"
  shows "\<exists>H' l'. listRotateHeadToTail H l = Some (H', l') \<and> list_at H' l' (ps @ [p]) (vs @ [v]) \<and>
    frame (set (p # ps)) H H' \<and> freed H' = freed H"
proof (cases "ps = []")
  case True
  then show ?thesis using list_atD [OF l] l by (auto simp: listRotateHeadToTail_def frame_def)
next
  case False
  note d = list_atD [OF l]
  have len: "length vs = length ps" using d(6) by simp
  have p: "nodes H p = Some \<lparr>n_prev = None, n_next = hd_or ps None, n_value = v\<rparr>" and c: "linked (nodes H) (Some p) ps vs None"
    using d(2) by simp_all
  have dd: "distinct ps" "p \<notin> set ps" using d(1) by auto
  obtain H1 where H1: "modify_unless_null H (hd_or ps None) (n_prev_update (\<lambda>_. None)) = Some H1"
    "linked (nodes H1) None ps vs None" "frame (set ps) H H1" "freed H1 = freed H" using modify_null_begin [OF c dd(1)] by blast
  obtain H2 where H2: "modify_unless_null H1 (last_or None ps) (n_next_update (\<lambda>_. Some p)) = Some H2"
    "linked (nodes H2) None ps vs (Some p)" "frame (set ps) H1 H2" "freed H2 = freed H1" using modify_null_end [OF H1(2) dd(1)] by blast
  have nz: "last_or None ps \<noteq> None" "hd_or ps None \<noteq> None" using False by (simp_all add: last_or_None hd_or_None)
  have m: "modify H (hd_or ps None) (n_prev_update (\<lambda>_. None)) = Some H1" "modify H1 (last_or None ps) (n_next_update (\<lambda>_. Some p)) = Some H2"
    using H1(1) H2(1) nz by (simp_all add: modify_unless_null_def)
  have p2: "nodes H2 p = nodes H p" using H1(3) H2(3) dd(2) by (simp add: frame_def)
  let ?n = "\<lparr>n_prev = last_or None ps, n_next = None, n_value = v\<rparr>"
  have lt: "last_or (Some p) ps = last_or None ps" using False by (simp add: last_or_def)
  have "listRotateHeadToTail H l = Some (H2\<lparr>nodes := (nodes H2)(p \<mapsto> ?n)\<rparr>, l\<lparr>l_head := hd_or ps None, l_tail := Some p\<rparr>)"
    using d p m p2 False lt by (simp add: listRotateHeadToTail_def modify_Some)
  moreover have "linked ((nodes H2)(p \<mapsto> ?n)) None (ps @ [p]) (vs @ [v]) None"
    using H2(2) dd by (simp add: linked_append [OF len])
  moreover have "frame (set (p # ps)) H (H2\<lparr>nodes := (nodes H2)(p \<mapsto> ?n)\<rparr>)" using H1(3) H2(3) by (auto simp: frame_def)
  moreover have "hd_or ps (Some p) = hd_or ps None" using False by (simp add: hd_or_def split: list.split)
  ultimately show ?thesis using H2(4) H1(4) d dd by (simp add: list_at_def)
qed

lemma listJoin_ok:
  assumes l: "list_at H l ps vs" and k: "list_at H oth qs ws" and dis: "set ps \<inter> set qs = {}"
  shows "\<exists>H' l' oth'. listJoin H l oth = Some (H', l', oth') \<and> list_at H' l' (ps @ qs) (vs @ ws) \<and> list_at H' oth' [] [] \<and>
    frame (set (ps @ qs)) H H' \<and> freed H' = freed H"
proof (cases "qs = []")
  case True
  then show ?thesis using list_atD [OF k] l k by (auto simp: listJoin_def frame_def)
next
  case False
  note d = list_atD [OF l] and e = list_atD [OF k]
  obtain H1 where H1: "modify_unless_null H (hd_or qs None) (n_prev_update (\<lambda>_. last_or None ps)) = Some H1"
    "linked (nodes H1) (last_or None ps) qs ws None" "frame (set qs) H H1" "freed H1 = freed H"
    using modify_null_begin [OF e(2,1)] by blast
  have c: "linked (nodes H1) None ps vs None" using linked_frame [OF H1(3) dis] d(2) by simp
  obtain H2 where H2: "modify_unless_null H1 (last_or None ps) (n_next_update (\<lambda>_. hd_or qs None)) = Some H2"
    "linked (nodes H2) None ps vs (hd_or qs None)" "frame (set ps) H1 H2" "freed H2 = freed H1"
    using modify_null_end [OF c d(1)] by blast
  have "linked (nodes H2) (last_or None ps) qs ws None" using linked_frame [OF H2(3)] dis H1(2) by (simp add: inf_commute)
  then have "linked (nodes H2) None (ps @ qs) (vs @ ws) None" using H2(2) by (simp add: linked_append [OF d(6)])
  moreover have "frame (set (ps @ qs)) H H2" by (rule frame_trans [OF H1(3) H2(3)]) auto
  moreover have "hd_or qs None \<noteq> None" using False by (simp add: hd_or_None)
  moreover have "last_or (last_or None ps) qs = last_or None qs" "ps \<noteq> [] \<Longrightarrow> hd_or ps (hd_or qs None) = hd_or ps None"
    using False by (auto simp: last_or_def hd_or_def split: list.split)
  ultimately show ?thesis using H1 H2 d e dis False
    by (auto simp: listJoin_def list_at_def last_or_None modify_unless_null_def [of H])
qed

lemma listEmpty_loop_ok:
  assumes "linked (nodes H) b ps vs None" "distinct ps"
  shows "\<exists>H'. listEmpty_loop l (length ps) (hd_or ps None) H = Some H' \<and>
    nodes H' = (\<lambda>p. if p \<in> set ps then None else nodes H p) \<and> freed H' = freed H @ (if l_free l then vs else [])"
  using assms
proof (induction ps arbitrary: H b vs)
  case Nil
  then show ?case by (cases vs) auto
next
  case (Cons p ps)
  obtain v ws where vs: "vs = v # ws" using Cons.prems(1) by (cases vs) auto
  let ?H = "zfree (free_value l v H) p"
  have "linked (nodes ?H) (Some p) ps ws None"
    using Cons.prems by (simp add: vs zfree_def free_value_def)
  from Cons.IH [OF this] obtain H' where H': "listEmpty_loop l (length ps) (hd_or ps None) ?H = Some H'"
    "nodes H' = (\<lambda>q. if q \<in> set ps then None else nodes ?H q)" "freed H' = freed ?H @ (if l_free l then ws else [])"
    using Cons.prems(2) by auto
  then show ?case using Cons.prems by (auto simp: vs zfree_def free_value_def fun_eq_iff)
qed

lemma listEmpty_ok:
  assumes "list_at H l ps vs"
  shows "\<exists>H' l'. listEmpty H l = Some (H', l') \<and> list_at H' l' [] [] \<and>
    nodes H' = (\<lambda>p. if p \<in> set ps then None else nodes H p) \<and> freed H' = freed H @ (if l_free l then vs else [])"
  using listEmpty_loop_ok [OF list_atD(2,1) [OF assms], of l] list_atD [OF assms]
  by (auto simp: listEmpty_def list_at_def)

section \<open>Traversal\<close>

text \<open>The iterator before the nodes \<open>ps\<close>, going forwards, and behind them, going backwards.\<close>

definition before :: "ptr list \<Rightarrow> listIter" where
  "before ps = \<lparr>i_next = hd_or ps None, i_direction = AL_START_HEAD\<rparr>"

definition behind :: "ptr list \<Rightarrow> listIter" where
  "behind ps = \<lparr>i_next = last_or None ps, i_direction = AL_START_TAIL\<rparr>"

lemma listNext_before:
  "listNext H (before []) = Some (before [], None)"
  "linked (nodes H) b (p # ps) vs None \<Longrightarrow> listNext H (before (p # ps)) = Some (before ps, Some p)"
  by (cases vs; simp add: listNext_def before_def)+

lemma listNext_behind:
  "listNext H (behind []) = Some (behind [], None)"
  "linked (nodes H) None (ps @ [p]) vs e \<Longrightarrow> listNext H (behind (ps @ [p])) = Some (behind ps, Some p)"
proof -
  assume a: "linked (nodes H) None (ps @ [p]) vs e"
  then obtain us v ws where "nodes H p = Some \<lparr>n_prev = last_or None ps, n_next = e, n_value = v\<rparr>"
    by (auto elim: linked_split [where ys = "[]"])
  then show "listNext H (behind (ps @ [p])) = Some (behind ps, Some p)" by (simp add: listNext_def behind_def)
qed (simp add: listNext_def behind_def)

lemma rewind:
  assumes "list_at H l ps vs"
  shows "listRewind l = before ps" "listRewindTail l = behind ps"
    "listGetIterator l AL_START_HEAD = before ps" "listGetIterator l AL_START_TAIL = behind ps"
  using list_atD [OF assms]
  by (simp_all add: listRewind_def listRewindTail_def listGetIterator_def before_def behind_def)

definition matches :: "'v adlist \<Rightarrow> 'v \<Rightarrow> 'v \<Rightarrow> bool" where
  "matches l key v = (case l_match l of Some f \<Rightarrow> f v key | None \<Rightarrow> key = v)"

lemma listSearchKey_loop_ok:
  assumes "linked (nodes H) b ps vs None" "length ps < k"
  shows "listSearchKey_loop k H l key (before ps) = Some (map_option fst (find (\<lambda>(p, v). matches l key v) (zip ps vs)))"
  using assms
proof (induction ps arbitrary: b vs k)
  case Nil
  then show ?case by (cases k) (simp_all add: listNext_before)
next
  case (Cons p ps)
  obtain v ws where vs: "vs = v # ws" using Cons.prems(1) by (cases vs) auto
  obtain j where k: "k = Suc j" using Cons.prems(2) by (cases k) auto
  show ?case using Cons.IH [of "Some p" ws j] Cons.prems listNext_before(2) [OF Cons.prems(1)]
    by (simp add: vs k matches_def split: option.split)
qed

lemma listSearchKey_ok:
  assumes "list_at H l ps vs"
  shows "listSearchKey H l key = Some (map_option fst (find (\<lambda>(p, v). matches l key v) (zip ps vs)))"
  using listSearchKey_loop_ok [OF list_atD(2) [OF assms], of "l_len l + 1" l key] list_atD(5) [OF assms]
  by (simp add: listSearchKey_def rewind [OF assms])

lemma index_forward:
  assumes "linked (nodes H) b ps vs None"
  shows "listIndex_loop H n_next k (hd_or ps None) = Some (if k < length ps then Some (ps ! k) else None)"
  using assms
proof (induction ps arbitrary: b vs k)
  case Nil
  then show ?case by (cases k) simp_all
next
  case (Cons p ps)
  obtain v ws where "vs = v # ws" using Cons.prems(1) by (cases vs) auto
  then show ?case using Cons.IH [of "Some p" ws "k - 1"] Cons.prems by (cases k) simp_all
qed

lemma index_backward:
  assumes "linked (nodes H) None ps vs e"
  shows "listIndex_loop H n_prev k (last_or None ps) = Some (if k < length ps then Some (ps ! (length ps - 1 - k)) else None)"
  using assms
proof (induction ps arbitrary: vs e k rule: rev_induct)
  case Nil
  then show ?case by (cases k) simp_all
next
  case (snoc p ps)
  obtain us v ws where s: "nodes H p = Some \<lparr>n_prev = last_or None ps, n_next = hd_or [] e, n_value = v\<rparr>"
    "linked (nodes H) None ps us (Some p)" by (rule linked_split [OF snoc.prems])
  then show ?case using snoc.IH [OF s(2), of "k - 1"] by (cases k) (auto simp: nth_append)
qed

lemma listIndex_ok:
  assumes "list_at H l ps vs"
  shows "listIndex H l i =
    Some (let j = (if i < 0 then int (length ps) + i else i) in
          if 0 \<le> j \<and> j < int (length ps) then Some (ps ! nat j) else None)"
proof (cases "i < 0")
  case True
  have "length ps - 1 - nat (- i - 1) = nat (int (length ps) + i)" using True by simp
  then show ?thesis using True index_backward [OF list_atD(2) [OF assms], of "nat (- i - 1)"] list_atD(4) [OF assms]
    by (auto simp: listIndex_def Let_def)
next
  case False
  then show ?thesis using index_forward [OF list_atD(2) [OF assms], of "nat i"] list_atD(3) [OF assms]
    by (auto simp: listIndex_def Let_def nat_less_iff)
qed

text \<open>The loop that deletes, while it iterates, the nodes whose values satisfy a predicate.\<close>

fun delete_while_iterating ::
    "nat \<Rightarrow> ('v \<Rightarrow> bool) \<Rightarrow> listIter \<Rightarrow> 'v store \<Rightarrow> 'v adlist \<Rightarrow> ('v store \<times> 'v adlist) option" where
  "delete_while_iterating 0 P iter H l = None"
| "delete_while_iterating (Suc k) P iter H l =
     do {
       (iter1, node) \<leftarrow> listNext H iter;
       case node of
         None \<Rightarrow> Some (H, l)
       | Some p \<Rightarrow>
           do {
             n \<leftarrow> nodes H p;
             (H1, l1) \<leftarrow> if P (n_value n) then listDelNode H l p else Some (H, l);
             delete_while_iterating k P iter1 H1 l1
           }
     }"

lemma delete_while_iterating_ok:
  assumes "list_at H l (xs @ ps) (us @ vs)" "length us = length xs" "length ps < k"
  shows "\<exists>H' l' qs. delete_while_iterating k P (before ps) H l = Some (H', l') \<and>
    list_at H' l' (xs @ qs) (us @ filter (\<lambda>v. \<not> P v) vs)"
  using assms
proof (induction ps arbitrary: xs us vs k H l)
  case Nil
  then have "vs = []" using list_atD(6) by fastforce
  then show ?case using Nil by (cases k) (auto simp: listNext_before intro: exI [of _ "[]"])
next
  case (Cons p ps)
  obtain j where k: "k = Suc j" using Cons.prems(3) by (cases k) auto
  have "length vs = Suc (length ps)" using list_atD(6) [OF Cons.prems(1)] Cons.prems(2) by simp
  then obtain v ws where vs: "vs = v # ws" by (cases vs) auto
  have c: "linked (nodes H) (last_or None xs) (p # ps) (v # ws) None"
    using list_atD(2) [OF Cons.prems(1)] by (simp add: linked_append [OF Cons.prems(2)] vs)
  have n: "nodes H p = Some \<lparr>n_prev = last_or None xs, n_next = hd_or ps None, n_value = v\<rparr>" using c by simp
  show ?case
  proof (cases "P v")
    case True
    obtain H1 l1 where "listDelNode H l p = Some (H1, l1)" "list_at H1 l1 (xs @ ps) (us @ ws)"
      using listDelNode_ok [OF Cons.prems(1) [unfolded vs] Cons.prems(2)] by blast
    then show ?thesis using Cons.IH [of H1 l1 xs us ws j] Cons.prems(2,3) True listNext_before(2) [OF c] n by (simp add: k vs)
  next
    case False
    have "\<exists>H' l' qs. delete_while_iterating j P (before ps) H l = Some (H', l') \<and>
        list_at H' l' ((xs @ [p]) @ qs) ((us @ [v]) @ filter (\<lambda>v. \<not> P v) ws)"
      by (rule Cons.IH) (use Cons.prems in \<open>simp_all add: vs k\<close>)
    then obtain H' l' qs where "delete_while_iterating j P (before ps) H l = Some (H', l')"
      "list_at H' l' (xs @ p # qs) (us @ v # filter (\<lambda>v. \<not> P v) ws)" by auto
    then show ?thesis using False listNext_before(2) [OF c] n by (simp add: k vs) blast
  qed
qed

text \<open>Copying: the value of the copy, and the two outcomes.\<close>

definition copied :: "'v adlist \<Rightarrow> 'v \<Rightarrow> 'v option" where
  "copied l v = (case l_dup l of None \<Rightarrow> Some v | Some f \<Rightarrow> f v)"

lemma dup_copied: "(case l_dup l of None \<Rightarrow> Some v | Some f \<Rightarrow> f v) = copied l v"
  by (simp add: copied_def)

lemma listAddNodeTail_dup: "listAddNodeTail H l p v = Some (H', l') \<Longrightarrow> l_dup l' = l_dup l"
  by (auto simp: listAddNodeTail_def Let_def split: if_splits bind_splits)

lemma listDup_loop_ok:
  assumes "linked (nodes H) b ps vs None" "list_at H copy cs us" "set cs \<inter> set ps = {}" "distinct qs"
    "\<forall>q \<in> set qs. nodes H q = None" "length ps \<le> length qs" "length ps < k"
  shows "\<exists>H'. (if \<forall>v \<in> set vs. copied copy v \<noteq> None
      then (\<exists>copy'. listDup_loop k qs (before ps) H copy = Some (H', Some copy') \<and>
        list_at H' copy' (cs @ take (length ps) qs) (us @ map (\<lambda>v. the (copied copy v)) vs) \<and>
        frame (set cs \<union> set qs) H H')
      else listDup_loop k qs (before ps) H copy = Some (H', None) \<and>
        nodes H' = (\<lambda>p. if p \<in> set cs then None else nodes H p))"
  using assms
proof (induction ps arbitrary: b vs cs us qs k H copy)
  case Nil
  then have "vs = []" by (cases vs) auto
  then show ?case using Nil by (cases k) (auto simp: listNext_before frame_def)
next
  case (Cons p ps)
  obtain v ws where vs: "vs = v # ws" using Cons.prems(1) by (cases vs) auto
  obtain j where k: "k = Suc j" using Cons.prems(7) by (cases k) auto
  obtain q rs where qs: "qs = q # rs" using Cons.prems(6) by (cases qs) auto
  have n: "nodes H p = Some \<lparr>n_prev = b, n_next = hd_or ps None, n_value = v\<rparr>" and c: "linked (nodes H) (Some p) ps ws None"
    using Cons.prems(1) by (simp_all add: vs)
  note nx = listNext_before(2) [OF Cons.prems(1)]
  show ?case
  proof (cases "copied copy v")
    case None
    then show ?thesis using listEmpty_ok [OF Cons.prems(2)] nx n by (auto simp: k vs dup_copied)
  next
    case (Some w)
    obtain H1 copy1 where a: "listAddNodeTail H copy q w = Some (H1, copy1)" "list_at H1 copy1 (cs @ [q]) (us @ [w])"
      "frame (insert q (set cs)) H H1" using listAddNodeTail_ok [OF Cons.prems(2), of q w] Cons.prems(5) by (auto simp: qs)
    have qp: "q \<notin> set (p # ps)" using linked_dom [OF Cons.prems(1), of q] Cons.prems(5) qs by auto
    have c1: "linked (nodes H1) (Some p) ps ws None" using linked_frame [OF a(3)] c Cons.prems(3) qp by (auto simp: inf_commute)
    have fresh: "\<forall>r \<in> set rs. nodes H1 r = None"
      using a(3) Cons.prems(2,4,5) linked_dom [OF list_atD(2) [OF Cons.prems(2)]] by (auto simp: frame_def qs) (metis option.distinct(1))
    have cp: "copied copy1 = copied copy" using listAddNodeTail_dup [OF a(1)] by (simp add: copied_def fun_eq_iff)
    have st: "listDup_loop k qs (before (p # ps)) H copy = listDup_loop j rs (before ps) H1 copy1"
      using Some nx n a(1) by (simp add: k qs dup_copied)
    have dis: "set (cs @ [q]) \<inter> set ps = {}" using Cons.prems(3) qp by auto
    have lens: "distinct rs" "length ps \<le> length rs" "length ps < j" using Cons.prems(4,6,7) by (simp_all add: qs k)
    have e: "cs @ take (length (p # ps)) qs = (cs @ [q]) @ take (length ps) rs"
      "us @ map (\<lambda>v. the (copied copy v)) vs = (us @ [w]) @ map (\<lambda>v. the (copied copy v)) ws"
      by (simp_all add: qs vs Some)
    have IH: "\<exists>H'. (if \<forall>v \<in> set ws. copied copy v \<noteq> None
      then (\<exists>copy'. listDup_loop k qs (before (p # ps)) H copy = Some (H', Some copy') \<and>
        list_at H' copy' (cs @ take (length (p # ps)) qs) (us @ map (\<lambda>v. the (copied copy v)) vs) \<and>
        frame (set (cs @ [q]) \<union> set rs) H1 H')
      else listDup_loop k qs (before (p # ps)) H copy = Some (H', None) \<and>
        nodes H' = (\<lambda>p. if p \<in> set (cs @ [q]) then None else nodes H1 p))"
      using Cons.IH [OF c1 a(2) dis lens(1) fresh lens(2,3)] unfolding st cp e .
    have f: "frame (set cs \<union> set qs) H H'" if "frame (set (cs @ [q]) \<union> set rs) H1 H'" for H'
      by (rule frame_trans [OF a(3) that]) (auto simp: qs)
    have nd: "(\<lambda>p. if p \<in> set (cs @ [q]) then None else nodes H1 p) = (\<lambda>p. if p \<in> set cs then None else nodes H p)"
      using a(3) Cons.prems(5) by (auto simp: fun_eq_iff frame_def qs)
    show ?thesis
    proof (cases "\<forall>v \<in> set ws. copied copy v \<noteq> None")
      case True
      then have t: "\<forall>v \<in> set vs. copied copy v \<noteq> None" using Some by (simp add: vs)
      show ?thesis using IH f unfolding if_P [OF True] if_P [OF t] by blast
    next
      case False
      then have t: "\<not> (\<forall>v \<in> set vs. copied copy v \<noteq> None)" by (auto simp: vs)
      show ?thesis using IH unfolding if_not_P [OF False] if_not_P [OF t] nd .
    qed
  qed
qed

section \<open>Sequences of calls\<close>

text \<open>
  Calls on one list; nodes are chosen by index. \<open>alloc\<close> gives the pointers that \<^verbatim>\<open>zmalloc\<close> returns: not
  allocated yet, whatever they are.
\<close>

datatype 'v list_call = Add_Head 'v | Add_Tail 'v | Insert_At int 'v bool | Delete_At int | Rotate_Tail | Rotate_Head | Value_At int

fun list_exec :: "('v store \<Rightarrow> ptr) \<Rightarrow> 'v store \<times> 'v adlist \<Rightarrow> 'v list_call \<Rightarrow> (('v store \<times> 'v adlist) \<times> 'v option) option" where
  "list_exec alloc (H, l) (Add_Head v) = map_option (\<lambda>s. (s, None)) (listAddNodeHead H l (alloc H) v)"
| "list_exec alloc (H, l) (Add_Tail v) = map_option (\<lambda>s. (s, None)) (listAddNodeTail H l (alloc H) v)"
| "list_exec alloc (H, l) (Insert_At i v after) =
     do {
       node \<leftarrow> listIndex H l i;
       case node of
         None \<Rightarrow> Some ((H, l), None)
       | Some p \<Rightarrow> map_option (\<lambda>s. (s, None)) (listInsertNode H l p (alloc H) v after)
     }"
| "list_exec alloc (H, l) (Delete_At i) =
     do {
       node \<leftarrow> listIndex H l i;
       case node of None \<Rightarrow> Some ((H, l), None) | Some p \<Rightarrow> map_option (\<lambda>s. (s, None)) (listDelNode H l p)
     }"
| "list_exec alloc (H, l) Rotate_Tail = map_option (\<lambda>s. (s, None)) (listRotateTailToHead H l)"
| "list_exec alloc (H, l) Rotate_Head = map_option (\<lambda>s. (s, None)) (listRotateHeadToTail H l)"
| "list_exec alloc (H, l) (Value_At i) =
     do {
       node \<leftarrow> listIndex H l i;
       case node of None \<Rightarrow> Some ((H, l), None) | Some p \<Rightarrow> do { n \<leftarrow> nodes H p; Some ((H, l), Some (n_value n)) }
     }"

fun list_calls :: "('v store \<Rightarrow> ptr) \<Rightarrow> 'v store \<times> 'v adlist \<Rightarrow> 'v list_call list \<Rightarrow> (('v store \<times> 'v adlist) \<times> 'v option list) option" where
  "list_calls alloc s [] = Some (s, [])"
| "list_calls alloc s (c # cs) =
     do { (s1, r) \<leftarrow> list_exec alloc s c; (s2, rs) \<leftarrow> list_calls alloc s1 cs; Some (s2, r # rs) }"

text \<open>The same calls on a list of values.\<close>

definition at_index :: "'v list \<Rightarrow> int \<Rightarrow> nat option" where
  "at_index vs i =
     (let j = (if i < 0 then int (length vs) + i else i) in if 0 \<le> j \<and> j < int (length vs) then Some (nat j) else None)"

fun list_spec :: "'v list \<Rightarrow> 'v list_call \<Rightarrow> 'v list \<times> 'v option" where
  "list_spec vs (Add_Head v) = (v # vs, None)"
| "list_spec vs (Add_Tail v) = (vs @ [v], None)"
| "list_spec vs (Insert_At i v after) =
     (case at_index vs i of
        None \<Rightarrow> vs
      | Some j \<Rightarrow> let k = (if after then Suc j else j) in take k vs @ v # drop k vs, None)"
| "list_spec vs (Delete_At i) = (case at_index vs i of None \<Rightarrow> vs | Some j \<Rightarrow> take j vs @ drop (Suc j) vs, None)"
| "list_spec vs Rotate_Tail = (if vs = [] then [] else last vs # butlast vs, None)"
| "list_spec vs Rotate_Head = (rotate1 vs, None)"
| "list_spec vs (Value_At i) = (vs, map_option ((!) vs) (at_index vs i))"

definition is_list :: "'v store \<times> 'v adlist \<Rightarrow> 'v list \<Rightarrow> bool" where
  "is_list s vs \<longleftrightarrow> (case s of (H, l) \<Rightarrow> finite (dom (nodes H)) \<and> (\<exists>ps. list_at H l ps vs))"

lemma finite_frame: "finite (dom (nodes H)) \<Longrightarrow> frame A H H' \<Longrightarrow> finite A \<Longrightarrow> finite (dom (nodes H'))"
  by (rule finite_subset [of _ "dom (nodes H) \<union> A"]) (auto simp: frame_def dom_def)

lemma index_split:
  assumes "list_at H l ps vs" "at_index vs i = Some j"
  obtains xs p ys us v ws where "ps = xs @ p # ys" "vs = us @ v # ws" "length us = length xs" "length xs = j"
    "listIndex H l i = Some (Some p)" "nodes H p = Some \<lparr>n_prev = last_or None xs, n_next = hd_or ys None, n_value = v\<rparr>"
proof -
  have len: "length vs = length ps" by (rule list_atD(6) [OF assms(1)])
  have j: "j < length ps" "listIndex H l i = Some (Some (ps ! j))"
    using assms(2) listIndex_ok [OF assms(1), of i] len by (auto simp: at_index_def Let_def split: if_splits)
  have ps: "ps = take j ps @ ps ! j # drop (Suc j) ps" by (rule id_take_nth_drop [OF j(1)])
  have vs: "vs = take j vs @ vs ! j # drop (Suc j) vs" using j(1) len by (intro id_take_nth_drop) simp
  have c: "linked (nodes H) None (take j ps @ ps ! j # drop (Suc j) ps) (take j vs @ vs ! j # drop (Suc j) vs) None"
    using list_atD(2) [OF assms(1)] ps vs by simp
  have "nodes H (ps ! j) = Some \<lparr>n_prev = last_or None (take j ps), n_next = hd_or (drop (Suc j) ps) None, n_value = vs ! j\<rparr>"
    using c j(1) len by (simp add: linked_append)
  then show ?thesis using that [OF ps vs] j len by simp
qed

lemma index_None:
  assumes "list_at H l ps vs" "at_index vs i = None" shows "listIndex H l i = Some None"
  using assms(2) listIndex_ok [OF assms(1), of i] list_atD(6) [OF assms(1)] by (auto simp: at_index_def Let_def split: if_splits)

lemma list_exec_ok:
  assumes al: "\<And>H. finite (dom (nodes H)) \<Longrightarrow> nodes H (alloc H) = None" and s: "is_list s vs"
  shows "\<exists>s'. list_exec alloc s c = Some (s', snd (list_spec vs c)) \<and> is_list s' (fst (list_spec vs c))"
proof -
  obtain H l ps where hl: "s = (H, l)" "finite (dom (nodes H))" "list_at H l ps vs" using s by (auto simp: is_list_def)
  note fresh = al [OF hl(2)] and L = hl(3)
  have fin: "frame (insert p (set qs)) H H' \<Longrightarrow> finite (dom (nodes H'))" "frame (set qs) H H' \<Longrightarrow> finite (dom (nodes H'))" for p qs H'
    using finite_frame [OF hl(2)] by auto
  show ?thesis
  proof (cases c)
    case (Add_Head v)
    then show ?thesis using listAddNodeHead_ok [OF L fresh, of v] fin by (fastforce simp: hl(1) is_list_def)
  next
    case (Add_Tail v)
    then show ?thesis using listAddNodeTail_ok [OF L fresh, of v] fin by (fastforce simp: hl(1) is_list_def)
  next
    case (Insert_At i v a)
    show ?thesis
    proof (cases "at_index vs i")
      case None
      then show ?thesis using index_None [OF L None] s by (simp add: Insert_At hl(1))
    next
      case (Some j)
      from L Some obtain xs p ys us w ws where x: "ps = xs @ p # ys" "vs = us @ w # ws" "length us = length xs" "length xs = j"
        "listIndex H l i = Some (Some p)" by (rule index_split)
      have "take j vs = us" "drop j vs = w # ws" "take (Suc j) vs = us @ [w]" "drop (Suc j) vs = ws" using x(2-4) by simp_all
      then show ?thesis using listInsertNode_ok [OF L [unfolded x(1,2)] x(3) fresh, of v a] fin(1) [of "alloc H" "xs @ p # ys"] x(5) Some
        by (cases a) (fastforce simp: Insert_At hl(1) is_list_def Let_def)+
    qed
  next
    case (Delete_At i)
    show ?thesis
    proof (cases "at_index vs i")
      case None
      then show ?thesis using index_None [OF L None] s by (simp add: Delete_At hl(1))
    next
      case (Some j)
      from L Some obtain xs p ys us w ws where x: "ps = xs @ p # ys" "vs = us @ w # ws" "length us = length xs" "length xs = j"
        "listIndex H l i = Some (Some p)" by (rule index_split)
      have "take j vs = us" "drop (Suc j) vs = ws" using x(2-4) by simp_all
      then show ?thesis using listDelNode_ok [OF L [unfolded x(1,2)] x(3)] fin(2) [of "xs @ p # ys"] x(5) Some
        by (fastforce simp: Delete_At hl(1) is_list_def)
    qed
  next
    case Rotate_Tail
    show ?thesis
    proof (cases vs rule: rev_cases)
      case Nil
      then show ?thesis using list_atD(5,6) [OF L] s by (simp add: Rotate_Tail hl(1) listRotateTailToHead_def)
    next
      case (snoc us w)
      then obtain qs q where "ps = qs @ [q]" using list_atD(6) [OF L] by (cases ps rule: rev_cases) auto
      then show ?thesis using listRotateTailToHead_ok [of H l qs q us w] L fin(2) [of ps] snoc
        by (fastforce simp: Rotate_Tail hl(1) is_list_def)
    qed
  next
    case Rotate_Head
    show ?thesis
    proof (cases vs)
      case Nil
      then show ?thesis using list_atD(5,6) [OF L] s by (simp add: Rotate_Head hl(1) listRotateHeadToTail_def)
    next
      case (Cons w us)
      then obtain q qs where "ps = q # qs" using list_atD(6) [OF L] by (cases ps) auto
      then show ?thesis using listRotateHeadToTail_ok [of H l q qs w us] L fin(2) [of ps] Cons
        by (fastforce simp: Rotate_Head hl(1) is_list_def)
    qed
  next
    case (Value_At i)
    show ?thesis
    proof (cases "at_index vs i")
      case None
      then show ?thesis using index_None [OF L None] s by (simp add: Value_At hl(1))
    next
      case (Some j)
      from L Some obtain xs p ys us w ws where x: "vs = us @ w # ws" "length us = length xs" "length xs = j"
        "listIndex H l i = Some (Some p)" "nodes H p = Some \<lparr>n_prev = last_or None xs, n_next = hd_or ys None, n_value = w\<rparr>"
        by (rule index_split)
      then have "vs ! j = w" by (simp add: nth_append)
      then show ?thesis using x(4,5) Some s by (simp add: Value_At hl(1))
    qed
  qed
qed

section \<open>Properties\<close>

text \<open>An allocator for the examples: one more than every pointer in use.\<close>

definition next_ptr :: "'v store \<Rightarrow> ptr" where
  "next_ptr H = Suc (Max (insert 0 (dom (nodes H))))"

lemma next_ptr_fresh:
  assumes "finite (dom (nodes H))" shows "nodes H (next_ptr H) = None"
proof (rule ccontr)
  assume "nodes H (next_ptr H) \<noteq> None"
  then have "next_ptr H \<le> Max (insert 0 (dom (nodes H)))" using assms by (intro Max_ge) auto
  then show False by (simp add: next_ptr_def)
qed

definition empty_store :: "'v store" where
  "empty_store = \<lparr>nodes = Map.empty, freed = []\<rparr>"

text \<open>
  Claim C13. Whatever sequence of insertions at either end and before or after any node, deletions, rotations
  and lookups by index is applied to a new list, no null or dangling pointer is followed and every
  call acts as it does on a list of values, whichever unused pointers the allocator returns. The links
  in both directions, the two ends and the length stay consistent.
\<close>

theorem adlist_simulates_list:
  assumes "\<And>H. finite (dom (nodes H)) \<Longrightarrow> nodes H (alloc H) = None" "finite (dom (nodes H0))"
  shows "\<exists>s. list_calls alloc (H0, listCreate) cs = Some (s, snd (run_ops list_spec [] cs)) \<and> is_list s (fst (run_ops list_spec [] cs))"
proof -
  have "is_list s vs \<Longrightarrow> \<exists>s'. list_calls alloc s cs = Some (s', snd (run_ops list_spec vs cs)) \<and>
      is_list s' (fst (run_ops list_spec vs cs))" for s vs
  proof (induction cs arbitrary: s vs)
    case (Cons c cs)
    obtain s1 where s1: "list_exec alloc s c = Some (s1, snd (list_spec vs c))" "is_list s1 (fst (list_spec vs c))"
      using list_exec_ok [OF assms(1) Cons.prems] by blast
    from Cons.IH [OF s1(2)] show ?case using s1(1) by (auto split: prod.splits)
  qed simp
  moreover have "is_list (H0, listCreate) []" using assms(2) listCreate_ok by (auto simp: is_list_def)
  ultimately show ?thesis by blast
qed

theorem adlist_simulates_list_witness:
  "\<exists>s. list_calls next_ptr (empty_store, listCreate) [Add_Tail (1 :: nat), Add_Head 2, Insert_At (- 1) 3 False, Rotate_Tail, Delete_At 1, Value_At 1] =
     Some (s, [None, None, None, None, None, Some 3]) \<and> is_list s [1, 3]"
  using adlist_simulates_list [OF next_ptr_fresh, of empty_store "[Add_Tail (1 :: nat), Add_Head 2, Insert_At (- 1) 3 False, Rotate_Tail, Delete_At 1, Value_At 1]"]
  by (auto simp: empty_store_def at_index_def)

text \<open>
  Claim C34. Iterating visits the nodes of the list in order, forwards and backwards, and ends. Deleting the node
  that was just returned is safe: a loop that deletes during the iteration leaves exactly the other
  values, and follows no freed pointer. \<^verbatim>\<open>listSearchKey\<close> returns the first node that matches.
\<close>

theorem adlist_iteration:
  assumes "list_at H l ps vs"
  shows "listRewind l = before ps \<and> listRewindTail l = behind ps \<and>
    (\<forall>xs p ys. ps = xs @ p # ys \<longrightarrow>
       listNext H (before (p # ys)) = Some (before ys, Some p) \<and> listNext H (behind (xs @ [p])) = Some (behind xs, Some p)) \<and>
    listNext H (before []) = Some (before [], None) \<and> listNext H (behind []) = Some (behind [], None) \<and>
    (\<exists>H' l' qs. delete_while_iterating (length ps + 1) P (listRewind l) H l = Some (H', l') \<and> list_at H' l' qs (filter (\<lambda>v. \<not> P v) vs)) \<and>
    listSearchKey H l key = Some (map_option fst (find (\<lambda>(p, v). matches l key v) (zip ps vs)))"
proof (intro conjI allI impI)
  note d = list_atD(2) [OF assms]
  show "listNext H (before (p # ys)) = Some (before ys, Some p)" if ps: "ps = xs @ p # ys" for xs p ys
  proof -
    obtain us v ws where "length us = length xs" "vs = us @ v # ws" using d unfolding ps by (rule linked_split)
    then have "linked (nodes H) (last_or None xs) (p # ys) (v # ws) None" using d by (simp add: ps linked_append)
    then show ?thesis by (rule listNext_before(2))
  qed
  show "listNext H (behind (xs @ [p])) = Some (behind xs, Some p)" if ps: "ps = xs @ p # ys" for xs p ys
  proof -
    obtain us v ws where "length us = length xs" "vs = us @ v # ws" using d unfolding ps by (rule linked_split)
    then have "linked (nodes H) None (xs @ [p]) (us @ [v]) (hd_or ys None)" using d by (simp add: ps linked_append)
    then show ?thesis by (rule listNext_behind(2))
  qed
  show "\<exists>H' l' qs. delete_while_iterating (length ps + 1) P (listRewind l) H l = Some (H', l') \<and> list_at H' l' qs (filter (\<lambda>v. \<not> P v) vs)"
    using delete_while_iterating_ok [of H l "[]" ps "[]" vs "length ps + 1" P] assms rewind(1) [OF assms] by simp
qed (rule rewind(1,2) [OF assms] listNext_before(1) listNext_behind(1) listSearchKey_ok [OF assms])+

definition ex_list :: "nat store \<times> nat adlist" where
  "ex_list = (empty_store\<lparr>nodes := [1 \<mapsto> \<lparr>n_prev = None, n_next = Some 2, n_value = 7\<rparr>, 2 \<mapsto> \<lparr>n_prev = Some 1, n_next = None, n_value = 8\<rparr>]\<rparr>,
     listCreate\<lparr>l_head := Some 1, l_tail := Some 2, l_len := 2\<rparr>)"

lemma ex_list_at: "list_at (fst ex_list) (snd ex_list) [1, 2] [7, 8]"
  by (simp add: ex_list_def list_at_def listCreate_def empty_store_def)

theorem adlist_iteration_witness:
  "\<exists>H' l' qs. delete_while_iterating 3 (\<lambda>v. v = 7) (listRewind (snd ex_list)) (fst ex_list) (snd ex_list) = Some (H', l') \<and> list_at H' l' qs [8]"
  using adlist_iteration [OF ex_list_at, of "\<lambda>v. v = 7" 7] by (auto simp: numeral_3_eq_3)

text \<open>
  Claim C35. \<^verbatim>\<open>listJoin\<close> moves all nodes of one list behind those of another and leaves an empty list. \<^verbatim>\<open>listDup\<close>
  makes a list of the copied values in new nodes, or, when copying a value fails, frees the nodes it
  made; the original list is unchanged in both cases. \<^verbatim>\<open>listEmpty\<close> frees exactly the nodes of the list and
  passes every value once to the free method.
\<close>

theorem adlist_join_dup_empty:
  assumes l: "list_at H l ps vs" and k: "list_at H oth qs ws" and dis: "set ps \<inter> set qs = {}"
    and new: "distinct rs" "\<forall>r \<in> set rs. nodes H r = None" "length ps \<le> length rs"
  shows "(\<exists>H' l' oth'. listJoin H l oth = Some (H', l', oth') \<and> list_at H' l' (ps @ qs) (vs @ ws) \<and> list_at H' oth' [] []) \<and>
    (\<exists>H'. list_at H' l ps vs \<and>
       (if \<forall>v \<in> set vs. copied l v \<noteq> None
        then (\<exists>copy. listDup H l rs = Some (H', Some copy) \<and> list_at H' copy (take (length ps) rs) (map (\<lambda>v. the (copied l v)) vs))
        else listDup H l rs = Some (H', None) \<and> nodes H' = nodes H)) \<and>
    (\<exists>H' l'. listEmpty H l = Some (H', l') \<and> list_at H' l' [] [] \<and>
       nodes H' = (\<lambda>p. if p \<in> set ps then None else nodes H p) \<and> freed H' = freed H @ (if l_free l then vs else []))"
proof (intro conjI)
  let ?copy = "listCreate\<lparr>l_dup := l_dup l, l_free := l_free l, l_match := l_match l\<rparr>"
  note d = list_atD [OF l]
  have c: "list_at H ?copy [] []" by (simp add: list_at_def listCreate_def)
  have cp: "copied ?copy = copied l" by (simp add: copied_def fun_eq_iff)
  define r where "r = listDup_loop (length ps + 1) rs (before ps) H ?copy"
  have u: "listDup H l rs = r" by (simp only: listDup_def d(5) rewind [OF l] r_def)
  have "set rs \<inter> set ps = {}" using new(2) linked_dom [OF d(2)] by (metis disjoint_iff)
  then have same: "list_at H' l ps vs" if "frame (set rs) H H'" for H' using frame_list_at [OF that l] by auto
  show "\<exists>H'. list_at H' l ps vs \<and>
       (if \<forall>v \<in> set vs. copied l v \<noteq> None
        then (\<exists>copy. listDup H l rs = Some (H', Some copy) \<and> list_at H' copy (take (length ps) rs) (map (\<lambda>v. the (copied l v)) vs))
        else listDup H l rs = Some (H', None) \<and> nodes H' = nodes H)"
  proof (cases "\<forall>v \<in> set vs. copied l v \<noteq> None")
    case True
    show ?thesis using listDup_loop_ok [OF d(2) c _ new(1,2,3), of "length ps + 1"] same
      unfolding u cp r_def [symmetric] if_P [OF True] by auto
  next
    case False
    obtain H' where "r = Some (H', None)" "nodes H' = nodes H"
      using listDup_loop_ok [OF d(2) c _ new(1,2,3), of "length ps + 1"] unfolding cp r_def [symmetric] if_not_P [OF False] by auto
    then show ?thesis using same [of H'] unfolding u if_not_P [OF False] by (auto simp: frame_def)
  qed
  show "\<exists>H' l' oth'. listJoin H l oth = Some (H', l', oth') \<and> list_at H' l' (ps @ qs) (vs @ ws) \<and> list_at H' oth' [] []"
    using listJoin_ok [OF l k dis] by blast
qed (rule listEmpty_ok [OF l])

theorem adlist_join_dup_empty_witness:
  "\<exists>H' copy. listDup (fst ex_list) (snd ex_list) [3, 4] = Some (H', Some copy) \<and> list_at H' copy [3, 4] [7, 8]"
  using adlist_join_dup_empty [OF ex_list_at listCreate_ok, of "[3, 4]"]
  by (auto simp: ex_list_def empty_store_def copied_def listCreate_def)

end
