(* ===== verification/String_Util.thy ===== *)
theory String_Util
  imports Decimal
begin

text \<open>
  String functions of \<^verbatim>\<open>util.c\<close>: the glob-style matching of \<^verbatim>\<open>stringmatchlen\<close>, and memory sizes with a unit
  as \<^verbatim>\<open>memtoull\<close> reads them.

  A pointer into a string with the length that is left is the list of the bytes that are left. The
  byte behind a pattern is the null terminator of a string object, so reading there gives 0. Whether
  \<^verbatim>\<open>char\<close> is signed, which decides on the order of bytes above 127 in a range, is a parameter.
\<close>

section \<open>Model of stringmatchlen\<close>

definition char_int :: "bool \<Rightarrow> byte \<Rightarrow> int" where
  "char_int sg b = (if sg then sint b else uint b)"

definition c_tolower :: "int \<Rightarrow> int" where
  "c_tolower c = (if 65 \<le> c \<and> c \<le> 90 then c + 32 else c)"

text \<open>The byte at an offset from the pattern pointer.\<close>

definition pat_at :: "byte list \<Rightarrow> nat \<Rightarrow> byte" where
  "pat_at p i = (if i < length p then p ! i else 0)"

definition same_char :: "bool \<Rightarrow> bool \<Rightarrow> byte \<Rightarrow> byte \<Rightarrow> bool" where
  "same_char sg nocase a b =
     (if \<not> nocase then a = b else c_tolower (char_int sg a) = c_tolower (char_int sg b))"

definition in_range :: "bool \<Rightarrow> bool \<Rightarrow> byte \<Rightarrow> byte \<Rightarrow> byte \<Rightarrow> bool" where
  "in_range sg nocase a b x =
     (let lo = min (char_int sg a) (char_int sg b); hi = max (char_int sg a) (char_int sg b);
          f = (if nocase then c_tolower else id)
      in f (char_int sg x) \<ge> f lo \<and> f (char_int sg x) \<le> f hi)"

text \<open>
  The loop over a class behind its opening bracket: whether \<open>c\<close>, the first byte of the string, matches,
  and the pattern behind the class. At the end of the pattern the loop steps back, so that the step
  after the class ends at the end again.
\<close>

function match_class :: "bool \<Rightarrow> bool \<Rightarrow> byte \<Rightarrow> byte list \<Rightarrow> bool \<Rightarrow> bool \<times> byte list" where
  "match_class sg nocase c p match =
     (if pat_at p 0 = ch (CHR 0x5C) \<and> length p \<ge> 2 then
        match_class sg nocase c (drop 2 p) (match \<or> pat_at p 1 = c)
      else if pat_at p 0 = ch CHR '']'' then (match, drop 1 p)
      else if p = [] then (match, [])
      else if length p \<ge> 3 \<and> pat_at p 1 = ch CHR ''-'' then
        match_class sg nocase c (drop 3 p) (match \<or> in_range sg nocase (pat_at p 0) (pat_at p 2) c)
      else match_class sg nocase c (drop 1 p) (match \<or> same_char sg nocase (pat_at p 0) c))"
  by pat_completeness auto
termination by (relation "measure (\<lambda>(sg, nocase, c, p, match). length p)") auto

declare match_class.simps [simp del]

lemma match_class_length: "length (snd (match_class sg nocase c p match)) \<le> length p"
proof (induction sg nocase c p match rule: match_class.induct)
  case (1 sg nocase c p match)
  show ?case by (subst match_class.simps) (use 1 in \<open>auto split: if_splits\<close>)
qed

text \<open>Skipping stars, as long as the next byte of the pattern is one.\<close>

fun skip_stars :: "byte list \<Rightarrow> byte list" where
  "skip_stars (a # b # p) = (if b = ch CHR ''*'' then skip_stars (b # p) else a # b # p)"
| "skip_stars p = p"

lemma skip_stars_length: "length (skip_stars p) \<le> length p"
  by (induction p rule: skip_stars.induct) auto

text \<open>
  One round of the loop, except for a star: the pattern behind what was matched, or \<open>None\<close> for no match.
\<close>

definition match_one :: "bool \<Rightarrow> bool \<Rightarrow> byte list \<Rightarrow> byte \<Rightarrow> byte list option" where
  "match_one sg nocase p c =
     (if hd p = ch CHR ''?'' then Some (drop 1 p)
      else if hd p = ch CHR ''['' then
        (let p1 = drop 1 p; neg = (pat_at p1 0 = ch CHR ''^''); p2 = (if neg then drop 1 p1 else p1) in
         case match_class sg nocase c p2 False of
           (match, rest) \<Rightarrow> if match \<noteq> neg then Some rest else None)
      else
        (let p1 = (if hd p = ch (CHR 0x5C) \<and> length p \<ge> 2 then drop 1 p else p) in
         if same_char sg nocase (pat_at p1 0) c then Some (drop 1 p1) else None))"

lemma match_one_length: "match_one sg nocase p c = Some rest \<Longrightarrow> p \<noteq> [] \<Longrightarrow> length rest < length p"
proof (cases p)
  case (Cons a q)
  assume "match_one sg nocase p c = Some rest"
  then show ?thesis
    using match_class_length [of sg nocase c q False] match_class_length [of sg nocase c "drop 1 q" False]
    by (auto simp: Cons match_one_def Let_def split: if_splits prod.splits)
qed simp

text \<open>\<^verbatim>\<open>stringmatchlen\<close>, and the loop over the string after a star.\<close>

function (sequential) stringmatchlen :: "bool \<Rightarrow> bool \<Rightarrow> byte list \<Rightarrow> byte list \<Rightarrow> bool"
  and star_loop :: "bool \<Rightarrow> bool \<Rightarrow> byte list \<Rightarrow> byte list \<Rightarrow> bool" where
  "stringmatchlen sg nocase [] s = (s = [])"
| "stringmatchlen sg nocase p [] = False"
| "stringmatchlen sg nocase p (c # s) =
     (if hd p = ch CHR ''*'' then
        (let p1 = skip_stars p in
         if length p1 = 1 then True else star_loop sg nocase (drop 1 p1) (c # s))
      else
        (case match_one sg nocase p c of
           None \<Rightarrow> False
         | Some rest \<Rightarrow>
             if s = [] then dropWhile (\<lambda>b. b = ch CHR ''*'') rest = []
             else stringmatchlen sg nocase rest s))"
| "star_loop sg nocase p [] = False"
| "star_loop sg nocase p (c # s) = (stringmatchlen sg nocase p (c # s) \<or> star_loop sg nocase p s)"
  by pat_completeness auto
termination
proof (relation "inv_image (less_than <*lex*> less_than <*lex*> less_than)
    (\<lambda>x. case x of Inl (sg, nc, p, s) \<Rightarrow> (length p, length s, 0) | Inr (sg, nc, p, s) \<Rightarrow> (length p, length s, 1))", goal_cases)
  case (2 sg nocase v va c s x)
  then show ?case using skip_stars_length [of "v # va"] by auto
qed (auto dest: match_one_length)

text \<open>\<^verbatim>\<open>stringmatch\<close>, on C strings.\<close>

definition stringmatch :: "bool \<Rightarrow> byte list \<Rightarrow> byte list \<Rightarrow> bool \<Rightarrow> bool" where
  "stringmatch sg pattern str nocase = stringmatchlen sg nocase pattern str"

section \<open>Reference: glob patterns\<close>

text \<open>
  The meaning of a pattern: a list of tokens. A star stands for any string, a question mark for any
  byte, a class for one of its items, or none of them when negated, where a range has its ends in
  either order. A backslash takes the next byte literally.
\<close>

datatype class_item = Escaped byte | Span byte byte | Single byte

datatype glob = Star | AnyByte | Lit byte | Class bool "class_item list"

function parse_class :: "byte list \<Rightarrow> class_item list \<times> byte list" where
  "parse_class p =
     (case p of
        [] \<Rightarrow> ([], [])
      | a # q \<Rightarrow>
          if a = ch (CHR 0x5C) \<and> q \<noteq> [] then apfst ((#) (Escaped (hd q))) (parse_class (tl q))
          else if a = ch CHR '']'' then ([], q)
          else if length q \<ge> 2 \<and> hd q = ch CHR ''-'' then apfst ((#) (Span a (q ! 1))) (parse_class (drop 2 q))
          else apfst ((#) (Single a)) (parse_class q))"
  by pat_completeness auto
termination by (relation "measure length") auto

declare parse_class.simps [simp del]

lemma parse_class_length: "length (snd (parse_class p)) \<le> length p"
proof (induction p rule: parse_class.induct)
  case (1 p)
  show ?case by (subst parse_class.simps) (use 1 in \<open>auto split: list.split\<close>)
qed

function parse_glob :: "byte list \<Rightarrow> glob list" where
  "parse_glob p =
     (case p of
        [] \<Rightarrow> []
      | a # q \<Rightarrow>
          if a = ch CHR ''*'' then Star # parse_glob q
          else if a = ch CHR ''?'' then AnyByte # parse_glob q
          else if a = ch CHR ''['' then
            (let neg = (q \<noteq> [] \<and> hd q = ch CHR ''^''); (items, rest) = parse_class (if neg then tl q else q)
             in Class neg items # parse_glob rest)
          else if a = ch (CHR 0x5C) \<and> q \<noteq> [] then Lit (hd q) # parse_glob (tl q)
          else Lit a # parse_glob q)"
  by pat_completeness auto
termination
proof (relation "measure length", goal_cases)
  case (4 p a q neg r items rest)
  then have "rest = snd (parse_class (if neg then tl q else q))" by (metis snd_conv)
  then have "length rest \<le> length q" using parse_class_length [of "tl q"] parse_class_length [of q] by auto
  then show ?case using 4 by simp
qed auto

declare parse_glob.simps [simp del]

text \<open>
  Bytes as characters, independent of the matcher: their order, and the letters that are equal without
  regard to case.
\<close>

definition char_val :: "bool \<Rightarrow> byte \<Rightarrow> int" where
  "char_val sg b = (if sg \<and> uint b \<ge> 128 then uint b - 256 else uint b)"

definition letters :: "(byte \<times> byte) list" where
  "letters = zip (map ch ''ABCDEFGHIJKLMNOPQRSTUVWXYZ'') (map ch ''abcdefghijklmnopqrstuvwxyz'')"

definition fold_case :: "bool \<Rightarrow> byte \<Rightarrow> byte" where
  "fold_case nocase b = (if nocase then case map_of letters b of Some l \<Rightarrow> l | None \<Rightarrow> b else b)"

definition between :: "bool \<Rightarrow> byte \<Rightarrow> byte \<Rightarrow> byte \<Rightarrow> bool" where
  "between sg lo hi c \<longleftrightarrow> char_val sg lo \<le> char_val sg c \<and> char_val sg c \<le> char_val sg hi"

text \<open>
  When case matters this is the usual reading of a class. Without regard to case, single bytes are
  compared as letters; an escaped byte is still compared exactly, and the ends of a range are put in
  order first and then folded.
\<close>

fun item_matches :: "bool \<Rightarrow> bool \<Rightarrow> byte \<Rightarrow> class_item \<Rightarrow> bool" where
  "item_matches sg nocase c (Escaped b) = (c = b)"
| "item_matches sg nocase c (Span a b) =
     (let (lo, hi) = (if char_val sg a \<le> char_val sg b then (a, b) else (b, a))
      in between sg (fold_case nocase lo) (fold_case nocase hi) (fold_case nocase c))"
| "item_matches sg nocase c (Single b) = (fold_case nocase c = fold_case nocase b)"

fun token_matches :: "bool \<Rightarrow> bool \<Rightarrow> byte \<Rightarrow> glob \<Rightarrow> bool" where
  "token_matches sg nocase c Star = True"
| "token_matches sg nocase c AnyByte = True"
| "token_matches sg nocase c (Lit b) = (fold_case nocase c = fold_case nocase b)"
| "token_matches sg nocase c (Class neg items) = ((\<exists>i \<in> set items. item_matches sg nocase c i) \<noteq> neg)"

fun glob_matches :: "bool \<Rightarrow> bool \<Rightarrow> glob list \<Rightarrow> byte list \<Rightarrow> bool" where
  "glob_matches sg nocase [] s = (s = [])"
| "glob_matches sg nocase (Star # ts) s = (\<exists>k \<le> length s. glob_matches sg nocase ts (drop k s))"
| "glob_matches sg nocase (t # ts) s = (s \<noteq> [] \<and> token_matches sg nocase (hd s) t \<and> glob_matches sg nocase ts (tl s))"

section \<open>The matcher implements the reference\<close>

lemma uint_byte: "0 \<le> uint b" "uint b < 256" for b :: byte
  using uint_lt2p [of b] by simp_all

lemma wrap_byte: "0 \<le> x \<Longrightarrow> x < 256 \<Longrightarrow> (x + 128) mod 256 - 128 = (if x \<ge> 128 then x - 256 else x)" for x :: int
proof (cases "x \<ge> 128")
  case True
  assume "0 \<le> x" "x < 256"
  then have "(x - 128 + 256) mod 256 = x - 128" using True unfolding mod_add_self2 by (intro mod_pos_pos_trivial) simp_all
  moreover have "x - 128 + 256 = x + 128" by simp
  ultimately show ?thesis using True by (simp only:) simp
qed simp

lemma char_int_val: "char_int sg b = char_val sg b"
proof -
  have "sint b = (uint b + 128) mod 256 - 128" by (simp add: sint_uint signed_take_bit_eq_take_bit_shift take_bit_eq_mod)
  then show ?thesis unfolding wrap_byte [OF uint_byte] by (simp add: char_int_def char_val_def)
qed

lemma signed_inject:
  "0 \<le> x \<Longrightarrow> x < 256 \<Longrightarrow> 0 \<le> y \<Longrightarrow> y < 256 \<Longrightarrow>
   (if sg \<and> x \<ge> 128 then x - 256 else x) = (if sg \<and> y \<ge> 128 then y - 256 else y) \<longleftrightarrow> x = y" for x y :: int
  by auto

lemma char_val_inject: "char_val sg a = char_val sg b \<longleftrightarrow> a = b"
  unfolding char_val_def signed_inject [OF uint_byte uint_byte] by (simp add: word_uint_eq_iff)

lemma upper_cases: "65 \<le> uint b \<Longrightarrow> uint b \<le> 90 \<Longrightarrow> b \<in> set (map fst letters)" for b :: byte
proof -
  assume "65 \<le> uint b" "uint b \<le> 90"
  then have "uint b \<in> set [65..90]" unfolding set_upto atLeastAtMost_iff by blast
  then have "word_of_int (uint b) \<in> set (map word_of_int [65..90] :: byte list)" unfolding set_map by (rule imageI)
  also have "map word_of_int [65..90] = map fst letters" by code_simp
  finally show ?thesis by simp
qed

lemma fold_case_val: "char_val sg (fold_case True b) = c_tolower (char_val sg b)"
proof (cases "65 \<le> uint b \<and> uint b \<le> 90")
  case True
  then obtain l where l: "(b, l) \<in> set letters" using upper_cases [of b] by auto
  have "list_all (\<lambda>(x, y). fold_case True x = y \<and> uint y = uint x + 32) letters" by code_simp
  then have "fold_case True b = l" "uint l = uint b + 32" using l by (auto simp: list_all_iff)
  then show ?thesis using True by (simp add: char_val_def c_tolower_def)
next
  case False
  have "list_all (\<lambda>x. 65 \<le> uint x \<and> uint x \<le> 90) (map fst letters)" by code_simp
  then have "map_of letters b = None" using False by (auto simp: map_of_eq_None_iff list_all_iff)
  then show ?thesis using False uint_byte(2) [of b] by (auto simp: fold_case_def char_val_def c_tolower_def)
qed

lemma same_char_fold: "same_char sg nocase a b \<longleftrightarrow> fold_case nocase b = fold_case nocase a"
proof (cases nocase)
  case True
  then show ?thesis using fold_case_val [of sg a] fold_case_val [of sg b] char_val_inject [of sg "fold_case True b" "fold_case True a"]
    by (auto simp: same_char_def char_int_val)
qed (auto simp: same_char_def fold_case_def)

lemma in_range_span: "in_range sg nocase a b c \<longleftrightarrow> item_matches sg nocase c (Span a b)"
  using fold_case_val [of sg a] fold_case_val [of sg b] fold_case_val [of sg c]
  by (cases nocase)
    (auto simp: in_range_def char_int_val between_def Let_def min_def max_def, auto simp: fold_case_def)

lemma match_class_Cons:
  "match_class sg nocase c (a # q) m =
     (if a = ch (CHR 0x5C) \<and> q \<noteq> [] then match_class sg nocase c (tl q) (m \<or> hd q = c)
      else if a = ch CHR '']'' then (m, q)
      else if length q \<ge> 2 \<and> hd q = ch CHR ''-'' then match_class sg nocase c (drop 2 q) (m \<or> in_range sg nocase a (q ! 1) c)
      else match_class sg nocase c q (m \<or> same_char sg nocase a c))"
proof -
  consider "q = []" | b where "q = [b]" | b d r where "q = b # d # r" by (metis list.exhaust)
  then show ?thesis by cases (subst match_class.simps, simp add: pat_at_def numeral_2_eq_2 numeral_3_eq_3)+
qed

lemma match_class_parse:
  "match_class sg nocase c p m = (m \<or> (\<exists>i \<in> set (fst (parse_class p)). item_matches sg nocase c i), snd (parse_class p))"
proof (induction p arbitrary: m rule: parse_class.induct)
  case (1 p)
  show ?case
  proof (cases p)
    case Nil
    then show ?thesis by (simp add: match_class.simps [of _ _ _ "[]"] parse_class.simps [of "[]"] pat_at_def)
  next
    case (Cons a q)
    have "length q \<ge> 2 \<Longrightarrow> q \<noteq> []" by auto
    then show ?thesis unfolding Cons match_class_Cons
      by (subst (1 2) parse_class.simps) (use 1 [OF Cons] in \<open>auto simp: in_range_span same_char_fold simp del: drop_Suc_Cons item_matches.simps(2)\<close>)
  qed
qed

lemma parse_glob_Nil [simp]: "parse_glob [] = []"
  by (simp add: parse_glob.simps)

lemma parse_glob_star: "parse_glob (ch CHR ''*'' # q) = Star # parse_glob q"
  by (simp add: parse_glob.simps [of "_ # _"])

text \<open>What one round of the loop does with the first token.\<close>

lemma match_one_token:
  assumes "a \<noteq> ch CHR ''*''"
  obtains t rest where "t \<noteq> Star" "parse_glob (a # q) = t # parse_glob rest"
    "\<And>c. match_one sg nocase (a # q) c = (if token_matches sg nocase c t then Some rest else None)"
proof -
  consider "a = ch CHR ''?''" | "a = ch CHR ''[''" | "a = ch (CHR 0x5C)" "q \<noteq> []"
    | "a \<noteq> ch CHR ''?''" "a \<noteq> ch CHR ''[''" "a \<noteq> ch (CHR 0x5C) \<or> q = []" by blast
  then show ?thesis
  proof cases
    case 1
    then show ?thesis by (intro that [of AnyByte q]) (simp_all add: parse_glob.simps [of "_ # _"] match_one_def)
  next
    case 2
    define neg where "neg \<longleftrightarrow> q \<noteq> [] \<and> hd q = ch CHR ''^''"
    define q1 where "q1 = (if neg then tl q else q)"
    have p: "parse_glob (a # q) = Class neg (fst (parse_class q1)) # parse_glob (snd (parse_class q1))"
      using 2 by (simp add: parse_glob.simps [of "_ # _"] neg_def q1_def split: prod.split)
    have n: "pat_at q 0 = ch CHR ''^'' \<longleftrightarrow> neg" "(if neg then drop 1 q else q) = q1"
      by (auto simp: pat_at_def neg_def q1_def drop_Suc hd_conv_nth)
    have m: "match_one sg nocase (a # q) c = (if token_matches sg nocase c (Class neg (fst (parse_class q1))) then Some (snd (parse_class q1)) else None)" for c
      using 2 by (simp add: match_one_def match_class_parse Let_def n [simplified])
    show ?thesis by (rule that [OF _ p m]) simp
  next
    case 3
    then show ?thesis
      by (intro that [of "Lit (hd q)" "tl q"]) (simp_all add: parse_glob.simps [of "_ # _"] match_one_def pat_at_def hd_conv_nth Suc_le_eq drop_Suc same_char_fold)
  next
    case 4
    then show ?thesis
      using assms by (intro that [of "Lit a" q]) (auto simp: parse_glob.simps [of "_ # _"] match_one_def pat_at_def Let_def same_char_fold)
  qed
qed

lemma glob_matches_token:
  "t \<noteq> Star \<Longrightarrow> glob_matches sg nocase (t # ts) s = (s \<noteq> [] \<and> token_matches sg nocase (hd s) t \<and> glob_matches sg nocase ts (tl s))"
  by (cases t) simp_all

lemma glob_matches_Nil: "glob_matches sg nocase (parse_glob p) [] \<longleftrightarrow> dropWhile (\<lambda>b. b = ch CHR ''*'') p = []"
proof (induction p)
  case (Cons a q)
  show ?case
  proof (cases "a = ch CHR ''*''")
    case True
    then show ?thesis using Cons.IH unfolding True parse_glob_star by simp
  next
    case False
    obtain t rest where "t \<noteq> Star" "parse_glob (a # q) = t # parse_glob rest" by (rule match_one_token [OF False])
    then show ?thesis using False by (simp add: glob_matches_token)
  qed
qed simp

lemma two_stars: "glob_matches sg nocase (Star # Star # ts) s = glob_matches sg nocase (Star # ts) s"
proof
  assume "glob_matches sg nocase (Star # Star # ts) s"
  then obtain k j where "k \<le> length s" "j \<le> length s - k" "glob_matches sg nocase ts (drop (j + k) s)" by auto
  then show "glob_matches sg nocase (Star # ts) s" by (auto intro!: exI [of _ "j + k"])
next
  assume "glob_matches sg nocase (Star # ts) s"
  then show "glob_matches sg nocase (Star # Star # ts) s" unfolding glob_matches.simps(2) by (metis drop0 le0)
qed

lemma skip_stars_spec:
  "\<exists>q. skip_stars (ch CHR ''*'' # p) = ch CHR ''*'' # q \<and> (q = [] \<or> hd q \<noteq> ch CHR ''*'') \<and>
    glob_matches sg nocase (parse_glob (ch CHR ''*'' # p)) s = glob_matches sg nocase (Star # parse_glob q) s"
proof (induction p)
  case (Cons b p)
  show ?case
  proof (cases "b = ch CHR ''*''")
    case True
    then show ?thesis using Cons.IH two_stars [of sg nocase "parse_glob p" s] unfolding True parse_glob_star by simp
  next
    case False
    then show ?thesis unfolding parse_glob_star by simp
  qed
next
  case Nil
  show ?case unfolding parse_glob_star by simp
qed

lemma star_nonempty:
  assumes "q \<noteq> []" "hd q \<noteq> ch CHR ''*''"
  shows "glob_matches sg nocase (Star # parse_glob q) s \<longleftrightarrow> (\<exists>k < length s. glob_matches sg nocase (parse_glob q) (drop k s))"
proof -
  have "\<not> glob_matches sg nocase (parse_glob q) []" using assms by (cases q) (auto simp: glob_matches_Nil)
  then show ?thesis by (auto simp: le_less)
qed

lemma stringmatchlen_glob:
  "s \<noteq> [] \<Longrightarrow> stringmatchlen sg nocase p s = glob_matches sg nocase (parse_glob p) s"
  "star_loop sg nocase p s = (\<exists>k < length s. glob_matches sg nocase (parse_glob p) (drop k s))"
proof (induction sg nocase p s and sg nocase p s rule: stringmatchlen_star_loop.induct)
  case (3 sg nocase a q c s)
  show ?case
  proof (cases "a = ch CHR ''*''")
    case True
    obtain r where r: "skip_stars (a # q) = a # r" "r = [] \<or> hd r \<noteq> ch CHR ''*''"
      "glob_matches sg nocase (parse_glob (a # q)) (c # s) = glob_matches sg nocase (Star # parse_glob r) (c # s)"
      using skip_stars_spec [of q sg nocase "c # s"] unfolding True by blast
    show ?thesis
    proof (cases "r = []")
      case True
      then show ?thesis using r(1,3) \<open>a = ch CHR ''*''\<close> by (auto intro: exI [of _ "length (c # s)"])
    next
      case False
      then show ?thesis using 3(1) [of "a # r"] star_nonempty [of r sg nocase "c # s"] r \<open>a = ch CHR ''*''\<close> by simp
    qed
  next
    case False
    obtain t rest where t: "t \<noteq> Star" "parse_glob (a # q) = t # parse_glob rest"
      "match_one sg nocase (a # q) c = (if token_matches sg nocase c t then Some rest else None)"
      using match_one_token [OF False, of q sg nocase] by metis
    show ?thesis using 3(2) [of rest] False t(1,3) glob_matches_Nil [of sg nocase rest]
      unfolding t(2) glob_matches_token [OF t(1)] by auto
  qed
next
  case (5 sg nocase p c s)
  have "(\<exists>k < length (c # s). glob_matches sg nocase (parse_glob p) (drop k (c # s))) \<longleftrightarrow>
      glob_matches sg nocase (parse_glob p) (c # s) \<or> (\<exists>k < length s. glob_matches sg nocase (parse_glob p) (drop k s))"
    by (auto simp: less_Suc_eq_0_disj)
  then show ?case using 5 by simp
qed auto

section \<open>Model of memtoull\<close>

text \<open>Comparison without regard to case.\<close>

definition c_lower :: "byte \<Rightarrow> byte" where
  "c_lower b = (if 65 \<le> b \<and> b \<le> 90 then b + 32 else b)"

definition strcasecmp_eq :: "byte list \<Rightarrow> byte list \<Rightarrow> bool" where
  "strcasecmp_eq s t \<longleftrightarrow> map c_lower s = map c_lower t"

text \<open>
  \<^verbatim>\<open>strtoull\<close> on a string of digits: the value, or the largest number when it is out of range; no digits
  give 0, where \<^verbatim>\<open>errno\<close> may or may not be set to \<^verbatim>\<open>EINVAL\<close>, which is the parameter \<open>einval\<close>.
\<close>

fun digits_value :: "byte list \<Rightarrow> nat \<Rightarrow> nat" where
  "digits_value [] acc = acc"
| "digits_value (b # bs) acc = digits_value bs (10 * acc + unat (b - 48))"

definition strtoull10 :: "byte list \<Rightarrow> nat" where
  "strtoull10 s = min (digits_value s 0) (2 ^ 64 - 1)"

definition memtoull_unit :: "byte list \<Rightarrow> nat option" where
  "memtoull_unit u =
     (if u = [] \<or> strcasecmp_eq u [98] then Some 1
      else if strcasecmp_eq u [107] then Some 1000
      else if strcasecmp_eq u [107, 98] then Some 1024
      else if strcasecmp_eq u [109] then Some (1000 * 1000)
      else if strcasecmp_eq u [109, 98] then Some (1024 * 1024)
      else if strcasecmp_eq u [103] then Some (1000 * 1000 * 1000)
      else if strcasecmp_eq u [103, 98] then Some (1024 * 1024 * 1024)
      else None)"

text \<open>\<open>None\<close> is the result 0 with \<^verbatim>\<open>*err\<close> set to 1.\<close>

definition memtoull :: "bool \<Rightarrow> byte list \<Rightarrow> u64 option" where
  "memtoull einval p =
     (if p \<noteq> [] \<and> hd p = ch CHR ''-'' then None
      else
        (let u = dropWhile isdigit p; digits = length p - length u in
         case memtoull_unit u of
           None \<Rightarrow> None
         | Some mul \<Rightarrow>
             (if digits \<ge> 128 then None
              else
                (let buf = take digits p; val = strtoull10 buf in
                 if val = 0 \<and> buf = [] \<and> einval then None
                 else Some (of_nat val * of_nat mul)))))"

section \<open>Properties\<close>

text \<open>
  Claim C12. On a string that is not empty, \<^verbatim>\<open>stringmatchlen\<close> implements the reference: it terminates and accepts exactly
  the strings that the tokens of the pattern describe, for every pattern, also with unclosed classes
  and a trailing backslash. When case matters this is the usual reading of globs. Without regard to
  case, literal bytes and single bytes of a class match as letters, while a class compares an escaped
  byte exactly and folds the ends of a range after ordering them. On the empty string it accepts the
  empty pattern only.
\<close>

theorem stringmatchlen_correct:
  "stringmatchlen sg nocase p s = (if s = [] then p = [] else glob_matches sg nocase (parse_glob p) s)"
  using stringmatchlen_glob(1) [of s sg nocase p] by (cases p) auto

text \<open>The pattern of a single star describes the empty string, but the matcher rejects it.\<close>

lemma star_rejects_empty:
  "\<not> stringmatchlen sg nocase [ch CHR ''*''] [] \<and> glob_matches sg nocase (parse_glob [ch CHR ''*'']) [] \<and>
   stringmatchlen sg nocase [ch CHR ''a'', ch CHR ''*''] [ch CHR ''a'']"
  using glob_matches_Nil [of sg nocase "[ch CHR ''*'']"] by (simp add: match_one_def pat_at_def same_char_def Let_def)

text \<open>
  Where matching without regard to case is not the usual reading: an escaped letter of a class matches in
  its own case only, \<^verbatim>\<open>[Z-a]\<close> matches no letter, and \<^verbatim>\<open>[A-z]\<close> loses the bytes between the two alphabets.
\<close>

lemma nocase_classes:
  "stringmatchlen sg True (map ch ''[a]'') (map ch ''A'') \<and>
   \<not> stringmatchlen sg True [ch CHR ''['', ch (CHR 0x5C), ch CHR ''a'', ch CHR '']''] (map ch ''A'')"
  "stringmatchlen sg False (map ch ''[Z-a]'') (map ch ''Z'') \<and> \<not> stringmatchlen sg True (map ch ''[Z-a]'') (map ch ''Z'')"
  "stringmatchlen sg False (map ch ''[A-z]'') (map ch ''_'') \<and> \<not> stringmatchlen sg True (map ch ''[A-z]'') (map ch ''_'')"
  by (simp_all add: match_one_def match_class.simps pat_at_def Let_def same_char_def in_range_def char_int_def c_tolower_def)

text \<open>Reading back the decimal notation.\<close>

lemma digits_value_append: "digits_value (s @ [b]) acc = 10 * digits_value s acc + unat (b - 48)"
  by (induction s arbitrary: acc) simp_all

lemma digits_value_dec: "digits_value (dec n) 0 = n"
proof (induction n rule: dec.induct)
  case (1 n)
  have "unat (digit (n mod 10) - 48) = n mod 10" by (simp add: digit_def unat_of_nat)
  then show ?case using 1 by (subst dec.simps) (auto simp: digits_value_append digit_def unat_of_nat)
qed

lemma isdigit_dec: "b \<in> set (dec n) \<Longrightarrow> isdigit b"
proof (induction n rule: dec.induct)
  case (1 n)
  have "isdigit (digit d)" if "d < 10" for d
    using that by (auto simp: isdigit_def digit_def word_le_nat_alt unat_word_ariths unat_of_nat)
  then show ?case using 1 by (subst (asm) (2) dec.simps) (auto split: if_splits)
qed

text \<open>The units, in either case of their letters.\<close>

definition mem_units :: "(byte list \<times> nat) list" where
  "mem_units =
     [([], 1), (map ch ''b'', 1), (map ch ''k'', 1000), (map ch ''kb'', 1024), (map ch ''m'', 1000 ^ 2), (map ch ''mb'', 1024 ^ 2),
      (map ch ''g'', 1000 ^ 3), (map ch ''gb'', 1024 ^ 3)]"

lemma fold_case_lower: "fold_case True b = c_lower b"
proof (cases "65 \<le> uint b \<and> uint b \<le> 90")
  case True
  then obtain l where l: "(b, l) \<in> set letters" using upper_cases [of b] by auto
  have "list_all (\<lambda>(x, y). fold_case True x = y \<and> c_lower x = y) letters" by code_simp
  then show ?thesis using l by (auto simp: list_all_iff)
next
  case False
  have "list_all (\<lambda>x. 65 \<le> uint x \<and> uint x \<le> 90) (map fst letters)" by code_simp
  then have "map_of letters b = None" using False by (auto simp: map_of_eq_None_iff list_all_iff)
  then show ?thesis using False by (auto simp: fold_case_def c_lower_def word_le_def)
qed

lemma memtoull_unit_eq: "memtoull_unit u = map_of mem_units (map (fold_case True) u)"
proof -
  have f: "map (fold_case True) u = map c_lower u" by (simp add: fold_case_lower)
  show ?thesis unfolding f by (auto simp: memtoull_unit_def strcasecmp_eq_def mem_units_def c_lower_def [of "numeral _"])
qed

text \<open>
  Claim C39. \<^verbatim>\<open>memtoull\<close> reads a decimal number with a unit as the number times the unit modulo \<open>2 ^ 64\<close>, where k, m
  and g are powers of 1000 and kb, mb and gb powers of 1024, in either case: the exact size when it fits, and a
  wrapped one, with no error, when it does not. What is no unit behind the digits is an error.
\<close>

theorem memtoull_value:
  assumes "n < 2 ^ 64" "u = [] \<or> \<not> isdigit (hd u)"
  shows "map_option unat (memtoull einval (dec n @ u)) = map_option (\<lambda>mul. n * mul mod 2 ^ 64) (map_of mem_units (map (fold_case True) u))"
proof -
  have ne: "dec n \<noteq> []" by (subst dec.simps) simp
  have d: "dropWhile isdigit (dec n @ u) = u"
    using isdigit_dec assms(2) by (cases u) (auto simp: dropWhile_append)
  have "hd (dec n @ u) \<noteq> ch CHR ''-''" using isdigit_dec [of "hd (dec n)" n] ne by (auto simp: isdigit_def)
  moreover have "strtoull10 (dec n) = n" using assms(1) by (simp add: strtoull10_def digits_value_dec)
  moreover have "length (dec n) < 128" using length_dec_bound [of n 19] assms(1) by simp
  ultimately have "memtoull einval (dec n @ u) = map_option (\<lambda>mul. of_nat n * of_nat mul) (memtoull_unit u)"
    using ne by (simp add: memtoull_def d Let_def split: option.split)
  then show ?thesis by (simp add: memtoull_unit_eq option.map_comp comp_def unat_word_ariths unat_of_nat mod_mult_eq)
qed

theorem memtoull_value_witness:
  "map_option unat (memtoull True (dec 17179869184 @ map ch ''GB'')) = Some 0 \<and>
   map_option unat (memtoull True (dec 3 @ map ch ''k'')) = Some 3000 \<and> memtoull True (dec 3 @ map ch ''tb'') = None"
  using memtoull_value [of 17179869184 "map ch ''GB''" True] memtoull_value [of 3 "map ch ''k''" True]
    memtoull_value [of 3 "map ch ''tb''" True]
  by (simp add: mem_units_def fold_case_lower c_lower_def isdigit_def)

end
