(* ===== verification/Lzf.thy ===== *)
theory Lzf
  imports Prelude "HOL-Library.Monad_Syntax"
begin

text \<open>
  The LZF compression of \<^verbatim>\<open>lzf_c.c\<close> and \<^verbatim>\<open>lzf_d.c\<close>, in the configuration of \<^verbatim>\<open>lzfP.h\<close>: a hash table of \<open>2 ^ 16\<close>
  slots that is not initialised, and the fast update of the table after a match.

  Pointers into the input and the output are offsets, and an access outside of a buffer makes the
  result \<open>None\<close>. The slots of the hash table hold pointers of 64 bits. Since the table is not
  initialised, its first contents are a parameter, and so is the address of the input.
\<close>

section \<open>Model\<close>

definition mem_get :: "byte list \<Rightarrow> nat \<Rightarrow> byte option" where
  "mem_get m i = (if i < length m then Some (m ! i) else None)"

definition mem_set :: "byte list \<Rightarrow> nat \<Rightarrow> byte \<Rightarrow> byte list option" where
  "mem_set m i b = (if i < length m then Some (m[i := b]) else None)"

subsection \<open>Compression\<close>

definition MAX_LIT :: nat where "MAX_LIT = 32"
definition MAX_OFF :: nat where "MAX_OFF = 8192"
definition MAX_REF :: nat where "MAX_REF = 264"

definition FRST :: "byte list \<Rightarrow> nat \<Rightarrow> u32 option" where
  "FRST ins p =
     do { a \<leftarrow> mem_get ins p; b \<leftarrow> mem_get ins (p + 1); Some (push_bit 8 (ucast a) OR ucast b) }"

definition NEXT :: "u32 \<Rightarrow> byte list \<Rightarrow> nat \<Rightarrow> u32 option" where
  "NEXT v ins p = do { c \<leftarrow> mem_get ins (p + 2); Some (push_bit 8 v OR ucast c) }"

definition IDX :: "u32 \<Rightarrow> nat" where
  "IDX h = unat ((drop_bit 8 h - h * 5) AND 0xFFFF)"

record lzf_state =
  ip :: nat
  op :: nat
  lit :: nat
  outp :: "byte list"
  htab :: "nat \<Rightarrow> u64"
  hval :: u32

text \<open>How a round of the main loop ends: the function returns 0, the loop ends, or it goes on.\<close>

datatype lzf_next = Return_0 lzf_state | Break lzf_state | Continue lzf_state

text \<open>
  The test for a match at a pointer from the table, which reads only when the pointer is inside the
  window. The comparison of two 16-bit values compares two bytes.
\<close>

definition lzf_test :: "byte list \<Rightarrow> u64 \<Rightarrow> nat \<Rightarrow> u64 \<Rightarrow> bool option" where
  "lzf_test ins base i ref =
     (if unat (base + of_nat i - ref - 1) < MAX_OFF \<and> base < ref then
        (let r = unat (ref - base) in
         do {
           a2 \<leftarrow> mem_get ins (r + 2); b2 \<leftarrow> mem_get ins (i + 2);
           if a2 \<noteq> b2 then Some False
           else do {
             a0 \<leftarrow> mem_get ins r; a1 \<leftarrow> mem_get ins (r + 1);
             b0 \<leftarrow> mem_get ins i; b1 \<leftarrow> mem_get ins (i + 1);
             Some (a0 = b0 \<and> a1 = b1)
           }
         })
      else Some False)"

text \<open>The length of a match: at first \<open>n\<close> comparisons without a test of the end, then the loop.\<close>

fun len_unrolled :: "byte list \<Rightarrow> nat \<Rightarrow> nat \<Rightarrow> nat \<Rightarrow> nat \<Rightarrow> (nat \<times> bool) option" where
  "len_unrolled ins r i 0 len = Some (len, False)"
| "len_unrolled ins r i (Suc n) len =
     do {
       a \<leftarrow> mem_get ins (r + (len + 1)); b \<leftarrow> mem_get ins (i + (len + 1));
       if a \<noteq> b then Some (len + 1, True) else len_unrolled ins r i n (len + 1)
     }"

function len_loop :: "byte list \<Rightarrow> nat \<Rightarrow> nat \<Rightarrow> nat \<Rightarrow> nat \<Rightarrow> nat option" where
  "len_loop ins r i maxlen len =
     (if len + 1 < maxlen then
        do {
          a \<leftarrow> mem_get ins (r + (len + 1)); b \<leftarrow> mem_get ins (i + (len + 1));
          if a = b then len_loop ins r i maxlen (len + 1) else Some (len + 1)
        }
      else Some (len + 1))"
  by pat_completeness auto
termination by (relation "measure (\<lambda>(ins, r, i, maxlen, len). maxlen - len)") auto

declare len_loop.simps [simp del]

definition match_len :: "byte list \<Rightarrow> nat \<Rightarrow> nat \<Rightarrow> nat option" where
  "match_len ins r i =
     (let maxlen = min (length ins - i - 2) MAX_REF in
      if maxlen > 16 then
        do {
          (len, brk) \<leftarrow> len_unrolled ins r i 16 2;
          if brk then Some len else len_loop ins r i maxlen len
        }
      else len_loop ins r i maxlen 2)"

text \<open>The header byte of the run of literals that ends at the output pointer.\<close>

definition stop_run :: "lzf_state \<Rightarrow> byte list option" where
  "stop_run s = (if lit s + 1 \<le> op s then mem_set (outp s) (op s - lit s - 1) (word_of_int (int (lit s) - 1)) else None)"

definition put_literal :: "byte list \<Rightarrow> lzf_state \<Rightarrow> lzf_state option" where
  "put_literal ins s =
     do {
       b \<leftarrow> mem_get ins (ip s);
       out1 \<leftarrow> mem_set (outp s) (op s) b;
       let s1 = s\<lparr>lit := lit s + 1, outp := out1, op := op s + 1, ip := ip s + 1\<rparr>;
       if lit s1 = MAX_LIT
       then do { out2 \<leftarrow> stop_run s1; Some (s1\<lparr>outp := out2, lit := 0, op := op s1 + 1\<rparr>) }
       else Some s1
     }"

text \<open>The bytes of a back reference, one of two forms.\<close>

definition put_ref :: "byte list \<Rightarrow> nat \<Rightarrow> nat \<Rightarrow> nat \<Rightarrow> (byte list \<times> nat) option" where
  "put_ref out0 p off len =
     (if len < 7 then
        do {
          out1 \<leftarrow> mem_set out0 p (of_nat (off div 256 + len * 32));
          out2 \<leftarrow> mem_set out1 (p + 1) (of_nat off);
          Some (out2, p + 2)
        }
      else
        do {
          out1 \<leftarrow> mem_set out0 p (of_nat (off div 256 + 7 * 32));
          out2 \<leftarrow> mem_set out1 (p + 1) (of_nat (len - 7));
          out3 \<leftarrow> mem_set out2 (p + 2) (of_nat off);
          Some (out3, p + 3)
        })"

definition put_match :: "byte list \<Rightarrow> u64 \<Rightarrow> u64 \<Rightarrow> lzf_state \<Rightarrow> lzf_next option" where
  "put_match ins base ref s =
     (let notlit = (if lit s = 0 then 1 else 0) in
      if op s + 4 \<ge> length (outp s) \<and> op s + 4 \<ge> length (outp s) + notlit then Some (Return_0 s)
      else
        do {
          out1 \<leftarrow> stop_run s;
          len \<leftarrow> match_len ins (unat (ref - base)) (ip s);
          (out2, op1) \<leftarrow> put_ref out1 (op s - notlit) (unat (base + of_nat (ip s) - ref - 1)) (len - 2);
          let s1 = s\<lparr>outp := out2, lit := 0, op := op1 + 1, ip := ip s + len\<rparr>;
          if ip s1 + 2 \<ge> length ins then Some (Break s1)
          else do {
            h0 \<leftarrow> FRST ins (ip s1 - 2);
            h1 \<leftarrow> NEXT h0 ins (ip s1 - 2);
            let t1 = (htab s)(IDX h1 := base + of_nat (ip s1 - 2));
            h2 \<leftarrow> NEXT h1 ins (ip s1 - 1);
            let t2 = t1(IDX h2 := base + of_nat (ip s1 - 1));
            Some (Continue (s1\<lparr>htab := t2, hval := h2\<rparr>))
          }
        })"

definition lzf_round :: "byte list \<Rightarrow> u64 \<Rightarrow> lzf_state \<Rightarrow> lzf_next option" where
  "lzf_round ins base s =
     do {
       h \<leftarrow> NEXT (hval s) ins (ip s);
       let ref = htab s (IDX h);
       let s1 = s\<lparr>hval := h, htab := (htab s)(IDX h := base + of_nat (ip s))\<rparr>;
       found \<leftarrow> lzf_test ins base (ip s) ref;
       if found then put_match ins base ref s1
       else if op s1 \<ge> length (outp s1) then Some (Return_0 s1)
       else map_option Continue (put_literal ins s1)
     }"

lemma len_loop_gt: "len_loop ins r i maxlen len = Some n \<Longrightarrow> len < n"
proof (induction ins r i maxlen len rule: len_loop.induct)
  case (1 ins r i maxlen len)
  then show ?case
    by (subst (asm) (2) len_loop.simps) (auto simp: mem_get_def bind_eq_Some_conv split: if_splits)
qed

lemma len_unrolled_ge: "len_unrolled ins r i n len = Some (m, b) \<Longrightarrow> len \<le> m \<and> (b \<longrightarrow> len < m)"
proof (induction n arbitrary: len)
  case (Suc n)
  from Suc.prems consider "m = len + 1" | "len_unrolled ins r i n (len + 1) = Some (m, b)"
    by (auto simp: bind_eq_Some_conv split: if_splits)
  then show ?case using Suc.IH [of "len + 1"] by cases auto
qed simp

lemma match_len_ge: "match_len ins r i = Some n \<Longrightarrow> 2 < n"
  by (auto simp: match_len_def Let_def bind_eq_Some_conv split: if_splits dest!: len_loop_gt len_unrolled_ge)

lemma put_literal_ip: "put_literal ins s = Some s1 \<Longrightarrow> ip s1 = ip s + 1"
  by (auto simp: put_literal_def bind_eq_Some_conv Let_def split: if_splits)

lemma lzf_round_ip: "lzf_round ins base s = Some (Continue s1) \<Longrightarrow> ip s < ip s1"
  by (auto simp: lzf_round_def put_match_def bind_eq_Some_conv Let_def split: if_splits dest!: match_len_ge put_literal_ip)

function lzf_loop :: "byte list \<Rightarrow> u64 \<Rightarrow> lzf_state \<Rightarrow> lzf_next option" where
  "lzf_loop ins base s =
     (if ip s + 2 < length ins then
        (case lzf_round ins base s of
           Some (Continue s1) \<Rightarrow> lzf_loop ins base s1
         | r \<Rightarrow> r)
      else Some (Break s))"
  by pat_completeness auto
termination by (relation "measure (\<lambda>(ins, base, s). length ins - ip s)") (auto dest: lzf_round_ip)

declare lzf_loop.simps [simp del]

function lzf_tail :: "byte list \<Rightarrow> lzf_state \<Rightarrow> lzf_state option" where
  "lzf_tail ins s =
     (if ip s < length ins then
        (case put_literal ins s of None \<Rightarrow> None | Some s1 \<Rightarrow> lzf_tail ins s1)
      else Some s)"
  by pat_completeness auto
termination by (relation "measure (\<lambda>(ins, s). length ins - ip s)") (auto dest: put_literal_ip)

declare lzf_tail.simps [simp del]

text \<open>\<^verbatim>\<open>lzf_compress\<close>: the number of bytes written, 0 if they do not fit, and the output buffer.\<close>

definition lzf_compress :: "u64 \<Rightarrow> (nat \<Rightarrow> u64) \<Rightarrow> byte list \<Rightarrow> byte list \<Rightarrow> (nat \<times> byte list) option" where
  "lzf_compress base table ins out_data =
     (if ins = [] \<or> out_data = [] then Some (0, out_data)
      else
        do {
          h \<leftarrow> FRST ins 0;
          r \<leftarrow> lzf_loop ins base \<lparr>ip = 0, op = 1, lit = 0, outp = out_data, htab = table, hval = h\<rparr>;
          case r of
            Break s \<Rightarrow>
              (if op s + 3 > length (outp s) then Some (0, outp s)
               else do {
                 s1 \<leftarrow> lzf_tail ins s;
                 out1 \<leftarrow> stop_run s1;
                 Some (op s1 - (if lit s1 = 0 then 1 else 0), out1)
               })
          | Return_0 s \<Rightarrow> Some (0, outp s)
          | Continue s \<Rightarrow> None
        })"

subsection \<open>Decompression\<close>

datatype lzf_errno = E2BIG | EINVAL

fun copy_bytes :: "nat \<Rightarrow> byte list \<Rightarrow> nat \<Rightarrow> nat \<Rightarrow> byte list \<Rightarrow> byte list option" where
  "copy_bytes 0 ins i p out_data = Some out_data"
| "copy_bytes (Suc n) ins i p out_data =
     do { b \<leftarrow> mem_get ins i; out1 \<leftarrow> mem_set out_data p b; copy_bytes n ins (i + 1) (p + 1) out1 }"

text \<open>Copying inside the output, byte by byte, so that the source may overlap the target.\<close>

fun copy_ref :: "nat \<Rightarrow> nat \<Rightarrow> nat \<Rightarrow> byte list \<Rightarrow> byte list option" where
  "copy_ref 0 r p out_data = Some out_data"
| "copy_ref (Suc n) r p out_data =
     do { b \<leftarrow> mem_get out_data r; out1 \<leftarrow> mem_set out_data p b; copy_ref n (r + 1) (p + 1) out1 }"

definition copy_match :: "nat \<Rightarrow> nat \<Rightarrow> nat \<Rightarrow> byte list \<Rightarrow> byte list option" where
  "copy_match len r p out_data =
     (if len \<ge> 10 \<and> p \<ge> r + (len + 2) then
        (if p + (len + 2) \<le> length out_data then Some (memmove p r (len + 2) out_data) else None)
      else copy_ref (len + 2) r p out_data)"

text \<open>One control byte and what follows it: the next input and output offsets and the output.\<close>

definition decompress_round ::
    "byte list \<Rightarrow> nat \<Rightarrow> nat \<Rightarrow> byte list \<Rightarrow> (lzf_errno + nat \<times> nat \<times> byte list) option" where
  "decompress_round ins i p out_data =
     do {
       c \<leftarrow> mem_get ins i;
       let ctrl = unat c;
       if ctrl < 32 then
         (if p + (ctrl + 1) > length out_data then Some (Inl E2BIG)
          else if i + 1 + (ctrl + 1) > length ins then Some (Inl EINVAL)
          else do {
            out1 \<leftarrow> copy_bytes (ctrl + 1) ins (i + 1) p out_data;
            Some (Inr (i + 1 + (ctrl + 1), p + (ctrl + 1), out1))
          })
       else if i + 1 \<ge> length ins then Some (Inl EINVAL)
       else
         do {
           x \<leftarrow> mem_get ins (i + 1);
           let (len, i1) = (if ctrl div 32 = 7 then (7 + unat x, i + 2) else (ctrl div 32, i + 1));
           if ctrl div 32 = 7 \<and> i1 \<ge> length ins then Some (Inl EINVAL)
           else
             do {
               y \<leftarrow> mem_get ins i1;
               let ref = int p - int (ctrl mod 32 * 256) - 1 - int (unat y);
               if p + len + 2 > length out_data then Some (Inl E2BIG)
               else if ref < 0 then Some (Inl EINVAL)
               else
                 do {
                   out1 \<leftarrow> copy_match len (nat ref) p out_data;
                   Some (Inr (i1 + 1, p + (len + 2), out1))
                 }
             }
         }
     }"

lemma decompress_round_ip: "decompress_round ins i p out_data = Some (Inr (i1, p1, out1)) \<Longrightarrow> i < i1"
  by (auto simp: decompress_round_def bind_eq_Some_conv Let_def split: if_splits prod.splits)

function decompress_loop :: "byte list \<Rightarrow> nat \<Rightarrow> nat \<Rightarrow> byte list \<Rightarrow> (lzf_errno + nat \<times> byte list) option" where
  "decompress_loop ins i p out_data =
     (if i < length ins then
        (case decompress_round ins i p out_data of
           None \<Rightarrow> None
         | Some (Inl e) \<Rightarrow> Some (Inl e)
         | Some (Inr (i1, p1, out1)) \<Rightarrow> decompress_loop ins i1 p1 out1)
      else Some (Inr (p, out_data)))"
  by pat_completeness auto
termination by (relation "measure (\<lambda>(ins, i, p, out_data). length ins - i)") (auto dest: decompress_round_ip)

declare decompress_loop.simps [simp del]

definition lzf_decompress :: "byte list \<Rightarrow> byte list \<Rightarrow> (lzf_errno + nat \<times> byte list) option" where
  "lzf_decompress ins out_data = decompress_loop ins 0 0 out_data"

section \<open>Streams\<close>

text \<open>
  What a compressed stream stands for: runs of literals, and references to earlier bytes of the
  result, which may overlap the bytes they produce.
\<close>

definition ref_bytes :: "nat \<Rightarrow> nat \<Rightarrow> byte list" where
  "ref_bytes off len =
     (if len < 7 then [of_nat (off div 256 + len * 32), of_nat off]
      else [of_nat (off div 256 + 7 * 32), of_nat (len - 7), of_nat off])"

inductive lzf_stream :: "byte list \<Rightarrow> byte list \<Rightarrow> bool" where
  nothing: "lzf_stream [] []"
| literals: "lzf_stream bs xs \<Longrightarrow> 0 < length ls \<Longrightarrow> length ls \<le> 32 \<Longrightarrow>
    lzf_stream (bs @ of_nat (length ls - 1) # ls) (xs @ ls)"
| reference: "lzf_stream bs xs \<Longrightarrow> 0 < len \<Longrightarrow> len \<le> 262 \<Longrightarrow> off < 8192 \<Longrightarrow> off < length xs \<Longrightarrow> length ys = len + 2 \<Longrightarrow>
    (\<forall>j < len + 2. ys ! j = (xs @ ys) ! (length xs + j - off - 1)) \<Longrightarrow>
    lzf_stream (bs @ ref_bytes off len) (xs @ ys)"

subsection \<open>Decompressing a stream\<close>

lemma copy_bytes_ok:
  "i + n \<le> length ins \<Longrightarrow> p + n \<le> length out_data \<Longrightarrow>
   copy_bytes n ins i p out_data = Some (write_at p (read_at i n ins) out_data)"
proof (induction n arbitrary: i p out_data)
  case 0
  then show ?case by (simp add: write_at_def read_at_def)
next
  case (Suc n)
  have "read_at i (Suc n) ins = ins ! i # read_at (i + 1) n ins"
    using Suc.prems by (simp add: read_at_def Cons_nth_drop_Suc [symmetric])
  moreover have "write_at (p + 1) bs (out_data[p := b]) = write_at p (b # bs) out_data" for b bs
    using Suc.prems by (simp add: write_at_def take_Suc_conv_app_nth take_update_swap list_update_append)
  ultimately show ?case using Suc by (simp add: mem_get_def mem_set_def)
qed

text \<open>The result of copying \<open>n\<close> bytes inside a buffer to a later place.\<close>

definition copied_within :: "nat \<Rightarrow> nat \<Rightarrow> nat \<Rightarrow> byte list \<Rightarrow> byte list \<Rightarrow> bool" where
  "copied_within n r p m m' \<longleftrightarrow> length m' = length m \<and> take p m' = take p m \<and> drop (p + n) m' = drop (p + n) m \<and>
     (\<forall>j < n. m' ! (p + j) = m' ! (r + j))"

lemma copy_ref_ok:
  "r < p \<Longrightarrow> p + n \<le> length m \<Longrightarrow> \<exists>m'. copy_ref n r p m = Some m' \<and> copied_within n r p m m'"
proof (induction n arbitrary: r p m)
  case 0
  then show ?case by (simp add: copied_within_def)
next
  case (Suc n)
  let ?m = "m[p := m ! r]"
  obtain m' where m': "copy_ref n (r + 1) (p + 1) ?m = Some m'" "copied_within n (r + 1) (p + 1) ?m m'"
    using Suc.IH [of "r + 1" "p + 1" ?m] Suc.prems by auto
  have l: "length m' = length m" and t: "take (p + 1) m' = take (p + 1) ?m"
    and d: "drop (p + 1 + n) m' = drop (p + 1 + n) ?m"
    and c: "\<And>j. j < n \<Longrightarrow> m' ! (p + 1 + j) = m' ! (r + 1 + j)" using m'(2) by (simp_all add: copied_within_def)
  have "take p m' = take p (take (p + 1) m')" by simp
  then have 1: "take p m' = take p m" unfolding t by simp
  have "m' ! i = ?m ! i" if "i < p + 1" for i using arg_cong [OF t, of "\<lambda>xs. xs ! i"] that by simp
  from this [of p] this [of r] have 0: "m' ! p = m' ! r" using Suc.prems by simp
  have "m' ! (p + j) = m' ! (r + j)" if "j < Suc n" for j
    using 0 c [of "j - 1"] that by (cases j) auto
  then show ?case using m'(1) 1 d l Suc.prems by (simp add: copied_within_def mem_get_def mem_set_def)
qed

lemma copy_match_ok:
  assumes "r < p" "p + (len + 2) \<le> length m"
  shows "\<exists>m'. copy_match len r p m = Some m' \<and> copied_within (len + 2) r p m m'"
proof (cases "len \<ge> 10 \<and> p \<ge> r + (len + 2)")
  case True
  let ?m = "memmove p r (len + 2) m"
  have "?m ! (p + j) = ?m ! (r + j)" if "j < len + 2" for j
    using that True assms by (simp add: memmove_def nth_write_at nth_read_at buf_simps)
  moreover have "length (read_at r (len + 2) m) = len + 2" using True assms by (simp add: buf_simps)
  then have "take p ?m = take p m" "drop (p + (len + 2)) ?m = drop (p + (len + 2)) m" "length ?m = length m"
    using assms by (simp_all add: memmove_def write_at_def)
  ultimately have "copied_within (len + 2) r p m ?m" by (simp add: copied_within_def)
  then show ?thesis using True assms by (simp add: copy_match_def)
next
  case False
  have "copy_match len r p m = copy_ref (len + 2) r p m" unfolding copy_match_def if_not_P [OF False] ..
  then show ?thesis using copy_ref_ok [OF assms] by simp
qed

text \<open>A copy is determined by the bytes before it.\<close>

lemma copied_within_unique:
  assumes c: "copied_within n r p m m'" and t: "take p m = xs" "p = length xs" "r = p - off - 1" "off < p"
    and y: "length ys = n" "\<forall>j < n. ys ! j = (xs @ ys) ! (length xs + j - off - 1)" and l: "p + n \<le> length m"
  shows "take (p + n) m' = xs @ ys"
proof -
  have x: "take p m' = xs" "length m' = length m" using c t by (simp_all add: copied_within_def)
  have x: "m' ! i = xs ! i" if "i < p" for i using x that t(2) by (metis nth_take)
  have z: "m' ! (p + j) = ys ! j" if "j < n" for j using that
  proof (induction j rule: less_induct)
    case (less j)
    have e: "m' ! (p + j) = m' ! (p + j - off - 1)"
      using c less.prems t(3,4) by (simp add: copied_within_def)
    have f: "ys ! j = (xs @ ys) ! (p + j - off - 1)" using y(2) less.prems t(2) by simp
    show ?case
    proof (cases "j \<le> off")
      case True
      then have "p + j - off - 1 < p" using t(4) by simp
      then show ?thesis using e f x [of "p + j - off - 1"] t(2) by (simp add: nth_append)
    next
      case False
      then have k: "p + j - off - 1 = p + (j - off - 1)" by simp
      have "m' ! (p + (j - off - 1)) = ys ! (j - off - 1)" using False less.prems by (intro less.IH) auto
      moreover have "(xs @ ys) ! (p + (j - off - 1)) = ys ! (j - off - 1)" using t(2) by (simp add: nth_append)
      ultimately show ?thesis using e f unfolding k by metis
    qed
  qed
  have q: "m' ! i = (xs @ ys) ! i" if "i < p + n" for i
    using x [of i] that t(2) z [of "i - p"] by (cases "i < p") (simp_all add: nth_append)
  show ?thesis
  proof (rule nth_equalityI)
    show "length (take (p + n) m') = length (xs @ ys)" using c l t(2) y(1) by (simp add: copied_within_def)
  qed (use q in simp)
qed

lemma ref_bytes_values:
  assumes "off < 8192" "0 < len" "len \<le> 262"
  shows "unat (of_nat (off div 256 + min len 7 * 32) :: byte) = off div 256 + min len 7 * 32"
    "unat (of_nat off :: byte) = off mod 256" "7 \<le> len \<Longrightarrow> unat (of_nat (len - 7) :: byte) = len - 7"
proof -
  have "off div 256 < 32" using assms(1) by (simp add: less_mult_imp_div_less)
  then have "off div 256 + min len 7 * 32 < 256" by (auto simp: min_def)
  then show "unat (of_nat (off div 256 + min len 7 * 32) :: byte) = off div 256 + min len 7 * 32"
    by (subst unat_of_nat) simp
  show "unat (of_nat off :: byte) = off mod 256" by (simp add: unat_of_nat)
  show "7 \<le> len \<Longrightarrow> unat (of_nat (len - 7) :: byte) = len - 7" using assms(3) by (subst unat_of_nat) simp
qed

lemma decompress_round_literals:
  assumes "unat c + 1 = length ls" "length ls \<le> 32" "p + length ls \<le> length m"
  shows "decompress_round (bs @ (c # ls) @ rest) (length bs) p m =
    Some (Inr (length bs + 1 + length ls, p + length ls, write_at p ls m))"
proof -
  have b: "copy_bytes (length ls) (bs @ (c # ls) @ rest) (length bs + 1) p m = Some (write_at p ls m)"
    using assms by (subst copy_bytes_ok) (simp_all add: read_at_def)
  have g: "mem_get (bs @ (c # ls) @ rest) (length bs) = Some c" by (simp add: mem_get_def)
  have "unat c < 32" "\<not> p + length ls > length m" using assms by simp_all
  then show ?thesis unfolding decompress_round_def g Let_def bind.bind_lunit assms(1) b by simp
qed

lemma decompress_round_reference:
  assumes o: "off < 8192" "off < p" and l: "0 < len" "len \<le> 262" "p + (len + 2) \<le> length m"
  shows "\<exists>m'. decompress_round (bs @ ref_bytes off len @ rest) (length bs) p m =
      Some (Inr (length bs + length (ref_bytes off len), p + (len + 2), m')) \<and> copied_within (len + 2) (p - off - 1) p m m'"
proof -
  obtain m' where m': "copy_match len (p - off - 1) p m = Some m'" "copied_within (len + 2) (p - off - 1) p m m'"
    using copy_match_ok [of "p - off - 1" p len m] o l(3) by auto
  define c :: byte where "c = of_nat (off div 256 + min len 7 * 32)"
  define y :: byte where "y = of_nat off"
  have q: "off div 256 < 32" using o(1) by (simp add: less_mult_imp_div_less)
  have c: "unat c = off div 256 + min len 7 * 32" and y: "unat y = off mod 256"
    using ref_bytes_values [OF o(1) l(1,2)] by (simp_all add: c_def y_def)
  have c32: "unat c div 32 = min len 7" "unat c mod 32 = off div 256" "\<not> unat c < 32"
    using q l(1) by (simp_all add: c)
  have ref: "int p - int (off div 256 * 256) - 1 - int (unat y) = int (p - off - 1)"
  proof -
    have "off div 256 * 256 + off mod 256 = off" by simp
    then show ?thesis using o(2) y by linarith
  qed
  have len2: "p + len + 2 = p + (len + 2)" "\<not> p + (len + 2) > length m" using l(3) by simp_all
  show ?thesis
  proof (cases "len < 7")
    case True
    then have b: "ref_bytes off len = [c, y]" by (simp add: ref_bytes_def c_def y_def)
    have g: "mem_get (bs @ [c, y] @ rest) (length bs) = Some c" "mem_get (bs @ [c, y] @ rest) (length bs + 1) = Some y"
      by (simp_all add: mem_get_def nth_append)
    have n: "min len 7 = len" "len \<noteq> 7" using True by simp_all
    show ?thesis
      unfolding decompress_round_def b g Let_def bind.bind_lunit c32 n if_not_P [OF c32(3)] if_not_P [OF n(2)] prod.case g ref
        len2(1) if_not_P [OF len2(2)]
      using m' n by simp
  next
    case False
    define x :: byte where "x = of_nat (len - 7)"
    have x: "unat x = len - 7" using ref_bytes_values(3) [OF o(1) l(1,2)] False by (simp add: x_def)
    have b: "ref_bytes off len = [c, x, y]" using False by (simp add: ref_bytes_def c_def x_def y_def)
    have g: "mem_get (bs @ [c, x, y] @ rest) (length bs) = Some c" "mem_get (bs @ [c, x, y] @ rest) (length bs + 1) = Some x"
      "mem_get (bs @ [c, x, y] @ rest) (length bs + 2) = Some y"
      by (simp_all add: mem_get_def nth_append)
    have n: "min len 7 = 7" "7 + (len - 7) = len" using False by simp_all
    show ?thesis
      unfolding decompress_round_def b g Let_def bind.bind_lunit c32 n if_not_P [OF c32(3)] if_P [OF refl] prod.case x g ref n
        len2(1) if_not_P [OF len2(2)]
      using m' by simp
  qed
qed

lemma drop_more: "drop i a = drop i b \<Longrightarrow> drop (i + n) a = drop (i + n) b"
  by (metis add.commute drop_drop)

text \<open>Decompressing the beginning of a stream leaves what it stands for in the output.\<close>

lemma stream_decompress:
  "lzf_stream bs xs \<Longrightarrow> length xs \<le> length m \<Longrightarrow>
   \<exists>m'. decompress_loop (bs @ rest) 0 0 m = decompress_loop (bs @ rest) (length bs) (length xs) m' \<and>
     length m' = length m \<and> take (length xs) m' = xs \<and> drop (length xs) m' = drop (length xs) m"
proof (induction bs xs arbitrary: rest rule: lzf_stream.induct)
  case nothing
  then show ?case by auto
next
  case (literals bs xs ls)
  let ?c = "of_nat (length ls - 1) :: byte"
  obtain m1 where m1: "decompress_loop (bs @ (?c # ls) @ rest) 0 0 m = decompress_loop (bs @ (?c # ls) @ rest) (length bs) (length xs) m1"
    "length m1 = length m" "take (length xs) m1 = xs" "drop (length xs) m1 = drop (length xs) m"
    using literals.IH [of "(?c # ls) @ rest"] literals.prems by auto
  have "unat ?c + 1 = length ls" using literals.hyps by (subst unat_of_nat) simp
  then have r: "decompress_round (bs @ (?c # ls) @ rest) (length bs) (length xs) m1 =
      Some (Inr (length bs + 1 + length ls, length xs + length ls, write_at (length xs) ls m1))"
    using literals.hyps literals.prems m1(2) by (intro decompress_round_literals) simp_all
  have "decompress_loop (bs @ (?c # ls) @ rest) (length bs) (length xs) m1 =
      decompress_loop (bs @ (?c # ls) @ rest) (length bs + 1 + length ls) (length xs + length ls) (write_at (length xs) ls m1)"
    by (subst decompress_loop.simps) (simp add: r [simplified])
  moreover have "drop (length xs + length ls) m1 = drop (length xs + length ls) m"
    using m1(4) by (rule drop_more)
  ultimately show ?case using m1 literals.prems
    by (intro exI [of _ "write_at (length xs) ls m1"]) (simp add: write_at_def)
next
  case (reference bs xs len off ys)
  let ?r = "ref_bytes off len"
  obtain m1 where m1: "decompress_loop (bs @ ?r @ rest) 0 0 m = decompress_loop (bs @ ?r @ rest) (length bs) (length xs) m1"
    "length m1 = length m" "take (length xs) m1 = xs" "drop (length xs) m1 = drop (length xs) m"
    using reference.IH [of "?r @ rest"] reference.prems by auto
  obtain m2 where r: "decompress_round (bs @ ?r @ rest) (length bs) (length xs) m1 =
      Some (Inr (length bs + length ?r, length xs + (len + 2), m2))"
    and c: "copied_within (len + 2) (length xs - off - 1) (length xs) m1 m2"
    using decompress_round_reference [of off "length xs" len m1 bs rest] reference.hyps reference.prems m1(2) by auto
  have ne: "0 < length ?r" by (simp add: ref_bytes_def)
  have "take (length xs + (len + 2)) m2 = xs @ ys"
    using copied_within_unique [OF c m1(3) refl refl] reference.hyps reference.prems m1(2) by simp
  moreover have "length m2 = length m" "drop (length xs + (len + 2)) m2 = drop (length xs + (len + 2)) m"
    using c m1(2) drop_more [OF m1(4), of "len + 2"] by (simp_all add: copied_within_def)
  moreover have "decompress_loop (bs @ ?r @ rest) (length bs) (length xs) m1 =
      decompress_loop (bs @ ?r @ rest) (length bs + length ?r) (length xs + (len + 2)) m2"
    by (subst decompress_loop.simps) (use ne r in simp)
  ultimately show ?case using m1(1) reference.hyps(6) by (intro exI [of _ m2]) (simp add: add.assoc)
qed

subsection \<open>Decompression of arbitrary bytes is safe\<close>

lemma copy_ref_length: "copy_ref n r p m = Some m' \<Longrightarrow> length m' = length m"
  by (induction n arbitrary: r p m) (auto simp: bind_eq_Some_conv mem_set_def split: if_splits)

lemma decompress_round_safe:
  assumes "i < length ins" "p \<le> length m"
  shows "\<exists>r. decompress_round ins i p m = Some r \<and>
    (case r of Inl e \<Rightarrow> True | Inr (i1, p1, m1) \<Rightarrow> p1 \<le> length m1 \<and> length m1 = length m)"
proof -
  obtain c where c: "mem_get ins i = Some c" using assms(1) by (simp add: mem_get_def)
  show ?thesis
  proof (cases "unat c < 32")
    case True
    then show ?thesis using assms copy_bytes_ok [of "i + 1" "unat c + 1" ins p m]
      by (simp add: decompress_round_def c Let_def length_write_at length_read_at split: if_splits)
  next
    case False
    define q where "q = unat c div 32"
    define h where "h = unat c mod 32"
    define M where "M len y j =
      (if p + len + 2 > length m then Some (Inl E2BIG) else if int p - int (h * 256) - 1 - int y < 0 then Some (Inl EINVAL)
        else do { out1 \<leftarrow> copy_match len (nat (int p - int (h * 256) - 1 - int y)) p m; Some (Inr (j, p + (len + 2), out1)) })"
      for len y and j :: nat
    have match: "\<exists>r. M len y j = Some r \<and>
      (case r of Inl e \<Rightarrow> True | Inr (i1, p1, m1) \<Rightarrow> p1 \<le> length m1 \<and> length m1 = length m)" for len y j
    proof -
      define ref where "ref = int p - int (h * 256) - 1 - int y"
      have "nat ref < p" if "\<not> ref < 0" using that by (simp add: ref_def)
      then show ?thesis
        using copy_match_ok [of "nat ref" p len m] unfolding M_def ref_def [symmetric] by (auto simp: copied_within_def)
    qed
    have v: "mem_get ins j = Some (ins ! j)" if "j < length ins" for j using that by (simp add: mem_get_def)
    show ?thesis using match
      unfolding decompress_round_def c bind.bind_lunit Let_def if_not_P [OF False] q_def [symmetric] h_def [symmetric] M_def [symmetric]
      by (cases "i + 1 < length ins"; cases "q = 7"; cases "i + 2 < length ins") (simp_all add: v not_less)
  qed
qed

lemma decompress_loop_safe:
  "p \<le> length m \<Longrightarrow> \<exists>r. decompress_loop ins i p m = Some r \<and> (case r of Inl e \<Rightarrow> True | Inr (n, m') \<Rightarrow> n \<le> length m' \<and> length m' = length m)"
proof (induction ins i p m rule: decompress_loop.induct)
  case (1 ins i p m)
  show ?case
  proof (cases "i < length ins")
    case True
    obtain r where r: "decompress_round ins i p m = Some r"
      "case r of Inl e \<Rightarrow> True | Inr (i1, p1, m1) \<Rightarrow> p1 \<le> length m1 \<and> length m1 = length m"
      using decompress_round_safe [OF True "1.prems"] by blast
    show ?thesis
    proof (cases r)
      case (Inl e)
      then show ?thesis using True r by (subst decompress_loop.simps) simp
    next
      case (Inr t)
      obtain i1 p1 m1 where t: "t = (i1, p1, m1)" by (cases t)
      have l: "p1 \<le> length m1" "length m1 = length m" using r(2) Inr t by simp_all
      obtain q where "decompress_loop ins i1 p1 m1 = Some q"
        "case q of Inl e \<Rightarrow> True | Inr (n, m') \<Rightarrow> n \<le> length m' \<and> length m' = length m1"
        using "1.IH" [OF True r(1) Inr t [symmetric] refl l(1)] by blast
      then show ?thesis using True r Inr t l(2) by (subst decompress_loop.simps) (auto split: sum.splits)
    qed
  next
    case False
    then show ?thesis using "1.prems" by (subst decompress_loop.simps) simp
  qed
qed

section \<open>The compressor writes a stream\<close>

subsection \<open>Finding a match\<close>

definition same_bytes :: "byte list \<Rightarrow> nat \<Rightarrow> nat \<Rightarrow> nat \<Rightarrow> bool" where
  "same_bytes ins r i n \<longleftrightarrow> (\<forall>j < n. ins ! (r + j) = ins ! (i + j))"

lemma same_bytes_Suc: "same_bytes ins r i (Suc n) \<longleftrightarrow> same_bytes ins r i n \<and> ins ! (r + n) = ins ! (i + n)"
  by (auto simp: same_bytes_def less_Suc_eq)

lemma len_loop_ok:
  "r < i \<Longrightarrow> same_bytes ins r i (len + 1) \<Longrightarrow> i + maxlen \<le> length ins \<Longrightarrow>
    \<exists>n. len_loop ins r i maxlen len = Some n \<and> same_bytes ins r i n \<and> n \<le> max (len + 1) maxlen"
proof (induction ins r i maxlen len rule: len_loop.induct)
  case (1 ins r i maxlen len)
  show ?case
  proof (cases "len + 1 < maxlen")
    case True
    then have g: "mem_get ins (r + (len + 1)) = Some (ins ! (r + (len + 1)))" "mem_get ins (i + (len + 1)) = Some (ins ! (i + (len + 1)))"
      using "1.prems"(1,3) by (simp_all add: mem_get_def)
    show ?thesis
    proof (cases "ins ! (r + (len + 1)) = ins ! (i + (len + 1))")
      case e: True
      then have "same_bytes ins r i (len + 1 + 1)" using "1.prems"(2) by (simp add: same_bytes_Suc)
      with "1.IH" [OF True g(1) g(2) e "1.prems"(1) this "1.prems"(3)] obtain n where
        "len_loop ins r i maxlen (len + 1) = Some n" "same_bytes ins r i n" "n \<le> maxlen"
        using True by auto
      then show ?thesis using True g e by (subst len_loop.simps) simp
    next
      case False
      then show ?thesis using True g "1.prems"(2) by (subst len_loop.simps) simp
    qed
  next
    case False
    then show ?thesis using "1.prems"(2) by (subst len_loop.simps) simp
  qed
qed

lemma len_unrolled_ok:
  "r < i \<Longrightarrow> same_bytes ins r i (len + 1) \<Longrightarrow> i + len + n < length ins \<Longrightarrow>
   \<exists>m b. len_unrolled ins r i n len = Some (m, b) \<and> m \<le> len + n \<and> same_bytes ins r i m \<and>
     (\<not> b \<longrightarrow> m = len + n \<and> same_bytes ins r i (m + 1))"
proof (induction n arbitrary: len)
  case 0
  then show ?case by (auto simp: same_bytes_Suc)
next
  case (Suc n)
  have g: "mem_get ins (r + (len + 1)) = Some (ins ! (r + (len + 1)))" "mem_get ins (i + (len + 1)) = Some (ins ! (i + (len + 1)))"
    using Suc.prems(1,3) by (simp_all add: mem_get_def)
  show ?case
  proof (cases "ins ! (r + (len + 1)) = ins ! (i + (len + 1))")
    case True
    then have "same_bytes ins r i (len + 1 + 1)" using Suc.prems(2) by (simp add: same_bytes_Suc)
    then show ?thesis using Suc.IH [of "len + 1"] Suc.prems g True by auto
  next
    case False
    then show ?thesis using g Suc.prems(2) by auto
  qed
qed

lemma match_len_ok:
  assumes "r < i" "i + 2 < length ins" "same_bytes ins r i 3"
  shows "\<exists>n. match_len ins r i = Some n \<and> 3 \<le> n \<and> n \<le> 264 \<and> i + n \<le> length ins \<and> same_bytes ins r i n"
proof -
  define maxlen where "maxlen = min (length ins - i - 2) MAX_REF"
  have ml: "i + maxlen + 2 \<le> length ins" "maxlen \<le> 264" using assms(2) by (auto simp: maxlen_def MAX_REF_def)
  have unf: "match_len ins r i = (if maxlen > 16 then
      do { (len, brk) \<leftarrow> len_unrolled ins r i 16 2; if brk then Some len else len_loop ins r i maxlen len }
      else len_loop ins r i maxlen 2)" unfolding match_len_def maxlen_def Let_def ..
  have ge: "3 \<le> n" if "match_len ins r i = Some n" for n using match_len_ge [OF that] by simp
  show ?thesis
  proof (cases "maxlen > 16")
    case True
    obtain m b where u: "len_unrolled ins r i 16 2 = Some (m, b)" "m \<le> 18" "same_bytes ins r i m"
      "\<not> b \<longrightarrow> m = 18 \<and> same_bytes ins r i (m + 1)"
      using len_unrolled_ok [OF assms(1), of ins 2 16] assms(3) ml True by auto
    show ?thesis
    proof (cases b)
      case b: True
      then have "match_len ins r i = Some m" using True u(1) by (simp add: unf)
      then show ?thesis using ge u(2,3) True ml by auto
    next
      case False
      then obtain n where n: "len_loop ins r i maxlen m = Some n" "same_bytes ins r i n" "n \<le> max (m + 1) maxlen"
        using len_loop_ok [OF assms(1), of ins m maxlen] u(4) ml(1) by auto
      have "match_len ins r i = Some n" using True u(1) False n(1) by (simp add: unf)
      then show ?thesis using ge n(2,3) False u(4) True ml by auto
    qed
  next
    case False
    obtain n where n: "len_loop ins r i maxlen 2 = Some n" "same_bytes ins r i n" "n \<le> max (2 + 1) maxlen"
      using len_loop_ok [OF assms(1), of ins 2 maxlen] assms(3) ml(1) by auto
    have "match_len ins r i = Some n" using False n(1) by (simp add: unf)
    then show ?thesis using ge n(2,3) False assms(2) ml by auto
  qed
qed

text \<open>The input lies in the address space, behind the first pages.\<close>

definition address_ok :: "u64 \<Rightarrow> byte list \<Rightarrow> bool" where
  "address_ok base ins \<longleftrightarrow> 8192 \<le> unat base \<and> unat base + length ins < 2 ^ 64"

lemma window:
  assumes a: "address_ok base ins" and i: "i \<le> length ins" and w: "unat (base + of_nat i - ref - 1) < MAX_OFF" "base < ref"
  shows "unat (ref - base) < i \<and> 0 < unat (ref - base) \<and> unat (base + of_nat i - ref - 1) = i - unat (ref - base) - 1"
proof -
  define R where "R = unat ref"
  define r where "r = unat (ref - base)"
  have lt: "unat base < R" using w(2) by (simp add: word_less_nat_alt R_def)
  have r: "r = R - unat base" using lt by (simp add: r_def R_def unat_sub word_le_nat_alt)
  have R: "R < 2 ^ 64" using unsigned_less [of ref] by (simp add: R_def)
  have ref: "ref = base + of_nat r" by (simp add: r_def)
  have off: "base + of_nat i - ref - 1 = word_of_int (int i - int r - 1)" unfolding ref by simp
  have u: "int (unat (base + of_nat i - ref - 1)) = (int i - int r - 1) mod 2 ^ 64"
    unfolding off uint_nat [symmetric] uint_word_of_int by simp
  have "r < i"
  proof (rule ccontr)
    assume "\<not> r < i"
    then have x: "int i - int r - 1 < 0" by simp
    have y: "8192 \<le> int i - int r - 1 + 2 ^ 64"
    proof -
      obtain b where b: "b = unat base" by blast
      then have "r = R - b" "b < R" "8192 \<le> b" using lt r a by (simp_all add: address_ok_def)
      then have "int r = int R - int b" "8192 \<le> int b" by simp_all
      moreover have "int R < 2 ^ 64" using R by simp
      ultimately show ?thesis by linarith
    qed
    have "(int i - int r - 1) mod 2 ^ 64 = (int i - int r - 1 + 2 ^ 64) mod 2 ^ 64"
      by (rule mod_add_self2 [symmetric])
    also have "\<dots> = int i - int r - 1 + 2 ^ 64" using x y by (intro mod_pos_pos_trivial) linarith+
    finally have "int (unat (base + of_nat i - ref - 1)) \<ge> 8192" using u y by linarith
    then show False using w(1) unfolding MAX_OFF_def by linarith
  qed
  then have "(int i - int r - 1) mod 2 ^ 64 = int i - int r - 1"
    using a i by (intro mod_pos_pos_trivial) (auto simp: address_ok_def)
  then have "int (unat (base + of_nat i - ref - 1)) = int i - int r - 1" using u by linarith
  with \<open>r < i\<close> have "unat (base + of_nat i - ref - 1) = i - r - 1" by linarith
  then show ?thesis using \<open>r < i\<close> r lt unfolding r_def [symmetric] by linarith
qed

lemma lzf_test_ok:
  assumes "address_ok base ins" "i + 2 < length ins"
  shows "\<exists>b. lzf_test ins base i ref = Some b \<and>
    (b \<longrightarrow> unat (ref - base) < i \<and> unat (base + of_nat i - ref - 1) < 8192 \<and>
       unat (base + of_nat i - ref - 1) = i - unat (ref - base) - 1 \<and> same_bytes ins (unat (ref - base)) i 3)"
proof (cases "unat (base + of_nat i - ref - 1) < MAX_OFF \<and> base < ref")
  case True
  define r where "r = unat (ref - base)"
  have w: "r < i" "unat (base + of_nat i - ref - 1) = i - r - 1" using window [OF assms(1), of i ref] True assms(2) by (auto simp: r_def)
  have g: "mem_get ins k = Some (ins ! k)" if "k \<in> {r, r + 1, r + 2, i, i + 1, i + 2}" for k
    using that w(1) assms(2) by (auto simp: mem_get_def)
  show ?thesis using True w
    by (auto simp: lzf_test_def r_def [symmetric] g MAX_OFF_def same_bytes_Suc numeral_3_eq_3 same_bytes_def less_Suc_eq numeral_2_eq_2)
next
  case False
  then show ?thesis unfolding lzf_test_def if_not_P [OF False] by (intro exI [of _ False]) simp
qed

subsection \<open>The state between two rounds\<close>

text \<open>
  The output is a stream of the input up to the pending run of literals, for which one byte is left
  out, followed by these literals.
\<close>

definition lzf_inv :: "byte list \<Rightarrow> nat \<Rightarrow> lzf_state \<Rightarrow> bool" where
  "lzf_inv ins n s \<longleftrightarrow> length (outp s) = n \<and> lit s < 32 \<and> lit s \<le> ip s \<and> ip s \<le> length ins \<and> lit s + 1 \<le> op s \<and>
     (if lit s = 0 then op s \<le> n + 1 else op s \<le> n) \<and>
     lzf_stream (take (op s - lit s - 1) (outp s)) (take (ip s - lit s) ins) \<and>
     read_at (op s - lit s) (lit s) (outp s) = read_at (ip s - lit s) (lit s) ins"

lemma take_read: "i \<le> j \<Longrightarrow> take j xs = take i xs @ read_at i (j - i) xs"
  by (metis read_at_def le_add_diff_inverse take_add)

lemma read_one: "q < length xs \<Longrightarrow> read_at q 1 xs = [xs ! q]"
  by (metis read_at_def Cons_nth_drop_Suc One_nat_def take_Suc_Cons take_0)

text \<open>Ending a run of literals makes the output a stream.\<close>

lemma stop_run_ok:
  assumes len: "length (outp s) = n" "lit s \<le> 32" "lit s \<le> ip s" "ip s \<le> length ins" "lit s + 1 \<le> op s"
    and o: "if lit s = 0 then op s \<le> n + 1 \<and> op s - 1 < n else op s \<le> n"
    and st: "lzf_stream (take (op s - lit s - 1) (outp s)) (take (ip s - lit s) ins)"
    and lits: "read_at (op s - lit s) (lit s) (outp s) = read_at (ip s - lit s) (lit s) ins"
  shows "\<exists>m. stop_run s = Some m \<and> length m = n \<and> lzf_stream (take (op s - (if lit s = 0 then 1 else 0)) m) (take (ip s) ins)"
proof -
  define q where "q = op s - lit s - 1"
  define c :: byte where "c = word_of_int (int (lit s) - 1)"
  have q: "q < n" using len(5) o by (auto simp: q_def split: if_splits)
  then have sr: "stop_run s = Some ((outp s)[q := c])" using len(1,5) by (simp add: stop_run_def mem_set_def q_def c_def)
  let ?m = "(outp s)[q := c]"
  have pre: "take q ?m = take q (outp s)" by simp
  show ?thesis
  proof (cases "lit s = 0")
    case True
    then show ?thesis using sr st len(1) by (simp add: q_def)
  next
    case False
    let ?ls = "read_at (ip s - lit s) (lit s) ins"
    have ls: "length ?ls = lit s" using len(3,4) by (simp add: length_read_at)
    have c: "c = of_nat (length ?ls - 1)" using False ls by (simp add: c_def of_nat_diff)
    have "take (op s) ?m = take q (outp s) @ c # read_at (op s - lit s) (lit s) (outp s)"
    proof -
      have e: "op s = q + 1 + lit s" using len(5) by (simp add: q_def)
      have e2: "q + 1 = op s - lit s" using len(5) by (simp add: q_def)
      have "take (op s) ?m = take q ?m @ read_at q 1 ?m @ read_at (q + 1) (lit s) ?m"
        unfolding e read_at_def take_add [of "q + 1"] take_add [of q 1] by simp
      also have "read_at q 1 ?m = [c]" using q len(1) read_one [of q ?m] by simp
      also have "read_at (q + 1) (lit s) ?m = read_at (q + 1) (lit s) (outp s)" by (simp add: read_at_def)
      finally show ?thesis unfolding e2 pre by simp
    qed
    then have t: "take (op s) ?m = take q (outp s) @ of_nat (length ?ls - 1) # ?ls" using lits c by simp
    have "lzf_stream (take (op s) ?m) (take (ip s - lit s) ins @ ?ls)"
      unfolding t using st False len(2) ls by (intro lzf_stream.literals) (simp_all add: q_def)
    moreover have "take (ip s - lit s) ins @ ?ls = take (ip s) ins" using take_read [of "ip s - lit s" "ip s" ins] len(3) by simp
    ultimately show ?thesis using sr False len(1) by simp
  qed
qed

lemma put_literal_ok:
  assumes inv: "lzf_inv ins n s" and i: "ip s < length ins" and o: "op s < n"
  shows "\<exists>s1. put_literal ins s = Some s1 \<and> lzf_inv ins n s1 \<and> ip s1 = ip s + 1 \<and> op s1 \<le> op s + (if lit s = 31 then 2 else 1) \<and>
    lit s1 = (if lit s = 31 then 0 else lit s + 1)"
proof -
  have v: "length (outp s) = n" "lit s < 32" "lit s \<le> ip s" "ip s \<le> length ins" "lit s + 1 \<le> op s"
    and st: "lzf_stream (take (op s - lit s - 1) (outp s)) (take (ip s - lit s) ins)"
    and li: "read_at (op s - lit s) (lit s) (outp s) = read_at (ip s - lit s) (lit s) ins"
    using inv by (simp_all add: lzf_inv_def)
  let ?b = "ins ! ip s"
  let ?s = "s\<lparr>lit := lit s + 1, outp := (outp s)[op s := ?b], op := op s + 1, ip := ip s + 1\<rparr>"
  have snoc: "read_at (k - l) (l + 1) xs = read_at (k - l) l xs @ [xs ! k]" if "l \<le> k" "k < length xs" for k l and xs :: "byte list"
    using that by (simp add: read_at_def take_Suc_conv_app_nth)
  have li': "read_at (op s - lit s) (lit s + 1) ((outp s)[op s := ?b]) = read_at (ip s - lit s) (lit s + 1) ins"
  proof -
    have "read_at (op s - lit s) (lit s) ((outp s)[op s := ?b]) = read_at (op s - lit s) (lit s) (outp s)"
      using v(5) by (simp add: read_at_def drop_update_swap)
    then show ?thesis using snoc [of "lit s" "op s" "(outp s)[op s := ?b]"] snoc [of "lit s" "ip s" ins] v o i li by simp
  qed
  have p: "put_literal ins s = (if lit ?s = MAX_LIT
      then do { out2 \<leftarrow> stop_run ?s; Some (?s\<lparr>outp := out2, lit := 0, op := op ?s + 1\<rparr>) } else Some ?s)"
    using i o v(1) by (simp add: put_literal_def mem_get_def mem_set_def Let_def)
  have st': "lzf_stream (take (op ?s - lit ?s - 1) (outp ?s)) (take (ip ?s - lit ?s) ins)" using st by simp
  show ?thesis
  proof (cases "lit s = 31")
    case True
    have "\<exists>m. stop_run ?s = Some m \<and> length m = n \<and> lzf_stream (take (op ?s - (if lit ?s = 0 then 1 else 0)) m) (take (ip ?s) ins)"
      using v o i st' li' by (intro stop_run_ok) simp_all
    then obtain m where m: "stop_run ?s = Some m" "length m = n" "lzf_stream (take (op s + 1) m) (take (ip s + 1) ins)" by auto
    then have "lzf_inv ins n (?s\<lparr>outp := m, lit := 0, op := op ?s + 1\<rparr>)"
      using o i by (simp add: lzf_inv_def read_at_def)
    then show ?thesis unfolding p using True m(1) by (simp add: MAX_LIT_def)
  next
    case False
    then have "lzf_inv ins n ?s" using v o i st' li' by (simp add: lzf_inv_def)
    then show ?thesis unfolding p using False by (simp add: MAX_LIT_def)
  qed
qed

lemma put_ref_ok:
  assumes "p + 3 \<le> length m"
  shows "\<exists>m'. put_ref m p off len = Some (m', p + length (ref_bytes off len)) \<and> length m' = length m \<and>
    take (p + length (ref_bytes off len)) m' = take p m @ ref_bytes off len"
  using assms
  by (auto simp: put_ref_def mem_set_def ref_bytes_def take_Suc_conv_app_nth list_update_append numeral_3_eq_3 numeral_2_eq_2
      nth_append take_update_swap)

lemma reads:
  "p + 2 < length ins \<Longrightarrow> \<exists>h. NEXT v ins p = Some h" "p + 1 < length ins \<Longrightarrow> \<exists>h. FRST ins p = Some h"
  by (simp_all add: NEXT_def FRST_def mem_get_def)

lemma put_match_ok:
  assumes inv: "lzf_inv ins n s" and i: "ip s + 2 < length ins"
    and r: "r = unat (ref - base)" "r < ip s" "unat (base + of_nat (ip s) - ref - 1) = ip s - r - 1"
    and off: "ip s - r - 1 < 8192" and same: "same_bytes ins r (ip s) 3"
  shows "\<exists>x s1. put_match ins base ref s = Some x \<and> (x = Return_0 s \<or> (x = Break s1 \<or> x = Continue s1) \<and> lzf_inv ins n s1) \<and>
    (x = Break s1 \<longrightarrow> length ins \<le> ip s1 + 2) \<and> length (outp s) = n"
proof -
  have v: "length (outp s) = n" "lit s < 32" "lit s \<le> ip s" "ip s \<le> length ins" "lit s + 1 \<le> op s"
    and st: "lzf_stream (take (op s - lit s - 1) (outp s)) (take (ip s - lit s) ins)"
    and li: "read_at (op s - lit s) (lit s) (outp s) = read_at (ip s - lit s) (lit s) ins"
    using inv by (simp_all add: lzf_inv_def)
  define nl where "nl = (if lit s = 0 then 1 else 0 :: nat)"
  define p where "p = op s - nl"
  show ?thesis
  proof (cases "op s + 4 \<ge> length (outp s) \<and> op s + 4 \<ge> length (outp s) + nl")
    case True
    then show ?thesis using v(1) by (simp add: put_match_def nl_def Let_def)
  next
    case False
    then have p4: "p + 4 < n" using v(1,5) by (auto simp: p_def nl_def split: if_splits)
    obtain m1 where m1: "stop_run s = Some m1" "length m1 = n" "lzf_stream (take p m1) (take (ip s) ins)"
    proof -
      have "\<exists>m. stop_run s = Some m \<and> length m = n \<and> lzf_stream (take (op s - (if lit s = 0 then 1 else 0)) m) (take (ip s) ins)"
        using v st li p4 by (intro stop_run_ok) (auto simp: p_def nl_def)
      then show ?thesis using that by (auto simp: p_def nl_def)
    qed
    obtain k where k: "match_len ins r (ip s) = Some k" "3 \<le> k" "k \<le> 264" "ip s + k \<le> length ins" "same_bytes ins r (ip s) k"
      using match_len_ok [OF r(2) i same] by blast
    define off where "off = ip s - r - 1"
    let ?b = "ref_bytes off (k - 2)"
    obtain m2 where m2: "put_ref m1 p off (k - 2) = Some (m2, p + length ?b)" "length m2 = n" "take (p + length ?b) m2 = take p m1 @ ?b"
      using put_ref_ok [of p m1 off "k - 2"] m1(2) p4 by auto
    have b3: "length ?b \<le> 3" by (simp add: ref_bytes_def)
    define s1 where "s1 = s\<lparr>outp := m2, lit := 0, op := p + length ?b + 1, ip := ip s + k\<rparr>"
    have st1: "lzf_stream (take p m1 @ ?b) (take (ip s) ins @ read_at (ip s) k ins)"
    proof (rule lzf_stream.reference [OF m1(3)])
      show "\<forall>j < k - 2 + 2. read_at (ip s) k ins ! j = (take (ip s) ins @ read_at (ip s) k ins) ! (length (take (ip s) ins) + j - off - 1)"
      proof (intro allI impI)
        fix j assume "j < k - 2 + 2"
        then have j: "j < k" using k(2) by simp
        have "take (ip s) ins @ read_at (ip s) k ins = take (ip s + k) ins" by (simp add: read_at_def take_add)
        moreover have "length (take (ip s) ins) + j - off - 1 = r + j" using v(4) r(2) by (simp add: off_def)
        ultimately show "read_at (ip s) k ins ! j = (take (ip s) ins @ read_at (ip s) k ins) ! (length (take (ip s) ins) + j - off - 1)"
          using k(4,5) j r(2) by (simp add: nth_read_at same_bytes_def)
      qed
    qed (use k assms(6) r(2) v(4) in \<open>auto simp: off_def length_read_at\<close>)
    have inv1: "lzf_inv ins n (s1\<lparr>htab := t, hval := h\<rparr>)" for t h
      using st1 m2 k(4) p4 b3 by (simp add: lzf_inv_def s1_def read_at_def take_add)
    have pm: "put_match ins base ref s =
        (if ip s1 + 2 \<ge> length ins then Some (Break s1)
         else do {
           h0 \<leftarrow> FRST ins (ip s1 - 2); h1 \<leftarrow> NEXT h0 ins (ip s1 - 2);
           let t1 = (htab s)(IDX h1 := base + of_nat (ip s1 - 2));
           h2 \<leftarrow> NEXT h1 ins (ip s1 - 1);
           let t2 = t1(IDX h2 := base + of_nat (ip s1 - 1));
           Some (Continue (s1\<lparr>htab := t2, hval := h2\<rparr>)) })"
      unfolding put_match_def Let_def nl_def [symmetric] if_not_P [OF False] m1(1) r(1) [symmetric] k(1) r(3) p_def [symmetric]
        off_def [symmetric] bind.bind_lunit m2(1) prod.case s1_def [symmetric] ..
    show ?thesis
    proof (cases "ip s1 + 2 \<ge> length ins")
      case True
      then show ?thesis unfolding pm using inv1 [of "hval s1" "htab s1"] v(1) by (intro exI [of _ "Break s1"] exI [of _ s1]) simp
    next
      case False
      have "ip s1 \<ge> 3" using k(2) by (simp add: s1_def)
      then obtain h0 h1 h2 where h: "FRST ins (ip s1 - 2) = Some h0" "NEXT h0 ins (ip s1 - 2) = Some h1" "NEXT h1 ins (ip s1 - 1) = Some h2"
        using reads(2) [of "ip s1 - 2" ins] reads(1) [of "ip s1 - 2" ins] reads(1) [of "ip s1 - 1" ins] False by fastforce
      show ?thesis unfolding pm if_not_P [OF False] h bind.bind_lunit Let_def using inv1 v(1) by blast
    qed
  qed
qed

lemma lzf_round_ok:
  assumes a: "address_ok base ins" and inv: "lzf_inv ins n s" and i: "ip s + 2 < length ins"
  shows "\<exists>x s1. lzf_round ins base s = Some x \<and> (x = Return_0 s1 \<and> length (outp s1) = n \<or> (x = Break s1 \<or> x = Continue s1) \<and> lzf_inv ins n s1) \<and>
    (x = Break s1 \<longrightarrow> length ins \<le> ip s1 + 2)"
proof -
  obtain h where h: "NEXT (hval s) ins (ip s) = Some h" using reads(1) [OF i] by blast
  define ref where "ref = htab s (IDX h)"
  define s0 where "s0 = s\<lparr>hval := h, htab := (htab s)(IDX h := base + of_nat (ip s))\<rparr>"
  have s0: "lzf_inv ins n s0" "ip s0 = ip s" "length (outp s0) = n" using inv by (auto simp: lzf_inv_def s0_def)
  obtain b where b: "lzf_test ins base (ip s) ref = Some b"
    "b \<longrightarrow> unat (ref - base) < ip s \<and> unat (base + of_nat (ip s) - ref - 1) < 8192 \<and>
       unat (base + of_nat (ip s) - ref - 1) = ip s - unat (ref - base) - 1 \<and> same_bytes ins (unat (ref - base)) (ip s) 3"
    using lzf_test_ok [OF a i, of ref] by blast
  have rd: "lzf_round ins base s = (if b then put_match ins base ref s0
      else if op s0 \<ge> length (outp s0) then Some (Return_0 s0) else map_option Continue (put_literal ins s0))"
    unfolding lzf_round_def h bind.bind_lunit Let_def ref_def [symmetric] s0_def [symmetric] b(1) ..
  show ?thesis
  proof (cases b)
    case True
    then show ?thesis using put_match_ok [OF s0(1) _ refl, of ref base] b(2) i s0(2,3) unfolding rd by auto
  next
    case False
    then show ?thesis using put_literal_ok [OF s0(1)] s0 i unfolding rd by (cases "op s0 \<ge> n") auto
  qed
qed

lemma lzf_loop_ok:
  "address_ok base ins \<Longrightarrow> lzf_inv ins n s \<Longrightarrow>
   \<exists>x s1. lzf_loop ins base s = Some x \<and> (x = Return_0 s1 \<and> length (outp s1) = n \<or> x = Break s1 \<and> lzf_inv ins n s1 \<and> length ins \<le> ip s1 + 2)"
proof (induction ins base s rule: lzf_loop.induct)
  case (1 ins base s)
  show ?case
  proof (cases "ip s + 2 < length ins")
    case True
    obtain x s1 where x: "lzf_round ins base s = Some x"
      "x = Return_0 s1 \<and> length (outp s1) = n \<or> (x = Break s1 \<or> x = Continue s1) \<and> lzf_inv ins n s1" "x = Break s1 \<longrightarrow> length ins \<le> ip s1 + 2"
      using lzf_round_ok [OF "1.prems" True] by blast
    show ?thesis
    proof (cases "x = Continue s1")
      case c: True
      then have "lzf_loop ins base s = lzf_loop ins base s1" using True x(1) by (subst lzf_loop.simps) simp
      then show ?thesis using "1.IH" [OF True x(1) c "1.prems"(1)] x(2) c by auto
    next
      case False
      then have "lzf_loop ins base s = Some x" using True x(1,2) by (subst lzf_loop.simps) auto
      then show ?thesis using x(2,3) False by blast
    qed
  next
    case False
    then show ?thesis using "1.prems"(2) by (subst lzf_loop.simps) simp
  qed
qed

text \<open>Two bytes are left at most, and one more may be needed to start a run.\<close>

lemma lzf_tail_ok:
  "lzf_inv ins n s \<Longrightarrow> length ins \<le> ip s + 2 \<Longrightarrow> op s + (length ins - ip s) + (if lit s + (length ins - ip s) \<ge> 32 then 1 else 0) \<le> n \<Longrightarrow>
   \<exists>s1. lzf_tail ins s = Some s1 \<and> lzf_inv ins n s1 \<and> ip s1 = length ins \<and> op s1 \<le> n"
proof (induction ins s rule: lzf_tail.induct)
  case (1 ins s)
  show ?case
  proof (cases "ip s < length ins")
    case True
    then have "op s < n" using "1.prems"(3) by simp
    then obtain s1 where s1: "put_literal ins s = Some s1" "lzf_inv ins n s1" "ip s1 = ip s + 1"
      "op s1 \<le> op s + (if lit s = 31 then 2 else 1)" "lit s1 = (if lit s = 31 then 0 else lit s + 1)"
      using put_literal_ok [OF "1.prems"(1) True] by blast
    have "op s1 + (length ins - ip s1) + (if lit s1 + (length ins - ip s1) \<ge> 32 then 1 else 0) \<le> n"
      using s1(3-5) "1.prems"(2,3) True by (auto split: if_splits)
    then show ?thesis using "1.IH" [OF True s1(1,2)] s1(1,3) "1.prems"(2) True by (subst lzf_tail.simps) auto
  next
    case False
    then have "ip s = length ins" using "1.prems"(1) by (simp add: lzf_inv_def)
    then show ?thesis using "1.prems" by (subst lzf_tail.simps) (simp split: if_splits)
  qed
qed

text \<open>The result of \<^verbatim>\<open>lzf_compress\<close> is a stream of the whole input.\<close>

lemma lzf_compress_ok:
  assumes a: "address_ok base ins" and i: "2 \<le> length ins"
  shows "\<exists>k m. lzf_compress base table ins out_data = Some (k, m) \<and> length m = length out_data \<and> k \<le> length out_data \<and>
    (k \<noteq> 0 \<longrightarrow> lzf_stream (take k m) ins)"
proof (cases "out_data = []")
  case True
  then show ?thesis by (simp add: lzf_compress_def)
next
  case False
  let ?n = "length out_data"
  obtain h where h: "FRST ins 0 = Some h" using reads(2) [of 0 ins] i by auto
  define s0 where "s0 = \<lparr>ip = 0, op = 1, lit = 0, outp = out_data, htab = table, hval = h\<rparr>"
  have "lzf_inv ins ?n s0" by (simp add: lzf_inv_def s0_def read_at_def lzf_stream.nothing)
  then obtain x s1 where x: "lzf_loop ins base s0 = Some x"
    "x = Return_0 s1 \<and> length (outp s1) = ?n \<or> x = Break s1 \<and> lzf_inv ins ?n s1 \<and> length ins \<le> ip s1 + 2"
    using lzf_loop_ok [OF a] by blast
  have c: "lzf_compress base table ins out_data =
      (case x of Break s \<Rightarrow>
              (if op s + 3 > length (outp s) then Some (0, outp s)
               else do { s1 \<leftarrow> lzf_tail ins s; out1 \<leftarrow> stop_run s1; Some (op s1 - (if lit s1 = 0 then 1 else 0), out1) })
          | Return_0 s \<Rightarrow> Some (0, outp s) | Continue s \<Rightarrow> None)"
    using False i unfolding lzf_compress_def h bind.bind_lunit s0_def [symmetric] x(1) by auto
  show ?thesis
  proof (cases "x = Break s1 \<and> \<not> op s1 + 3 > ?n")
    case True
    then have s1: "lzf_inv ins ?n s1" "length ins \<le> ip s1 + 2" "op s1 + 3 \<le> ?n" "length (outp s1) = ?n"
      using x(2) by (auto simp: lzf_inv_def)
    obtain s2 where s2: "lzf_tail ins s1 = Some s2" "lzf_inv ins ?n s2" "ip s2 = length ins" "op s2 \<le> ?n"
    proof -
      have "op s1 + (length ins - ip s1) + (if lit s1 + (length ins - ip s1) \<ge> 32 then 1 else 0) \<le> ?n" using s1(2,3) by auto
      from lzf_tail_ok [OF s1(1,2) this] show ?thesis using that by blast
    qed
    have "\<exists>m. stop_run s2 = Some m \<and> length m = ?n \<and> lzf_stream (take (op s2 - (if lit s2 = 0 then 1 else 0)) m) (take (ip s2) ins)"
      using s2(2,4) by (intro stop_run_ok) (auto simp: lzf_inv_def)
    then obtain m where m: "stop_run s2 = Some m" "length m = ?n" "lzf_stream (take (op s2 - (if lit s2 = 0 then 1 else 0)) m) ins"
      using s2(3) by auto
    then show ?thesis unfolding c using True s1(4) s2(1,4) by auto
  next
    case False
    then show ?thesis unfolding c using x(2) by (auto simp: lzf_inv_def)
  qed
qed

section \<open>Properties\<close>

text \<open>
  Claim C10. Whatever the uninitialised hash table holds, \<^verbatim>\<open>lzf_compress\<close> on an input of two bytes or more terminates,
  accesses no byte outside of the two buffers, and returns either 0 or the length of a compressed text
  from which \<^verbatim>\<open>lzf_decompress\<close> restores exactly the input, into every buffer that is large enough,
  without touching what lies behind.
\<close>

theorem lzf_roundtrip:
  assumes "address_ok base ins" "2 \<le> length ins" "length ins \<le> length buf"
  shows "\<exists>k m. lzf_compress base table ins out_data = Some (k, m) \<and> k \<le> length out_data \<and> length m = length out_data \<and>
    (k \<noteq> 0 \<longrightarrow> lzf_decompress (take k m) buf = Some (Inr (length ins, ins @ drop (length ins) buf)))"
proof -
  obtain k m where c: "lzf_compress base table ins out_data = Some (k, m)" "length m = length out_data" "k \<le> length out_data"
    "k \<noteq> 0 \<longrightarrow> lzf_stream (take k m) ins"
    using lzf_compress_ok [OF assms(1,2), of table out_data] by blast
  have "lzf_decompress (take k m) buf = Some (Inr (length ins, ins @ drop (length ins) buf))" if nz: "k \<noteq> 0"
  proof -
    obtain b where b: "decompress_loop (take k m) 0 0 buf = decompress_loop (take k m) (length (take k m)) (length ins) b"
      "length b = length buf" "take (length ins) b = ins" "drop (length ins) b = drop (length ins) buf"
      using stream_decompress [of "take k m" ins buf "[]"] c(4) nz assms(3) by auto
    have "b = ins @ drop (length ins) buf" using b(3,4) by (metis append_take_drop_id)
    moreover have "decompress_loop (take k m) (length (take k m)) (length ins) b = Some (Inr (length ins, b))"
      by (subst decompress_loop.simps) simp
    ultimately show ?thesis by (simp add: lzf_decompress_def b(1))
  qed
  with c show ?thesis by blast
qed

text \<open>
  Claim C11. \<^verbatim>\<open>lzf_decompress\<close> is safe on arbitrary bytes: it terminates, reads only the input and the output buffer, writes
  only the output buffer, and returns an error or a length within the output buffer.
\<close>

theorem lzf_decompress_safe:
  "case lzf_decompress ins out_data of
     None \<Rightarrow> False
   | Some (Inl e) \<Rightarrow> True
   | Some (Inr (n, m)) \<Rightarrow> n \<le> length out_data \<and> length m = length out_data"
proof -
  obtain r where "lzf_decompress ins out_data = Some r"
    "case r of Inl e \<Rightarrow> True | Inr (n, m) \<Rightarrow> n \<le> length m \<and> length m = length out_data"
    using decompress_loop_safe [of 0 out_data ins 0] unfolding lzf_decompress_def by blast
  then show ?thesis by (cases r) auto
qed

text \<open>An input of one byte: the first hash value takes a byte behind the input.\<close>

lemma lzf_compress_one_byte: "out_data \<noteq> [] \<Longrightarrow> lzf_compress base table [b] out_data = None"
  by (simp add: lzf_compress_def FRST_def mem_get_def)

text \<open>Nine equal bytes: two literals, a reference to the byte before, two literals.\<close>

lemma update_numeral: "(x # xs)[numeral k := y] = x # xs[pred_numeral k := y]"
  by (simp add: numeral_eq_Suc)

lemma ex_compress:
  "lzf_compress 8192 (\<lambda>i. 0) [7, 7, 7, 7, 7, 7, 7, 7, 7] [0, 0, 0, 0, 0, 0, 0, 0, 0] = Some (8, [1, 7, 7, 96, 0, 1, 7, 7, 0])"
  by (simp add: lzf_compress_def FRST_def mem_get_def mem_set_def lzf_loop.simps lzf_tail.simps lzf_round_def NEXT_def IDX_def Let_def
      lzf_test_def put_literal_def put_match_def stop_run_def put_ref_def match_len_def len_loop.simps MAX_OFF_def MAX_LIT_def MAX_REF_def
      update_numeral)

theorem lzf_roundtrip_witness:
  "lzf_compress 8192 (\<lambda>i. 0) [7, 7, 7, 7, 7, 7, 7, 7, 7] [0, 0, 0, 0, 0, 0, 0, 0, 0] = Some (8, [1, 7, 7, 96, 0, 1, 7, 7, 0]) \<and>
   lzf_decompress [1, 7, 7, 96, 0, 1, 7, 7] (replicate 10 3) = Some (Inr (9, replicate 9 7 @ [3]))"
proof -
  have "address_ok 8192 [7, 7, 7, 7, 7, 7, 7, 7, 7]" by (simp add: address_ok_def)
  from lzf_roundtrip [OF this, of "replicate 10 3" "\<lambda>i. 0" "[0, 0, 0, 0, 0, 0, 0, 0, 0]"] ex_compress
  show ?thesis by (simp add: numeral_eq_Suc)
qed

end
