(* ===== verification/Bitops.thy ===== *)
theory Bitops
  imports Prelude
begin

text \<open>
  The bit functions of \<^verbatim>\<open>bitops.c\<close> below the commands: counting bits, finding the first bit, reading and
  writing integers of up to 64 bits at any bit offset, and the overflow checks of \<^verbatim>\<open>BITFIELD\<close>.

  A pointer with a count is the list of the bytes that are left. Counting and finding treat the bytes
  up to an aligned address one by one, so the address is an argument. Bit 0 of a bitmap is the most
  significant bit of its first byte (\<open>bits_of\<close>).
\<close>

section \<open>Model\<close>

subsection \<open>Counting bits\<close>

definition bitsinbyte :: "nat list" where
  "bitsinbyte =
    [0, 1, 1, 2, 1, 2, 2, 3, 1, 2, 2, 3, 2, 3, 3, 4, 1, 2, 2, 3, 2, 3, 3, 4, 2, 3, 3, 4, 3, 4, 4, 5,
     1, 2, 2, 3, 2, 3, 3, 4, 2, 3, 3, 4, 3, 4, 4, 5, 2, 3, 3, 4, 3, 4, 4, 5, 3, 4, 4, 5, 4, 5, 5, 6,
     1, 2, 2, 3, 2, 3, 3, 4, 2, 3, 3, 4, 3, 4, 4, 5, 2, 3, 3, 4, 3, 4, 4, 5, 3, 4, 4, 5, 4, 5, 5, 6,
     2, 3, 3, 4, 3, 4, 4, 5, 3, 4, 4, 5, 4, 5, 5, 6, 3, 4, 4, 5, 4, 5, 5, 6, 4, 5, 5, 6, 5, 6, 6, 7,
     1, 2, 2, 3, 2, 3, 3, 4, 2, 3, 3, 4, 3, 4, 4, 5, 2, 3, 3, 4, 3, 4, 4, 5, 3, 4, 4, 5, 4, 5, 5, 6,
     2, 3, 3, 4, 3, 4, 4, 5, 3, 4, 4, 5, 4, 5, 5, 6, 3, 4, 4, 5, 4, 5, 5, 6, 4, 5, 5, 6, 5, 6, 6, 7,
     2, 3, 3, 4, 3, 4, 4, 5, 3, 4, 4, 5, 4, 5, 5, 6, 3, 4, 4, 5, 4, 5, 5, 6, 4, 5, 5, 6, 5, 6, 6, 7,
     3, 4, 4, 5, 4, 5, 5, 6, 4, 5, 5, 6, 5, 6, 6, 7, 4, 5, 5, 6, 5, 6, 6, 7, 5, 6, 6, 7, 6, 7, 7, 8]"

text \<open>The bytes before an address that is a multiple of 4.\<close>

fun popcount_head :: "nat \<Rightarrow> byte list \<Rightarrow> nat \<Rightarrow> byte list \<times> nat" where
  "popcount_head addr [] bits = ([], bits)"
| "popcount_head addr (b # bs) bits =
     (if addr mod 4 \<noteq> 0 then popcount_head (addr + 1) bs (bits + bitsinbyte ! unat b) else (b # bs, bits))"

definition popcount_pairs :: "u32 \<Rightarrow> u32" where
  "popcount_pairs x =
     (let x1 = x - (drop_bit 1 x AND 0x55555555) in (x1 AND 0x33333333) + (drop_bit 2 x1 AND 0x33333333))"

definition popcount_nibbles :: "u32 \<Rightarrow> u32" where
  "popcount_nibbles x = (x + drop_bit 4 x) AND 0x0F0F0F0F"

definition load32 :: "byte list \<Rightarrow> u32" where
  "load32 bs = word_of_int (get_le (take 4 bs))"

text \<open>Seven words at a time.\<close>

definition popcount_block :: "byte list \<Rightarrow> nat" where
  "popcount_block bs =
     unat (drop_bit 24 (sum_list (map (\<lambda>i. popcount_nibbles (popcount_pairs (load32 (drop (4 * i) bs)))) [0..<7]) * 0x01010101))"

function popcount_words :: "byte list \<Rightarrow> nat \<Rightarrow> byte list \<times> nat" where
  "popcount_words bs bits =
     (if length bs \<ge> 28 then popcount_words (drop 28 bs) (bits + popcount_block bs) else (bs, bits))"
  by pat_completeness auto
termination by (relation "measure (length \<circ> fst)") auto

declare popcount_words.simps [simp del]

fun popcount_tail :: "byte list \<Rightarrow> nat \<Rightarrow> nat" where
  "popcount_tail [] bits = bits"
| "popcount_tail (b # bs) bits = popcount_tail bs (bits + bitsinbyte ! unat b)"

definition redisPopcount :: "nat \<Rightarrow> byte list \<Rightarrow> nat" where
  "redisPopcount addr s =
     (case popcount_head addr s 0 of (p, bits) \<Rightarrow> case popcount_words p bits of (q, bits1) \<Rightarrow> popcount_tail q bits1)"

subsection \<open>Finding a bit\<close>

fun bitpos_head :: "nat \<Rightarrow> byte \<Rightarrow> byte list \<Rightarrow> nat \<Rightarrow> byte list \<times> nat \<times> bool" where
  "bitpos_head addr skipval [] pos = ([], pos, False)"
| "bitpos_head addr skipval (c # cs) pos =
     (if addr mod 8 = 0 then (c # cs, pos, False)
      else if c \<noteq> skipval then (c # cs, pos, True)
      else bitpos_head (addr + 1) skipval cs (pos + 8))"

text \<open>Words of 8 bytes that are all zeroes or all ones; the value to skip has eight equal bytes.\<close>

function bitpos_words :: "byte \<Rightarrow> byte list \<Rightarrow> nat \<Rightarrow> byte list \<times> nat" where
  "bitpos_words skipval cs pos =
     (if length cs \<ge> 8 \<and> take 8 cs = replicate 8 skipval then bitpos_words skipval (drop 8 cs) (pos + 64) else (cs, pos))"
  by pat_completeness auto
termination by (relation "measure (\<lambda>(skipval, cs, pos). length cs)") auto

declare bitpos_words.simps [simp del]

text \<open>Up to \<open>n\<close> bytes as a big-endian word, padded with zeroes.\<close>

fun bitpos_load :: "nat \<Rightarrow> byte list \<Rightarrow> u64 \<Rightarrow> u64" where
  "bitpos_load 0 cs w = w"
| "bitpos_load (Suc n) [] w = bitpos_load n [] (push_bit 8 w)"
| "bitpos_load (Suc n) (c # cs) w = bitpos_load n cs (push_bit 8 w OR ucast c)"

lemma unat_half_less: "(one :: u64) \<noteq> 0 \<Longrightarrow> unat (drop_bit 1 one) < unat one"
  by (simp add: drop_bit_eq_div unat_div unat_gt_0)

function bitpos_scan :: "bool \<Rightarrow> u64 \<Rightarrow> u64 \<Rightarrow> nat \<Rightarrow> nat option" where
  "bitpos_scan bt one w pos =
     (if one = 0 then None
      else if (one AND w \<noteq> 0) = bt then Some pos
      else bitpos_scan bt (drop_bit 1 one) w (pos + 1))"
  by pat_completeness auto
termination by (relation "measure (\<lambda>(bt, one, w, pos). unat one)") (use unat_half_less in auto)

declare bitpos_scan.simps [simp del]

text \<open>\<open>None\<close> is the panic at the end of \<^verbatim>\<open>redisBitpos\<close>.\<close>

definition redisBitpos :: "nat \<Rightarrow> byte list \<Rightarrow> bool \<Rightarrow> int option" where
  "redisBitpos addr s bt =
     (let skipval = (if bt then 0 else 0xFF) in
      case bitpos_head addr skipval s 0 of
        (c, pos, found) \<Rightarrow>
          (case (if found then (c, pos) else bitpos_words skipval c pos) of
             (c1, pos1) \<Rightarrow>
               (let w = bitpos_load 8 c1 0 in
                if bt \<and> w = 0 then Some (- 1)
                else map_option int (bitpos_scan bt (NOT (drop_bit 1 (- 1))) w pos1))))"

subsection \<open>Integers at bit offsets\<close>

text \<open>The loops over the bits of a field; \<open>n\<close> bits are left. An access outside of the bitmap gives \<open>None\<close>.\<close>

fun setUnsigned_loop :: "nat \<Rightarrow> u64 \<Rightarrow> u64 \<Rightarrow> byte list \<Rightarrow> byte list option" where
  "setUnsigned_loop 0 offset v p = Some p"
| "setUnsigned_loop (Suc n) offset v p =
     (let bitval = (if v AND push_bit n 1 \<noteq> 0 then 1 else 0 :: u64);
          byt = unat (drop_bit 3 offset);
          b = 7 - unat (offset AND 7)
      in if byt < length p then
           (let byteval = ucast (p ! byt) :: u64;
                byteval1 = byteval AND NOT (push_bit b 1);
                byteval2 = byteval1 OR push_bit b bitval
            in setUnsigned_loop n (offset + 1) v (p[byt := ucast (byteval2 AND 0xFF)]))
         else None)"

definition setUnsignedBitfield :: "byte list \<Rightarrow> u64 \<Rightarrow> nat \<Rightarrow> u64 \<Rightarrow> byte list option" where
  "setUnsignedBitfield p offset bits v = setUnsigned_loop bits offset v p"

definition setSignedBitfield :: "byte list \<Rightarrow> u64 \<Rightarrow> nat \<Rightarrow> int \<Rightarrow> byte list option" where
  "setSignedBitfield p offset bits v = setUnsignedBitfield p offset bits (word_of_int v)"

fun getUnsigned_loop :: "nat \<Rightarrow> u64 \<Rightarrow> byte list \<Rightarrow> u64 \<Rightarrow> u64 option" where
  "getUnsigned_loop 0 offset p v = Some v"
| "getUnsigned_loop (Suc n) offset p v =
     (let byt = unat (drop_bit 3 offset); b = 7 - unat (offset AND 7) in
      if byt < length p then
        getUnsigned_loop n (offset + 1) p (push_bit 1 v OR (drop_bit b (ucast (p ! byt)) AND 1))
      else None)"

definition getUnsignedBitfield :: "byte list \<Rightarrow> u64 \<Rightarrow> nat \<Rightarrow> u64 option" where
  "getUnsignedBitfield p offset bits = getUnsigned_loop bits offset p 0"

definition getSignedBitfield :: "byte list \<Rightarrow> u64 \<Rightarrow> nat \<Rightarrow> int option" where
  "getSignedBitfield p offset bits =
     map_option (\<lambda>u. sint (if bits < 64 \<and> u AND push_bit (bits - 1) 1 \<noteq> 0 then u OR push_bit bits (- 1) else u))
       (getUnsignedBitfield p offset bits)"

subsection \<open>Overflow checks\<close>

datatype owtype = BFOVERFLOW_WRAP | BFOVERFLOW_SAT | BFOVERFLOW_FAIL

text \<open>The results are the return value and the limit, if it is set.\<close>

definition checkUnsignedBitfieldOverflow :: "u64 \<Rightarrow> int \<Rightarrow> nat \<Rightarrow> owtype \<Rightarrow> int \<times> u64 option" where
  "checkUnsignedBitfieldOverflow v incr bits ow =
     (let mx = (if bits = 64 then - 1 else push_bit bits 1 - 1);
          maxincr = sint (mx - v);
          minincr = sint (- v);
          wrapped = (v + word_of_int incr) AND NOT (push_bit bits (- 1))
      in if v > mx \<or> (incr > 0 \<and> incr > maxincr) then
           (1, case ow of BFOVERFLOW_WRAP \<Rightarrow> Some wrapped | BFOVERFLOW_SAT \<Rightarrow> Some mx | BFOVERFLOW_FAIL \<Rightarrow> None)
         else if incr < 0 \<and> incr < minincr then
           (case ow of BFOVERFLOW_WRAP \<Rightarrow> (1, Some wrapped) | BFOVERFLOW_SAT \<Rightarrow> (- 1, Some 0) | BFOVERFLOW_FAIL \<Rightarrow> (- 1, None))
         else (0, None))"

definition wrap_signed :: "nat \<Rightarrow> u64 \<Rightarrow> u64" where
  "wrap_signed bits c =
     (if bits < 64 then
        (if c AND push_bit (bits - 1) 1 \<noteq> 0 then c OR push_bit bits (- 1) else c AND NOT (push_bit bits (- 1)))
      else c)"

definition checkSignedBitfieldOverflow :: "int \<Rightarrow> int \<Rightarrow> nat \<Rightarrow> owtype \<Rightarrow> int \<times> int option" where
  "checkSignedBitfieldOverflow v incr bits ow =
     (let mx = (if bits = 64 then INT64_MAX else 2 ^ (bits - 1) - 1);
          mn = - mx - 1;
          maxincr = sint (word_of_int mx - word_of_int v :: u64);
          minincr = sint (word_of_int (mn - v) :: u64);
          wrapped = sint (wrap_signed bits (word_of_int v + word_of_int incr))
      in if v > mx \<or> (bits \<noteq> 64 \<and> incr > maxincr) \<or> (v \<ge> 0 \<and> incr > 0 \<and> incr > maxincr) then
           (1, case ow of BFOVERFLOW_WRAP \<Rightarrow> Some wrapped | BFOVERFLOW_SAT \<Rightarrow> Some mx | BFOVERFLOW_FAIL \<Rightarrow> None)
         else if v < mn \<or> (bits \<noteq> 64 \<and> incr < minincr) \<or> (v < 0 \<and> incr < 0 \<and> incr < minincr) then
           (case ow of BFOVERFLOW_WRAP \<Rightarrow> (1, Some wrapped) | BFOVERFLOW_SAT \<Rightarrow> (- 1, Some mn) | BFOVERFLOW_FAIL \<Rightarrow> (- 1, None))
         else (0, None))"

section \<open>Reference\<close>

text \<open>The bits of a bitmap, and the number that a list of bits stands for, most significant first.\<close>

definition byte_bits :: "byte \<Rightarrow> bool list" where
  "byte_bits b = map (\<lambda>i. bit b (7 - i)) [0..<8]"

definition bits_of :: "byte list \<Rightarrow> bool list" where
  "bits_of p = concat (map byte_bits p)"

definition bits_value :: "bool list \<Rightarrow> nat" where
  "bits_value bs = foldl (\<lambda>n b. 2 * n + of_bool b) 0 bs"

definition value_bits :: "nat \<Rightarrow> u64 \<Rightarrow> bool list" where
  "value_bits n v = map (\<lambda>i. bit v (n - 1 - i)) [0..<n]"

section \<open>Counting bits\<close>

fun bc :: "nat \<Rightarrow> nat" where
  "bc x = (if x = 0 then 0 else x mod 2 + bc (x div 2))"

declare bc.simps [simp del]

lemma bc_0 [simp]: "bc 0 = 0"
  by (subst bc.simps) simp

lemma bc_double: "bc (of_bool b + 2 * x) = of_bool b + bc x"
  by (cases "b \<or> x \<noteq> 0") (subst bc.simps, auto)

lemma bc_split: "d < 2 ^ k \<Longrightarrow> bc (d + 2 ^ k * x) = bc d + bc x"
proof (induction k arbitrary: d)
  case (Suc k)
  obtain b e where d: "d = of_bool b + 2 * e" by (metis add.commute mult_div_mod_eq of_bool_odd_eq_mod_2)
  have "e < 2 ^ k" using Suc.prems d by simp
  have "bc (d + 2 ^ Suc k * x) = bc (of_bool b + 2 * (e + 2 ^ k * x))" by (simp add: d algebra_simps)
  also have "\<dots> = of_bool b + (bc e + bc x)" unfolding bc_double using Suc.IH [OF \<open>e < 2 ^ k\<close>] by simp
  finally show ?case using bc_double [of b e] by (simp add: d)
qed simp

lemma bc_le: "d < 2 ^ k \<Longrightarrow> bc d \<le> k"
proof (induction k arbitrary: d)
  case (Suc k)
  obtain b e where d: "d = of_bool b + 2 * e" by (metis add.commute mult_div_mod_eq of_bool_odd_eq_mod_2)
  then have "bc e \<le> k" using Suc by simp
  then show ?case by (simp add: d bc_double)
qed simp

text \<open>The table doubles with every bit.\<close>

lemma bc_table: "map bc [0..<2 ^ Suc k] = map bc [0..<2 ^ k] @ map (\<lambda>n. n + 1) (map bc [0..<2 ^ k])"
proof -
  have "bc 1 = 1" by (simp add: bc.simps)
  then have b: "bc (d + 2 ^ k) = bc d + 1" if "d < 2 ^ k" for d using bc_split [OF that, of 1] by simp
  have u: "[0..<2 ^ Suc k] = [0..<2 ^ k] @ map (\<lambda>i. i + 2 ^ k) [0..<2 ^ k]"
    using upt_add_eq_append [of 0 "2 ^ k" "2 ^ k"] by (simp add: map_add_upt mult_2)
  show ?thesis unfolding u by (simp add: b)
qed

lemma bitsinbyte_eq: "map bc [0..<256] = bitsinbyte"
proof -
  define t where "t k = map bc [0..<2 ^ k]" for k
  have s: "t (Suc k) = t k @ map (\<lambda>n. n + 1) (t k)" for k using bc_table [of k] by (simp only: t_def)
  have 0: "t 0 = [0]" by (simp add: t_def bc.simps)
  have "t 1 = [0, 1]" using s [of 0] 0 by simp
  then have "t 2 = [0, 1, 1, 2]" using s [of 1] by (simp add: numeral_2_eq_2)
  then have "t 3 = [0, 1, 1, 2, 1, 2, 2, 3]" using s [of 2] by simp
  then have "t 4 = [0, 1, 1, 2, 1, 2, 2, 3, 1, 2, 2, 3, 2, 3, 3, 4]" using s [of 3] by simp
  then have "t 8 = bitsinbyte" unfolding bitsinbyte_def using s [of 4] s [of 5] s [of 6] s [of 7] by simp
  then show ?thesis by (simp add: t_def)
qed

lemma bitsinbyte_nth: "bitsinbyte ! unat (b :: byte) = bc (unat b)"
proof -
  have "unat b < 2 ^ LENGTH(8)" by (rule unsigned_less)
  then have "unat b < 256" by simp
  then show ?thesis by (simp add: bitsinbyte_eq [symmetric])
qed

text \<open>Applying a function to the digits of a number to the base \<open>2 ^ k\<close>, and constant digits.\<close>

fun dmap :: "nat \<Rightarrow> (nat \<Rightarrow> nat) \<Rightarrow> nat \<Rightarrow> nat \<Rightarrow> nat" where
  "dmap k f 0 x = 0"
| "dmap k f (Suc n) x = f (x mod 2 ^ k) + 2 ^ k * dmap k f n (x div 2 ^ k)"

lemma and_split:
  assumes "a < 2 ^ k" "c < 2 ^ k"
  shows "(a + 2 ^ k * r) AND (c + 2 ^ k * s) = (a AND c) + 2 ^ k * (r AND s :: nat)"
proof -
  have e: "x + 2 ^ k * y = x OR push_bit k y" if "x < 2 ^ k" for x y :: nat
  proof -
    have "x AND push_bit k y = 0"
    proof (rule bit_eqI)
      fix n show "bit (x AND push_bit k y) n = bit 0 n"
        using that by (auto simp: bit_simps) (metis bit_take_bit_iff not_le take_bit_nat_eq_self)
    qed
    then show ?thesis using disjunctive_add_eq_or [of x "push_bit k y"] by (simp add: push_bit_eq_mult mult.commute)
  qed
  have l: "\<not> bit x n" if "x < 2 ^ k" "k \<le> n" for x n :: nat
    using that by (metis bit_take_bit_iff not_le take_bit_nat_eq_self)
  have "a AND c < 2 ^ k" using assms by (metis take_bit_and take_bit_nat_eq_self take_bit_nat_less_exp)
  then show ?thesis unfolding e [OF assms(1)] e [OF assms(2)] e [OF \<open>a AND c < 2 ^ k\<close>]
    by (intro bit_eqI) (auto simp: bit_simps l [OF assms(1)] l [OF assms(2)])
qed

lemma mod_div_split: "d < 2 ^ k \<Longrightarrow> (d + 2 ^ k * x) mod 2 ^ k = d" "d < 2 ^ k \<Longrightarrow> (d + 2 ^ k * x) div 2 ^ k = (x :: nat)"
  by simp_all

text \<open>Pairs of bits: subtracting the upper bit of each.\<close>

lemma pairs_step:
  "x < 4 ^ n \<Longrightarrow> x - ((x div 2) AND dmap 2 (\<lambda>d. 1) n 0) = dmap 2 bc n x \<and> (x div 2) AND dmap 2 (\<lambda>d. 1) n 0 \<le> x"
proof (induction n arbitrary: x)
  case (Suc n)
  define y where "y = x div 4"
  define b1 where "b1 = x div 2 mod 2"
  define b0 where "b0 = x mod 2"
  have hy: "x div 2 = b1 + 2 * y"
    unfolding b1_def y_def using mult_div_mod_eq [of 2 "x div 2"] by (simp add: div_mult2_eq [symmetric])
  have x: "x = (2 * b1 + b0) + 4 * y" using hy mult_div_mod_eq [of 2 x] unfolding b0_def by linarith
  have lt: "b0 < 2" "b1 < 2" by (simp_all add: b0_def b1_def)
  have "y < 4 ^ n" using Suc.prems by (simp add: y_def less_mult_imp_div_less mult.commute)
  note ih = Suc.IH [OF this]
  define m where "m = dmap 2 (\<lambda>d. 1) n 0"
  have h: "x div 2 = (b1 + 2 * (y mod 2)) + 4 * (y div 2)" using hy mult_div_mod_eq [of 2 y] by linarith
  have "y mod 2 < 2" by simp
  with lt(2) have q: "b1 + 2 * (y mod 2) < 4" by linarith
  have "(x div 2) AND dmap 2 (\<lambda>d. 1) (Suc n) 0 = ((b1 + 2 * (y mod 2)) AND 1) + 4 * ((y div 2) AND m)"
    using and_split [of "b1 + 2 * (y mod 2)" 2 1 "y div 2" m] q by (simp add: h m_def)
  also have "(b1 + 2 * (y mod 2)) AND 1 = b1" using lt(2) by (simp add: and_one_eq)
  finally have a: "(x div 2) AND dmap 2 (\<lambda>d. 1) (Suc n) 0 = b1 + 4 * ((y div 2) AND m)" .
  have "bc (2 * b1 + b0) = b1 + b0" using lt by (auto simp: less_2_cases_iff bc.simps)
  moreover have "x mod 4 = 2 * b1 + b0" "x div 4 = y" using lt x by simp_all
  ultimately have r: "dmap 2 bc (Suc n) x = b1 + b0 + 4 * dmap 2 bc n y" by simp
  obtain A D where A: "(y div 2) AND m = A" "dmap 2 bc n y = D" by blast
  then have "y = D + A" using ih unfolding m_def by linarith
  then show ?case unfolding a r A by (simp add: x)
qed simp

lemma bc_digits:
  "bc (x mod 16) = bc (x mod 4) + bc (x div 4 mod 4)" "bc (x mod 256) = bc (x mod 16) + bc (x div 16 mod 16)"
proof -
  have "x mod 16 = x mod 4 + 2 ^ 2 * (x div 4 mod 4)" by (simp add: mod_mult2_eq [of x 4 4, simplified])
  then show "bc (x mod 16) = bc (x mod 4) + bc (x div 4 mod 4)" using bc_split [of "x mod 4" 2] by simp
  have "x mod 256 = x mod 16 + 2 ^ 4 * (x div 16 mod 16)" by (simp add: mod_mult2_eq [of x 16 16, simplified])
  then show "bc (x mod 256) = bc (x mod 16) + bc (x div 16 mod 16)" using bc_split [of "x mod 16" 4] by simp
qed

lemma bc_bounds: "bc (x mod 4) \<le> 2" "bc (x mod 16) \<le> 4" "bc (x mod 256) \<le> 8"
  using bc_le [of "x mod 4" 2] bc_le [of "x mod 16" 4] bc_le [of "x mod 256" 8] by simp_all

lemma and_mod: "(p :: nat) AND 3 = p mod 4" "p AND 15 = p mod 16"
proof -
  have "p AND mask n = p mod 2 ^ n" for n by (simp only: take_bit_eq_mask [symmetric] take_bit_eq_mod)
  from this [of 2] this [of 4] show "p AND 3 = p mod 4" "p AND 15 = p mod 16" by (simp_all add: mask_eq_exp_minus_1)
qed

text \<open>Nibbles: adding the two pairs of each.\<close>

lemma nibbles_step:
  "(dmap 2 bc (2 * n) x AND dmap 4 (\<lambda>d. 3) n 0) + ((dmap 2 bc (2 * n) x div 4) AND dmap 4 (\<lambda>d. 3) n 0) = dmap 4 bc n x"
proof (induction n arbitrary: x)
  case (Suc n)
  define y where "y = dmap 2 bc (2 * n) (x div 16)"
  define m where "m = dmap 4 (\<lambda>d. 3) n 0"
  define p0 where "p0 = bc (x mod 4)"
  define p1 where "p1 = bc (x div 4 mod 4)"
  have p: "p0 \<le> 2" "p1 \<le> 2" using bc_bounds(1) by (simp_all add: p0_def p1_def)
  have d: "dmap 2 bc (2 * Suc n) x = (p0 + 4 * p1) + 16 * y"
    by (simp add: p0_def p1_def y_def div_mult2_eq [symmetric])
  have m: "dmap 4 (\<lambda>d. 3) (Suc n) 0 = 3 + 16 * m" by (simp add: m_def)
  have e: "(p0 + 4 * p1 + 16 * y) div 4 = (p1 + 4 * (y mod 4)) + 16 * (y div 4)" using p by presburger
  have "((p0 + 4 * p1) + 16 * y) AND (3 + 16 * m) = p0 + 16 * (y AND m)"
    using and_split [of "p0 + 4 * p1" 4 3 y m] p by (simp add: and_mod)
  moreover have "((p1 + 4 * (y mod 4)) + 16 * (y div 4)) AND (3 + 16 * m) = p1 + 16 * ((y div 4) AND m)"
  proof -
    have "p1 + 4 * (y mod 4) < 16" using p by presburger
    then show ?thesis using and_split [of "p1 + 4 * (y mod 4)" 4 3 "y div 4" m] p by (simp add: and_mod)
  qed
  ultimately show ?case
    using Suc.IH [of "x div 16"] bc_digits(1) [of x] unfolding d m e y_def [symmetric] m_def [symmetric]
    by (simp add: p0_def p1_def)
qed simp

lemma dmap_bc_mod: "dmap 4 bc n x mod 16 \<le> 4"
  using bc_bounds(2) [of x] by (cases n) auto

text \<open>Bytes: adding the two nibbles of each.\<close>

lemma bytes_step:
  "(dmap 4 bc (2 * n) x + dmap 4 bc (2 * n) x div 16) AND dmap 8 (\<lambda>d. 15) n 0 = dmap 8 bc n x"
proof (induction n arbitrary: x)
  case (Suc n)
  define z where "z = dmap 4 bc (2 * n) (x div 256)"
  define m where "m = dmap 8 (\<lambda>d. 15) n 0"
  define q0 where "q0 = bc (x mod 16)"
  define q1 where "q1 = bc (x div 16 mod 16)"
  have q: "q0 \<le> 4" "q1 \<le> 4" "z mod 16 \<le> 4" using bc_bounds(2) dmap_bc_mod by (simp_all add: q0_def q1_def z_def)
  have d: "dmap 4 bc (2 * Suc n) x = q0 + 16 * q1 + 256 * z"
    by (simp add: q0_def q1_def z_def div_mult2_eq [symmetric])
  have e: "q0 + 16 * q1 + 256 * z + (q0 + 16 * q1 + 256 * z) div 16 = (q0 + q1 + 16 * (q1 + z mod 16)) + 256 * (z + z div 16)"
  proof -
    have "(q0 + 16 * q1 + 256 * z) div 16 = q1 + 16 * z" using q(1) by simp
    moreover obtain a b where "z div 16 = a" "z mod 16 = b" "z = 16 * a + b" by (metis mult_div_mod_eq)
    ultimately show ?thesis by simp
  qed
  have m: "dmap 8 (\<lambda>d. 15) (Suc n) 0 = 15 + 256 * m" by (simp add: m_def)
  have "(q0 + q1 + 16 * (q1 + z mod 16)) + 256 * (z + z div 16) AND (15 + 256 * m) = (q0 + q1) + 256 * ((z + z div 16) AND m)"
  proof -
    define c where "c = q1 + z mod 16"
    have "c \<le> 8" using q by (simp add: c_def)
    then have c: "(q0 + q1 + 16 * c) mod 16 = q0 + q1" "q0 + q1 + 16 * c < 2 ^ 8" using q(1,2) by simp_all
    show ?thesis using and_split [of "q0 + q1 + 16 * c" 8 15 "z + z div 16" m] c by (simp add: and_mod c_def [symmetric])
  qed
  then show ?case
    using Suc.IH [of "x div 256"] bc_digits(2) [of x] unfolding d m e z_def [symmetric] m_def [symmetric]
    by (simp add: q0_def q1_def)
qed simp

lemma dmap_numeral:
  "dmap k f (numeral n) x = f (x mod 2 ^ k) + 2 ^ k * dmap k f (pred_numeral n) (x div 2 ^ k)"
  by (simp add: numeral_eq_Suc)

lemma popcount_masks:
  "dmap 2 (\<lambda>d. 1) 16 0 = 0x55555555" "dmap 4 (\<lambda>d. 3) 8 0 = 0x33333333" "dmap 8 (\<lambda>d. 15) 4 0 = 0x0F0F0F0F"
  by (simp_all add: dmap_numeral)

lemma unat_drop_bit: "unat (drop_bit n (x :: u32)) = unat x div 2 ^ n"
  unfolding unsigned_drop_bit_eq take_bit_nat_eq_self [OF unsigned_less] by (rule drop_bit_eq_div)

lemma unat_less_32: "unat (x :: u32) < 2 ^ 32"
proof -
  have "unat x < 2 ^ LENGTH(32)" by (rule unsigned_less)
  then show ?thesis by simp
qed

lemma unat_add_32: "unat x + unat y < 2 ^ 32 \<Longrightarrow> unat (x + y :: u32) = unat x + unat y"
  by (simp add: unat_word_ariths)

lemma dmap_le: "(\<And>d. d < 2 ^ k \<Longrightarrow> f d \<le> c) \<Longrightarrow> dmap k f n x \<le> dmap k (\<lambda>d. c) n 0"
  by (induction n arbitrary: x) (auto intro!: add_mono)

lemma dmap_bc_less: "dmap 4 bc 8 x < 2 ^ 31"
proof -
  have "dmap 4 bc 8 x \<le> dmap 4 (\<lambda>d. 4) 8 0" using bc_le [of _ 4] by (intro dmap_le) auto
  also have "\<dots> < 2 ^ 31" by (simp add: dmap_numeral)
  finally show ?thesis .
qed

lemma popcount_word: "unat (popcount_nibbles (popcount_pairs w)) = dmap 8 bc 4 (unat w)"
proof -
  let ?x = "unat w"
  define x1 where "x1 = w - (drop_bit 1 w AND 0x55555555)"
  have a: "unat (drop_bit 1 w AND 0x55555555) = (?x div 2) AND dmap 2 (\<lambda>d. 1) 16 0"
    unfolding popcount_masks by (simp add: unsigned_and_eq unat_drop_bit)
  have p: "?x - ((?x div 2) AND dmap 2 (\<lambda>d. 1) 16 0) = dmap 2 bc 16 ?x" "(?x div 2) AND dmap 2 (\<lambda>d. 1) 16 0 \<le> ?x"
    using pairs_step [of ?x 16] unat_less_32 [of w] by simp_all
  have x1: "unat x1 = dmap 2 bc 16 ?x"
    unfolding x1_def using p a by (subst unat_sub) (simp_all add: word_le_nat_alt)
  have "unat (x1 AND 0x33333333) = dmap 2 bc (2 * 8) ?x AND dmap 4 (\<lambda>d. 3) 8 0"
    "unat (drop_bit 2 x1 AND 0x33333333) = (dmap 2 bc (2 * 8) ?x div 4) AND dmap 4 (\<lambda>d. 3) 8 0"
    unfolding popcount_masks using x1 by (simp_all add: unsigned_and_eq unat_drop_bit)
  note b = this
  have x2: "unat (popcount_pairs w) = dmap 4 bc 8 ?x"
    unfolding popcount_pairs_def Let_def x1_def [symmetric]
    using b nibbles_step [of 8 ?x] dmap_bc_less [of ?x] by (subst unat_add_32) simp_all
  have "dmap 4 bc 8 ?x div 16 < 2 ^ 31" using dmap_bc_less [of ?x] by simp
  then have "unat (popcount_pairs w + drop_bit 4 (popcount_pairs w)) = dmap 4 bc (2 * 4) ?x + dmap 4 bc (2 * 4) ?x div 16"
    using x2 dmap_bc_less [of ?x] by (subst unat_add_32) (simp_all add: unat_drop_bit)
  then show ?thesis unfolding popcount_nibbles_def
    using bytes_step [of 4 ?x] by (simp add: unsigned_and_eq popcount_masks [symmetric, simplified])
qed

lemma dmap_bytes:
  assumes "length bs = 4"
  shows "dmap 8 bc 4 (nat (get_le bs)) =
    bc (unat (bs ! 0)) + 256 * bc (unat (bs ! 1)) + 256 ^ 2 * bc (unat (bs ! 2)) + 256 ^ 3 * bc (unat (bs ! 3))"
proof -
  obtain a b c d where bs: "bs = [a, b, c, d]" 
  proof -
    have "length bs = Suc (Suc (Suc (Suc 0)))" using assms by simp
    then show ?thesis using that by (auto simp: length_Suc_conv)
  qed
  have l: "unat x < 256" for x :: byte
  proof -
    have "unat x < 2 ^ LENGTH(8)" by (rule unsigned_less)
    then show ?thesis by simp
  qed
  have n: "nat (get_le bs) = unat a + 2 ^ 8 * (unat b + 2 ^ 8 * (unat c + 2 ^ 8 * unat d))"
    by (simp add: bs nat_add_distrib nat_mult_distrib flip: unat_eq_nat_uint)
  have s: "dmap 8 bc (Suc k) (unat x + 2 ^ 8 * y) = bc (unat x) + 2 ^ 8 * dmap 8 bc k y" for k y and x :: byte
    using l [of x] mod_div_split [of "unat x" 8 y] by simp
  have "(4 :: nat) = Suc (Suc (Suc (Suc 0)))" by simp
  then have "dmap 8 bc 4 (nat (get_le bs)) = dmap 8 bc (Suc (Suc (Suc (Suc 0)))) (nat (get_le bs))" by (rule arg_cong)
  also have "\<dots> = bc (unat a) + 2 ^ 8 * (bc (unat b) + 2 ^ 8 * (bc (unat c) + 2 ^ 8 * bc (unat d)))"
    unfolding n s using l [of d] by simp
  finally show ?thesis by (simp add: bs)
qed

lemma unat_load32: "4 \<le> length bs \<Longrightarrow> unat (load32 bs) = nat (get_le (take 4 bs))"
  using get_le_bounds [of "take 4 bs"] by (simp add: load32_def unat_eq_nat_uint uint_word_of_int)

lemma unat_mult_32: "unat (x * y :: u32) = unat x * unat y mod 2 ^ 32"
  by (simp add: unat_word_ariths)

lemma unat_sum_list: "sum_list (map unat ws) < 2 ^ 32 \<Longrightarrow> unat (sum_list ws :: u32) = sum_list (map unat ws)"
  by (induction ws) (auto simp: unat_add_32)

text \<open>The sum of the four bytes, by one multiplication.\<close>

lemma byte_sum:
  assumes "a \<le> 56" "b \<le> 56" "c \<le> 56" "d \<le> 56"
  shows "((a + 256 * b + 256 ^ 2 * c + 256 ^ 3 * d) * 0x01010101) mod 2 ^ 32 div 2 ^ 24 = a + b + c + (d :: nat)"
proof -
  define low where "low = a + 256 * (a + b) + 65536 * (a + b + c)"
  define K where "K = (b + c + d) + 256 * (c + d) + 65536 * d"
  define S where "S = a + b + c + d"
  have "(a + 256 * b + 256 ^ 2 * c + 256 ^ 3 * d) * 0x01010101 = (low + 2 ^ 24 * S) + 2 ^ 32 * K"
    unfolding low_def K_def S_def by simp
  moreover have "low < 2 ^ 24" "S \<le> 224" using assms by (simp_all add: low_def S_def)
  then have "low + 2 ^ 24 * S < 2 ^ 32" by simp
  ultimately have "((a + 256 * b + 256 ^ 2 * c + 256 ^ 3 * d) * 0x01010101) mod 2 ^ 32 = low + 2 ^ 24 * S" by simp
  then show ?thesis using \<open>low < 2 ^ 24\<close> by (simp add: S_def)
qed

lemma sum_groups:
  "sum_list (map f [0..<4 * n]) = sum_list (map (\<lambda>i. f (4 * i + 0)) [0..<n]) + sum_list (map (\<lambda>i. f (4 * i + 1)) [0..<n]) +
     sum_list (map (\<lambda>i. f (4 * i + 2)) [0..<n]) + sum_list (map (\<lambda>i. f (4 * i + 3)) [0..<n])" for f :: "nat \<Rightarrow> nat"
proof (induction n)
  case (Suc n)
  have "[0..<4 * Suc n] = [0..<4 * n] @ [4 * n + 0, 4 * n + 1, 4 * n + 2, 4 * n + 3]" by (simp add: numeral_eq_Suc)
  then show ?case using Suc by simp
qed simp

definition bit_count :: "byte list \<Rightarrow> nat" where
  "bit_count bs = sum_list (map (\<lambda>b. bc (unat b)) bs)"

lemma popcount_block_ok:
  assumes "28 \<le> length bs"
  shows "popcount_block bs = bit_count (take 28 bs)"
proof -
  define c where "c j = sum_list (map (\<lambda>i. bc (unat (bs ! (4 * i + j)))) [0..<7])" for j
  define w where "w i = popcount_nibbles (popcount_pairs (load32 (drop (4 * i) bs)))" for i
  have w: "unat (w i) = bc (unat (bs ! (4 * i + 0))) + 256 * bc (unat (bs ! (4 * i + 1))) +
      256 ^ 2 * bc (unat (bs ! (4 * i + 2))) + 256 ^ 3 * bc (unat (bs ! (4 * i + 3)))" if "i < 7" for i
    using that assms dmap_bytes [of "take 4 (drop (4 * i) bs)"] by (simp add: w_def popcount_word unat_load32)
  have cb: "c j \<le> 56" for j
  proof -
    have "sum_list (map (\<lambda>i. bc (unat (bs ! (4 * i + j)))) xs) \<le> 8 * length xs" for xs
    proof (induction xs)
      case (Cons i xs)
      have "unat (bs ! (4 * i + j)) < 2 ^ LENGTH(8)" by (rule unsigned_less)
      then show ?case using Cons bc_le [of "unat (bs ! (4 * i + j))" 8] by simp
    qed simp
    from this [of "[0..<7]"] show ?thesis by (simp add: c_def)
  qed
  have s: "sum_list (map unat (map w [0..<7])) = c 0 + 256 * c 1 + 256 ^ 2 * c 2 + 256 ^ 3 * c 3"
  proof -
    have "sum_list (map unat (map w xs)) = sum_list (map (\<lambda>i. bc (unat (bs ! (4 * i + 0)))) xs) +
        256 * sum_list (map (\<lambda>i. bc (unat (bs ! (4 * i + 1)))) xs) + 256 ^ 2 * sum_list (map (\<lambda>i. bc (unat (bs ! (4 * i + 2)))) xs) +
        256 ^ 3 * sum_list (map (\<lambda>i. bc (unat (bs ! (4 * i + 3)))) xs)" if "set xs \<subseteq> {0..<7}" for xs
      using that by (induction xs) (simp_all add: w algebra_simps)
    from this [of "[0..<7]"] show ?thesis unfolding c_def by simp
  qed
  have "sum_list (map unat (map w [0..<7])) < 2 ^ 32"
    unfolding s using cb [of 0] cb [of 1] cb [of 2] cb [of 3] by simp
  from unat_sum_list [OF this] have "unat (sum_list (map w [0..<7])) = c 0 + 256 * c 1 + 256 ^ 2 * c 2 + 256 ^ 3 * c 3"
    unfolding s .
  then have "popcount_block bs = c 0 + c 1 + c 2 + c 3"
    unfolding popcount_block_def w_def [symmetric] unat_drop_bit unat_mult_32
    using byte_sum [OF cb [of 0] cb [of 1] cb [of 2] cb [of 3]] by simp
  also have "\<dots> = bit_count (take 28 bs)"
  proof -
    have "take 28 bs = map ((!) bs) [0..<28]" using assms by (intro nth_equalityI) simp_all
    then show ?thesis unfolding bit_count_def c_def using sum_groups [of "\<lambda>i. bc (unat (bs ! i))" 7] by (simp add: comp_def)
  qed
  finally show ?thesis .
qed

lemma bit_count_append: "bit_count (xs @ ys) = bit_count xs + bit_count ys"
  by (simp add: bit_count_def)

lemma bit_count_Cons: "bit_count (b # bs) = bc (unat b) + bit_count bs"
  by (simp add: bit_count_def)

lemma popcount_head_ok:
  "snd (popcount_head addr bs n) + bit_count (fst (popcount_head addr bs n)) = n + bit_count bs"
  by (induction addr bs n rule: popcount_head.induct) (simp_all add: bit_count_Cons bitsinbyte_nth)

lemma popcount_words_ok:
  "snd (popcount_words bs n) + bit_count (fst (popcount_words bs n)) = n + bit_count bs"
proof (induction bs n rule: popcount_words.induct)
  case (1 bs n)
  have e: "bit_count bs = bit_count (take 28 bs) + bit_count (drop 28 bs)"
    using bit_count_append [of "take 28 bs" "drop 28 bs"] by simp
  show ?case
  proof (cases "28 \<le> length bs")
    case True
    then have "popcount_words bs n = popcount_words (drop 28 bs) (n + popcount_block bs)" by (subst popcount_words.simps) simp
    then show ?thesis using "1.IH" [OF True] popcount_block_ok [OF True] e by simp
  next
    case False
    then show ?thesis by (subst (1 2) popcount_words.simps) simp
  qed
qed

lemma popcount_tail_ok: "popcount_tail bs n = n + bit_count bs"
  by (induction bs n rule: popcount_tail.induct) (simp_all add: bit_count_Cons bitsinbyte_nth, simp add: bit_count_def)

lemma redisPopcount_bit_count: "redisPopcount addr s = bit_count s"
  using popcount_head_ok [of addr s 0] popcount_words_ok [of "fst (popcount_head addr s 0)" "snd (popcount_head addr s 0)"]
  by (auto simp: redisPopcount_def popcount_tail_ok split: prod.split)

section \<open>Bits and numbers\<close>

definition nat_bits :: "nat \<Rightarrow> nat \<Rightarrow> bool list" where
  "nat_bits n x = map (\<lambda>i. bit x (n - 1 - i)) [0..<n]"

lemma length_nat_bits [simp]: "length (nat_bits n x) = n"
  by (simp add: nat_bits_def)

lemma nat_bits_Suc: "nat_bits (Suc n) x = nat_bits n (x div 2) @ [odd x]"
proof -
  have "map (\<lambda>i. bit x (n - i)) [0..<n] = map (\<lambda>i. bit (x div 2) (n - Suc i)) [0..<n]"
    by (rule map_cong) (auto simp: Suc_diff_Suc bit_Suc [symmetric])
  then show ?thesis by (simp add: nat_bits_def bit_0)
qed

lemma nat_bits_Cons: "nat_bits (Suc n) x = bit x n # nat_bits n x"
proof -
  have "[0..<Suc n] = 0 # map Suc [0..<n]" by (simp add: map_Suc_upt upt_conv_Cons del: upt_Suc)
  then show ?thesis by (simp add: nat_bits_def del: upt_Suc)
qed

lemma bits_value_snoc [simp]: "bits_value (bs @ [b]) = 2 * bits_value bs + of_bool b"
  by (simp add: bits_value_def)

lemma bits_value_Nil [simp]: "bits_value [] = 0"
  by (simp add: bits_value_def)

lemma bits_value_nat_bits: "bits_value (nat_bits n x) = x mod 2 ^ n"
proof (induction n arbitrary: x)
  case (Suc n)
  have "x mod 2 ^ Suc n = 2 * (x div 2 mod 2 ^ n) + x mod 2" by (simp add: mod_mult2_eq)
  then show ?case by (simp add: nat_bits_Suc Suc mod2_eq_if)
qed (simp add: nat_bits_def)

lemma nat_bits_value: "length bs = n \<Longrightarrow> nat_bits n (bits_value bs) = bs"
proof (induction bs arbitrary: n rule: rev_induct)
  case (snoc b bs)
  then obtain m where n: "n = Suc m" "length bs = m" by auto
  then show ?case using snoc by (simp add: nat_bits_Suc)
qed (simp add: nat_bits_def)

lemma bits_value_less: "bits_value bs < 2 ^ length bs"
  by (induction bs rule: rev_induct) auto

lemma bits_value_append: "bits_value (as @ bs) = bits_value as * 2 ^ length bs + bits_value bs"
  by (induction bs rule: rev_induct) (simp_all add: append_assoc [symmetric] algebra_simps del: append_assoc)

lemma byte_bits_nat: "byte_bits b = nat_bits 8 (unat b)"
  by (simp add: byte_bits_def nat_bits_def bit_unsigned_iff)

lemma value_bits_nat: "n \<le> 64 \<Longrightarrow> value_bits n v = nat_bits n (unat v)"
  by (auto simp: value_bits_def nat_bits_def bit_unsigned_iff)

lemma length_byte_bits [simp]: "length (byte_bits b) = 8"
  by (simp add: byte_bits_def)

lemma length_bits_of [simp]: "length (bits_of p) = 8 * length p"
  by (induction p) (simp_all add: bits_of_def)

lemma bits_of_Cons: "bits_of (b # p) = byte_bits b @ bits_of p"
  by (simp add: bits_of_def)

lemma bits_of_append: "bits_of (p @ q) = bits_of p @ bits_of q"
  by (simp add: bits_of_def)

lemma bits_of_Nil [simp]: "bits_of [] = []"
  by (simp add: bits_of_def)

lemma bc_bits_value: "bc (bits_value bs) = length (filter (\<lambda>b. b) bs)"
proof (induction bs rule: rev_induct)
  case (snoc b bs)
  then show ?case using bc_double [of b "bits_value bs"] by (simp add: add.commute)
qed simp

lemma bc_byte: "bc (unat b) = length (filter (\<lambda>b. b) (byte_bits b))"
proof -
  have "unat (b :: byte) < 2 ^ LENGTH(8)" by (rule unsigned_less)
  then have "bits_value (byte_bits b) = unat b" by (simp add: byte_bits_nat bits_value_nat_bits)
  then show ?thesis using bc_bits_value [of "byte_bits b"] by simp
qed

lemma bit_count_bits: "bit_count s = length (filter (\<lambda>b. b) (bits_of s))"
  by (induction s) (simp_all add: bit_count_Cons bits_of_Cons bc_byte, simp add: bit_count_def)

text \<open>
  Claim C15. \<open>redisPopcount\<close>, with its byte table, its unrolled loop over seven words and the parallel sums inside
  them, counts the set bits of the string, whatever its length and alignment.
\<close>

theorem redisPopcount_correct: "redisPopcount addr s = length (filter (\<lambda>b. b) (bits_of s))"
  unfolding redisPopcount_bit_count by (rule bit_count_bits)

section \<open>Finding a bit\<close>

text \<open>The number of bits before the first one with the value \<open>bt\<close>.\<close>

definition first_pos :: "bool \<Rightarrow> bool list \<Rightarrow> nat" where
  "first_pos bt bs = length (takeWhile (\<lambda>b. b \<noteq> bt) bs)"

lemma first_pos_le: "first_pos bt bs \<le> length bs"
  by (simp add: first_pos_def length_takeWhile_le)

lemma first_pos_less: "first_pos bt bs < length bs \<longleftrightarrow> bt \<in> set bs"
  by (induction bs) (auto simp: first_pos_def)

lemma first_pos_skip: "bt \<notin> set as \<Longrightarrow> first_pos bt (as @ bs) = length as + first_pos bt bs"
  by (auto simp: first_pos_def takeWhile_append)

lemma first_pos_found: "bt \<in> set as \<Longrightarrow> first_pos bt (as @ bs) = first_pos bt as"
  by (auto simp: first_pos_def takeWhile_append)

definition skip_byte :: "bool \<Rightarrow> byte" where
  "skip_byte bt = (if bt then 0 else 0xFF)"

lemma byte_bits_inject: "byte_bits a = byte_bits b \<Longrightarrow> a = b"
proof -
  assume "byte_bits a = byte_bits b"
  then have "bits_value (nat_bits 8 (unat a)) = bits_value (nat_bits 8 (unat b))" by (simp add: byte_bits_nat)
  moreover have "unat a < 2 ^ LENGTH(8)" "unat b < 2 ^ LENGTH(8)" by (rule unsigned_less)+
  ultimately show ?thesis by (simp add: bits_value_nat_bits word_unat_eq_iff)
qed

lemma not_in_replicate: "bt \<notin> set bs \<longleftrightarrow> bs = replicate (length bs) (\<not> bt)" for bs :: "bool list"
  by (induction bs) auto

lemma byte_bits_const: "byte_bits 0 = replicate 8 False" "byte_bits 0xFF = replicate 8 True"
  by code_simp+

lemma byte_bits_skip: "bt \<notin> set (byte_bits c) \<longleftrightarrow> c = skip_byte bt"
proof -
  have "byte_bits (skip_byte bt) = replicate 8 (\<not> bt)" by (simp add: skip_byte_def byte_bits_const)
  then show ?thesis using not_in_replicate [of bt "byte_bits c"] byte_bits_inject [of c "skip_byte bt"] by auto
qed

lemma skip_bytes: "bt \<notin> set (bits_of cs) \<longleftrightarrow> (\<forall>c \<in> set cs. c = skip_byte bt)"
  by (induction cs) (auto simp: bits_of_Cons byte_bits_skip [symmetric])

lemma bitpos_head_ok:
  "bitpos_head addr (skip_byte bt) s pos = (c, pos', found) \<Longrightarrow>
   pos' + first_pos bt (bits_of c) = pos + first_pos bt (bits_of s) \<and> pos' + 8 * length c = pos + 8 * length s \<and>
   (found \<longrightarrow> c \<noteq> [] \<and> hd c \<noteq> skip_byte bt)"
proof (induction addr "skip_byte bt" s pos rule: bitpos_head.induct)
  case (2 addr x cs pos)
  show ?case
  proof (cases "addr mod 8 = 0 \<or> x \<noteq> skip_byte bt")
    case True
    then show ?thesis using "2.prems" by (auto split: if_splits)
  next
    case False
    then have "first_pos bt (bits_of (x # cs)) = 8 + first_pos bt (bits_of cs)"
      using byte_bits_skip [of bt x] by (simp add: bits_of_Cons first_pos_skip)
    moreover have "bitpos_head (addr + 1) (skip_byte bt) cs (pos + 8) = (c, pos', found)" using False "2.prems" by simp
    ultimately show ?thesis using "2.hyps" False by auto
  qed
qed auto

lemma bitpos_words_ok:
  "bitpos_words (skip_byte bt) cs pos = (c, pos') \<Longrightarrow>
   pos' + first_pos bt (bits_of c) = pos + first_pos bt (bits_of cs) \<and> pos' + 8 * length c = pos + 8 * length cs \<and>
   (8 \<le> length c \<longrightarrow> take 8 c \<noteq> replicate 8 (skip_byte bt))"
proof (induction "skip_byte bt" cs pos rule: bitpos_words.induct)
  case (1 cs pos)
  show ?case
  proof (cases "length cs \<ge> 8 \<and> take 8 cs = replicate 8 (skip_byte bt)")
    case True
    have e: "cs = replicate 8 (skip_byte bt) @ drop 8 cs" using True by (metis append_take_drop_id)
    have "bt \<notin> set (bits_of (replicate 8 (skip_byte bt)))" by (simp add: skip_bytes)
    then have f: "first_pos bt (bits_of cs) = 64 + first_pos bt (bits_of (drop 8 cs))"
      by (subst e) (simp add: bits_of_append first_pos_skip)
    have "bitpos_words (skip_byte bt) cs pos = bitpos_words (skip_byte bt) (drop 8 cs) (pos + 64)"
      using True by (subst bitpos_words.simps) simp
    moreover have "64 + 8 * (length cs - 8) = 8 * length cs" using True [THEN conjunct1] by simp
    ultimately show ?thesis using "1.hyps" [OF True] "1.prems" f by simp
  next
    case False
    have "bitpos_words (skip_byte bt) cs pos = (cs, pos)" by (subst bitpos_words.simps) (rule if_not_P [OF False])
    then show ?thesis using "1.prems" False by auto
  qed
qed

lemma unat_push_or:
  assumes "unat (w :: u64) < 2 ^ (64 - k)" "unat v < 2 ^ k" "k \<le> 64"
  shows "unat (push_bit k w OR v) = unat w * 2 ^ k + unat v"
proof -
  have d: "push_bit k w AND v = 0"
  proof (rule bit_word_eqI)
    fix n assume "n < LENGTH(64)"
    have "\<not> bit v n" if "k \<le> n"
    proof -
      have "take_bit k (unat v) = unat v" using assms(2) by (rule take_bit_nat_eq_self)
      then have "\<not> bit (unat v) n" using that by (metis bit_take_bit_iff not_le)
      then show ?thesis using \<open>n < LENGTH(64)\<close> by (simp add: bit_unsigned_iff)
    qed
    then show "bit (push_bit k w AND v) n = bit (0 :: u64) n" by (auto simp: bit_simps)
  qed
  have m: "unat w * 2 ^ k \<le> 2 ^ 64 - 2 ^ k"
  proof -
    have "unat w * 2 ^ k \<le> (2 ^ (64 - k) - 1) * 2 ^ k" using assms(1) by (intro mult_le_mono1) simp
    also have "\<dots> = 2 ^ 64 - 2 ^ k" using assms(3) by (simp add: left_diff_distrib' flip: power_add)
    finally show ?thesis .
  qed
  have p: "unat (push_bit k w) = unat w * 2 ^ k"
  proof -
    have "unat w * 2 ^ k < 2 ^ 64" using m by (simp add: le_less_trans [OF _ diff_less])
    then show ?thesis unfolding unsigned_push_bit_eq by (simp add: push_bit_eq_mult take_bit_nat_eq_self)
  qed
  have "push_bit k w OR v = push_bit k w + v" using disjunctive_add_eq_or [OF d] by simp
  moreover have "unat (push_bit k w) + unat v < 2 ^ 64"
  proof -
    have "(2 :: nat) ^ k \<le> 2 ^ 64" using assms(3) by (intro power_increasing) simp_all
    then show ?thesis using m p assms(2) by linarith
  qed
  ultimately show ?thesis using p by (simp add: unat_word_ariths)
qed

lemma pow_56: "(2 :: nat) ^ (64 - 8 * Suc n) \<le> 2 ^ (64 - 8)"
  by (rule power_increasing) simp_all

lemma pow_step: "n < 8 \<Longrightarrow> (2 :: nat) ^ (64 - 8 * Suc n) * 2 ^ 8 = 2 ^ (64 - 8 * n)"
proof -
  assume "n < 8"
  then have "64 - 8 * n = (64 - 8 * Suc n) + 8" by simp
  then show ?thesis by (simp only: power_add)
qed

lemma bits_value_zeroes: "bits_value (replicate k False) = 0"
proof (induction k)
  case (Suc k)
  have "replicate (Suc k) False = replicate k False @ [False]" by (simp add: replicate_append_same)
  then show ?case using Suc by (simp only: bits_value_snoc) simp
qed simp

text \<open>Loading \<open>n\<close> bytes: the first \<open>8 * n\<close> bits, padded with zeroes.\<close>

lemma bitpos_load_ok:
  "unat w < 2 ^ (64 - 8 * n) \<Longrightarrow> n \<le> 8 \<Longrightarrow>
   unat (bitpos_load n cs w) = unat w * 2 ^ (8 * n) + bits_value (take (8 * n) (bits_of cs @ replicate 64 False))"
proof (induction n cs w rule: bitpos_load.induct)
  case (1 cs w)
  then show ?case by simp
next
  case (2 n w)
  have w: "unat w < 2 ^ (64 - 8)"
    using "2.prems"(1) pow_56 [of n] by (rule less_le_trans)
  have p: "unat (push_bit 8 w) = unat w * 2 ^ 8" using unat_push_or [OF w, of 0] by simp
  have "unat w * 2 ^ 8 < 2 ^ (64 - 8 * Suc n) * 2 ^ 8" using "2.prems"(1) by simp
  also have "\<dots> = 2 ^ (64 - 8 * n)" using "2.prems"(2) by (intro pow_step) simp
  finally have "unat (push_bit 8 w) < 2 ^ (64 - 8 * n)" using p by simp
  from "2.IH" [OF this] have "unat (bitpos_load n [] (push_bit 8 w)) = unat w * 2 ^ 8 * 2 ^ (8 * n) + bits_value (replicate (8 * n) False)"
    using "2.prems"(2) p by simp
  moreover note bits_value_zeroes [of "8 * n"] bits_value_zeroes [of "8 + 8 * n"]
  ultimately show ?case using "2.prems"(2) by (simp add: power_add)
next
  case (3 n c cs w)
  have w: "unat w < 2 ^ (64 - 8)"
    using "3.prems"(1) pow_56 [of n] by (rule less_le_trans)
  have c: "unat (ucast c :: u64) = unat c" "unat c < 2 ^ 8"
    using unsigned_less [of c, where ?'a = nat] by simp_all
  have p: "unat (push_bit 8 w OR ucast c) = unat w * 2 ^ 8 + unat c" using unat_push_or [OF w, of "ucast c"] c by simp
  have "unat w * 2 ^ 8 + unat c < (unat w + 1) * 2 ^ 8" using c(2) by simp
  also have "\<dots> \<le> 2 ^ (64 - 8 * Suc n) * 2 ^ 8" using "3.prems"(1) by (intro mult_le_mono1) simp
  also have "\<dots> = 2 ^ (64 - 8 * n)" using "3.prems"(2) by (intro pow_step) simp
  finally have "unat (push_bit 8 w OR ucast c) < 2 ^ (64 - 8 * n)" using p by simp
  have len: "length (take (8 * n) (bits_of cs @ replicate 64 False)) = 8 * n" using "3.prems"(2) by simp
  from "3.IH" [OF \<open>unat (push_bit 8 w OR ucast c) < 2 ^ (64 - 8 * n)\<close>] have
    "unat (bitpos_load n cs (push_bit 8 w OR ucast c)) = (unat w * 2 ^ 8 + unat c) * 2 ^ (8 * n) + bits_value (take (8 * n) (bits_of cs @ replicate 64 False))"
    using "3.prems"(2) p by simp
  moreover have "bits_value (byte_bits c) = unat c" using c(2) by (simp add: byte_bits_nat bits_value_nat_bits)
  moreover have "take (8 * Suc n) (bits_of (c # cs) @ replicate 64 False) = byte_bits c @ take (8 * n) (bits_of cs @ replicate 64 False)"
    by (simp add: bits_of_Cons)
  moreover have "bits_value (byte_bits c @ take (8 * n) (bits_of cs @ replicate 64 False)) =
      bits_value (byte_bits c) * 2 ^ (8 * n) + bits_value (take (8 * n) (bits_of cs @ replicate 64 False))"
    using "3.prems"(2) bits_value_append [of "byte_bits c" "take (8 * n) (bits_of cs @ replicate 64 False)"]
    by (metis len)
  ultimately show ?case by (simp only: bitpos_load.simps) (simp add: power_add algebra_simps)
qed

lemma and_push_one: "k < 64 \<Longrightarrow> push_bit k 1 AND w \<noteq> 0 \<longleftrightarrow> bit (w :: u64) k"
  using and_exp_eq_0_iff_not_bit [of w k] by (simp add: push_bit_eq_mult ac_simps)

lemma bitpos_scan_ok:
  "k < 64 \<Longrightarrow> bitpos_scan bt (push_bit k 1) w pos =
     (let l = first_pos bt (nat_bits (Suc k) (unat w)) in if l < Suc k then Some (pos + l) else None)"
proof (induction k arbitrary: pos)
  case 0
  have "bitpos_scan bt (drop_bit 1 1) w q = None" for q by (subst bitpos_scan.simps) simp
  then show ?case using and_push_one [of 0 w]
    by (subst bitpos_scan.simps) (auto simp: nat_bits_Cons first_pos_def Let_def nat_bits_def bit_unsigned_iff)
next
  case (Suc k)
  have "bit (push_bit (Suc k) 1 :: u64) (Suc k)" using Suc.prems unfolding bit_push_bit_iff by simp
  then have nz: "push_bit (Suc k) 1 \<noteq> (0 :: u64)" by fastforce
  have d: "drop_bit 1 (push_bit (Suc k) 1) = (push_bit k 1 :: u64)"
    using Suc.prems by (intro bit_word_eqI) (auto simp: bit_simps)
  have b: "(push_bit (Suc k) 1 AND w \<noteq> 0) = bit (unat w) (Suc k)" using and_push_one [of "Suc k" w] Suc.prems by (simp add: bit_unsigned_iff)
  show ?case
  proof (cases "bit (unat w) (Suc k) = bt")
    case True
    then have "bitpos_scan bt (push_bit (Suc k) 1) w pos = Some pos" using nz b by (subst bitpos_scan.simps) auto
    then show ?thesis using True by (simp add: nat_bits_Cons [of "Suc k"] first_pos_def Let_def)
  next
    case False
    then have "bitpos_scan bt (push_bit (Suc k) 1) w pos = bitpos_scan bt (push_bit k 1) w (pos + 1)"
      using nz b d by (subst bitpos_scan.simps) auto
    moreover have "first_pos bt (nat_bits (Suc (Suc k)) x) = Suc (first_pos bt (nat_bits (Suc k) x))" if "bit x (Suc k) \<noteq> bt" for x
      using that by (simp add: nat_bits_Cons [of "Suc k"] first_pos_def)
    ultimately show ?thesis using False Suc by (simp add: Let_def)
  qed
qed

lemma top_bit: "NOT (drop_bit 1 (- 1)) = (push_bit 63 1 :: u64)"
  by code_simp

lemma replicate_take: "take 8 c \<noteq> replicate 8 x \<Longrightarrow> 8 \<le> length c \<Longrightarrow> \<exists>y \<in> set (take 8 c). y \<noteq> x"
  by (metis length_take min.absorb2 replicate_length_same)

text \<open>The word that is scanned at the end: the bits that are left, padded or cut to 64.\<close>

definition last_word :: "byte list \<Rightarrow> bool list" where
  "last_word c = take 64 (bits_of c @ replicate 64 False)"

lemma last_word_load: "length (last_word c) = 64" "unat (bitpos_load 8 c 0) = bits_value (last_word c)"
    "nat_bits 64 (unat (bitpos_load 8 c 0)) = last_word c"
proof -
  show l: "length (last_word c) = 64" by (simp add: last_word_def)
  show "unat (bitpos_load 8 c 0) = bits_value (last_word c)"
    using bitpos_load_ok [of 0 8 c] by (simp add: last_word_def)
  then show "nat_bits 64 (unat (bitpos_load 8 c 0)) = last_word c" using nat_bits_value [OF l] by simp
qed

lemma last_word_short: "length c < 8 \<Longrightarrow> last_word c = bits_of c @ replicate (64 - 8 * length c) False"
  by (simp add: last_word_def)

lemma last_word_found:
  assumes "bt \<in> set (bits_of c)" "8 \<le> length c \<Longrightarrow> bt \<in> set (bits_of (take 8 c))"
  shows "bt \<in> set (last_word c)" "first_pos bt (last_word c) = first_pos bt (bits_of c)"
proof -
  have "bt \<in> set (last_word c) \<and> first_pos bt (last_word c) = first_pos bt (bits_of c)"
  proof (cases "8 \<le> length c")
    case True
    have e: "bits_of c = bits_of (take 8 c) @ bits_of (drop 8 c)" by (metis append_take_drop_id bits_of_append)
    have "last_word c = bits_of (take 8 c)" using True by (simp add: last_word_def e)
    then show ?thesis using assms(2) [OF True] first_pos_found e by metis
  next
    case False
    then show ?thesis using assms(1) first_pos_found last_word_short [of c] by auto
  qed
  then show "bt \<in> set (last_word c)" "first_pos bt (last_word c) = first_pos bt (bits_of c)" by simp_all
qed

lemma last_word_missing:
  assumes "bt \<notin> set (bits_of c)" "8 \<le> length c \<Longrightarrow> bt \<in> set (bits_of (take 8 c))"
  shows "if bt then bitpos_load 8 c 0 = 0 else first_pos bt (last_word c) = 8 * length c \<and> length c < 8"
proof -
  have s: "length c < 8"
    using assms by (metis append_take_drop_id bits_of_append in_set_conv_decomp_first not_le set_append UnCI)
  show ?thesis
  proof (cases bt)
    case True
    then have "last_word c = replicate 64 False"
      using assms(1) not_in_replicate [of True "last_word c"] last_word_load(1) [of c] last_word_short [OF s] by auto
    then have "unat (bitpos_load 8 c 0) = 0" using last_word_load(2) [of c] bits_value_zeroes by simp
    then show ?thesis using True by (simp add: unat_eq_zero)
  next
    case False
    then show ?thesis using first_pos_skip [OF assms(1)] last_word_short [OF s] s by (simp add: first_pos_def takeWhile_replicate)
  qed
qed

lemma bitpos_last:
  assumes "8 \<le> length c \<Longrightarrow> bt \<in> set (bits_of (take 8 c))"
  shows "(if bt \<and> bitpos_load 8 c 0 = 0 then Some (- 1) else map_option int (bitpos_scan bt (NOT (drop_bit 1 (- 1))) (bitpos_load 8 c 0) pos)) =
    Some (if bt \<in> set (bits_of c) then int (pos + first_pos bt (bits_of c)) else if bt then - 1 else int (pos + 8 * length c))"
proof -
  define w where "w = bitpos_load 8 c 0"
  have sc: "bitpos_scan bt (NOT (drop_bit 1 (- 1))) w pos =
      (if first_pos bt (last_word c) < 64 then Some (pos + first_pos bt (last_word c)) else None)"
    unfolding top_bit using bitpos_scan_ok [of 63 bt w pos] last_word_load(3) [of c] by (simp add: Let_def w_def)
  show ?thesis
  proof (cases "bt \<in> set (bits_of c)")
    case True
    note f = last_word_found [OF True assms]
    have "first_pos bt (last_word c) < 64" using first_pos_less [of bt "last_word c"] f(1) last_word_load(1) by simp
    moreover have "w \<noteq> 0" if bt
    proof
      assume "w = 0"
      then have "last_word c = nat_bits 64 0" using last_word_load(3) [of c] by (simp add: w_def)
      then show False using f(1) that by (auto simp: nat_bits_def)
    qed
    ultimately show ?thesis using sc f(2) True by (auto simp: w_def)
  next
    case False
    then show ?thesis using last_word_missing [OF False assms] sc by (auto simp: w_def split: if_splits)
  qed
qed

lemma bitpos_skipped:
  assumes h: "bitpos_head addr (skip_byte bt) s 0 = (c, pos, found)"
    and w: "(if found then (c, pos) else bitpos_words (skip_byte bt) c pos) = (c1, pos1)" and l: "8 \<le> length c1"
  shows "bt \<in> set (bits_of (take 8 c1))"
proof (cases found)
  case True
  then have "c1 \<noteq> []" "hd c1 \<noteq> skip_byte bt" using bitpos_head_ok [OF h] w by auto
  then have "\<exists>y \<in> set (take 8 c1). y \<noteq> skip_byte bt" by (cases c1) auto
  then show ?thesis using skip_bytes [of bt "take 8 c1"] by auto
next
  case False
  then have "take 8 c1 \<noteq> replicate 8 (skip_byte bt)" using bitpos_words_ok [of bt c pos c1 pos1] w l by simp
  then show ?thesis using replicate_take [of c1 "skip_byte bt"] l skip_bytes [of bt "take 8 c1"] by auto
qed

text \<open>
  Claim C16. \<open>redisBitpos\<close> answers the position of the first bit with the wanted value. When there is none it
  answers -1 for a set bit and, as zeroes follow the string, the number of bits for a clear bit. It never
  ends in the panic after its last loop, whatever the alignment of the string.
\<close>

theorem redisBitpos_correct:
  "redisBitpos addr s bt =
     Some (if bt \<in> set (bits_of s) then int (first_pos bt (bits_of s)) else if bt then - 1 else 8 * int (length s))"
proof -
  obtain c pos found where h: "bitpos_head addr (skip_byte bt) s 0 = (c, pos, found)" by (metis prod_cases3)
  obtain c1 pos1 where w: "(if found then (c, pos) else bitpos_words (skip_byte bt) c pos) = (c1, pos1)" by fastforce
  have r: "pos1 + first_pos bt (bits_of c1) = first_pos bt (bits_of s)" "pos1 + 8 * length c1 = 8 * length s"
    using bitpos_head_ok [OF h] bitpos_words_ok [of bt c pos c1 pos1] w by (auto split: if_splits)
  have "redisBitpos addr s bt = (if bt \<and> bitpos_load 8 c1 0 = 0 then Some (- 1)
      else map_option int (bitpos_scan bt (NOT (drop_bit 1 (- 1))) (bitpos_load 8 c1 0) pos1))"
    unfolding redisBitpos_def Let_def skip_byte_def [symmetric] h prod.case w ..
  also note bitpos_last [OF bitpos_skipped [OF h w]]
  moreover have "bt \<in> set (bits_of s) \<longleftrightarrow> bt \<in> set (bits_of c1)"
    using r first_pos_less [of bt "bits_of s"] first_pos_less [of bt "bits_of c1"] by (simp, linarith)
  ultimately show ?thesis using r by auto
qed

section \<open>Bit fields\<close>

lemma write_at_Cons: "k < length xs \<Longrightarrow> write_at k (b # bs) xs = write_at (Suc k) bs (xs[k := b])"
  by (simp add: write_at_def take_Suc_conv_app_nth drop_update_cancel)

lemma nth_bits_of: "k < 8 * length p \<Longrightarrow> bits_of p ! k = bit (p ! (k div 8)) (7 - k mod 8)"
proof (induction p arbitrary: k)
  case (Cons b p)
  show ?case
  proof (cases "k < 8")
    case True
    then show ?thesis by (simp add: bits_of_Cons nth_append byte_bits_def)
  next
    case False
    then obtain j where "k = j + 8" by (metis add.commute le_Suc_ex not_less)
    moreover have "(j + 8) div 8 = Suc (j div 8)" by simp
    ultimately show ?thesis using Cons by (simp add: bits_of_Cons nth_append del: div_add_self1 div_add_self2)
  qed
qed simp

lemma value_bits_Suc: "value_bits (Suc n) v = bit v n # value_bits n v"
proof -
  have "[0..<Suc n] = 0 # map Suc [0..<n]" by (simp add: map_Suc_upt upt_conv_Cons del: upt_Suc)
  then show ?thesis by (simp add: value_bits_def del: upt_Suc)
qed

lemma length_value_bits [simp]: "length (value_bits n v) = n"
  by (simp add: value_bits_def)

lemma offset_parts: "unat (drop_bit 3 off) = unat off div 8" "unat (off AND 7) = unat off mod 8" for off :: u64
proof -
  show "unat (drop_bit 3 off) = unat off div 8" by (simp only: unat_drop_bit_eq) (simp add: drop_bit_eq_div)
  have "(7 :: u64) = mask 3" by (simp add: mask_eq_exp_minus_1)
  then have "off AND 7 = take_bit 3 off" by (simp only: take_bit_eq_mask)
  then show "unat (off AND 7) = unat off mod 8" by (simp only: unsigned_take_bit_eq) (simp add: take_bit_eq_mod)
qed

lemma bit_new_byte:
  "b < 8 \<Longrightarrow> i < 8 \<Longrightarrow>
   bit (ucast (((ucast (x :: byte) AND NOT (push_bit b 1)) OR push_bit b (if y then 1 else 0)) AND 0xFF :: u64) :: byte) i =
   (if i = b then y else bit x i)"
proof -
  assume "b < 8" "i < 8"
  moreover have "(0xFF :: u64) = mask 8" by (simp add: mask_eq_exp_minus_1)
  then have "bit (0xFF :: u64) i" using \<open>i < 8\<close> by (simp only: bit_mask_iff) simp
  ultimately show ?thesis by (auto simp: bit_simps)
qed

lemma set_bit_bits_of:
  assumes k: "k < 8 * length p" and x: "\<And>i. i < 8 \<Longrightarrow> bit x i = (if i = 7 - k mod 8 then y else bit (p ! (k div 8)) i)"
  shows "bits_of (p[k div 8 := x]) = (bits_of p)[k := y]"
proof (rule nth_equalityI)
  fix j assume j: "j < length (bits_of (p[k div 8 := x]))"
  show "bits_of (p[k div 8 := x]) ! j = (bits_of p)[k := y] ! j"
  proof (cases "j div 8 = k div 8")
    case True
    have "j mod 8 < 8" "k mod 8 < 8" by simp_all
    then have "7 - j mod 8 = 7 - k mod 8 \<longleftrightarrow> j mod 8 = k mod 8" by linarith
    also have "\<dots> \<longleftrightarrow> j = k" using True by (metis div_mult_mod_eq)
    finally have "7 - j mod 8 = 7 - k mod 8 \<longleftrightarrow> j = k" .
    moreover have "k div 8 < length p" using k by auto
    ultimately show ?thesis using True j k x [of "7 - j mod 8"] by (auto simp: nth_bits_of nth_list_update)
  next
    case False
    then have "j \<noteq> k" by auto
    then show ?thesis using False j by (simp add: nth_bits_of)
  qed
qed simp

lemma unat_Suc_off: "Suc (unat off) < 2 ^ 64 \<Longrightarrow> unat (off + 1) = Suc (unat off)" for off :: u64
  by (simp add: unat_word_ariths)

lemma setUnsigned_loop_ok:
  "n \<le> 64 \<Longrightarrow> unat off + n \<le> 8 * length p \<Longrightarrow> 8 * length p < 2 ^ 64 \<Longrightarrow>
   \<exists>q. setUnsigned_loop n off v p = Some q \<and> length q = length p \<and> bits_of q = write_at (unat off) (value_bits n v) (bits_of p)"
proof (induction n arbitrary: off p)
  case (Suc n)
  define k where "k = unat off"
  have k: "k < 8 * length p" using Suc.prems(2) by (simp add: k_def)
  then have kl: "k div 8 < length p" by auto
  define x where "x = (ucast (((ucast (p ! (k div 8)) AND NOT (push_bit (7 - k mod 8) 1)) OR
      push_bit (7 - k mod 8) (if bit v n then 1 else 0)) AND 0xFF :: u64) :: byte)"
  have b: "(v AND push_bit n 1 \<noteq> 0) = bit v n" using and_push_one [of n v] Suc.prems(1) by (simp add: ac_simps)
  have st: "setUnsigned_loop (Suc n) off v p = setUnsigned_loop n (off + 1) v (p[k div 8 := x])"
    unfolding setUnsigned_loop.simps Let_def offset_parts b x_def k_def [symmetric] if_P [OF kl] ..
  have u: "unat (off + 1) = Suc k" using unat_Suc_off [of off] Suc.prems by (simp add: k_def)
  have bs: "bits_of (p[k div 8 := x]) = (bits_of p)[k := bit v n]"
    using k unfolding x_def by (intro set_bit_bits_of bit_new_byte) simp_all
  obtain q where "setUnsigned_loop n (off + 1) v (p[k div 8 := x]) = Some q" "length q = length p"
      "bits_of q = write_at (Suc k) (value_bits n v) ((bits_of p)[k := bit v n])"
    using Suc.IH [of "off + 1" "p[k div 8 := x]"] Suc.prems u bs by (auto simp: k_def)
  then show ?case unfolding st value_bits_Suc using k write_at_Cons [of k "bits_of p" "bit v n" "value_bits n v"] by (simp add: k_def [symmetric])
qed (simp add: value_bits_def write_at_def)

lemma read_at_Suc: "k < length xs \<Longrightarrow> read_at k (Suc n) xs = xs ! k # read_at (Suc k) n xs"
  by (simp add: read_at_def Cons_nth_drop_Suc [symmetric])

lemma shift_in_bit: "push_bit 1 v OR (drop_bit b x AND 1) = 2 * v + of_bool (bit x b)" for v x :: u64
proof -
  have "drop_bit b x AND 1 = of_bool (bit x b)" by (simp add: and_one_eq mod_2_eq_odd bit_iff_odd_drop_bit)
  moreover have "push_bit 1 v OR of_bool c = push_bit 1 v + of_bool c" for c :: bool
    by (cases c) (simp_all add: or_one_eq push_bit_eq_mult)
  ultimately show ?thesis by (simp add: push_bit_eq_mult)
qed

lemma getUnsigned_loop_ok:
  "unat off + n \<le> 8 * length p \<Longrightarrow> 8 * length p < 2 ^ 64 \<Longrightarrow>
   getUnsigned_loop n off p v = Some (of_nat (bits_value (read_at (unat off) n (bits_of p))) + v * 2 ^ n)"
proof (induction n arbitrary: off v)
  case (Suc n)
  define k where "k = unat off"
  have k: "k < 8 * length p" using Suc.prems(1) by (simp add: k_def)
  then have kl: "k div 8 < length p" by auto
  have u: "unat (off + 1) = Suc k" using unat_Suc_off [of off] Suc.prems by (simp add: k_def)
  have b: "bit (ucast (p ! (k div 8)) :: u64) (7 - k mod 8) = bits_of p ! k" using k less_imp_diff_less [of 7 64 "k mod 8"] by (simp add: nth_bits_of bit_simps)
  have st: "getUnsigned_loop (Suc n) off p v = getUnsigned_loop n (off + 1) p (2 * v + of_bool (bits_of p ! k))"
    unfolding getUnsigned_loop.simps Let_def offset_parts k_def [symmetric] if_P [OF kl] shift_in_bit b ..
  have l: "length (read_at (Suc k) n (bits_of p)) = n" using Suc.prems(1) by (simp add: read_at_def k_def)
  have "bits_value (read_at k (Suc n) (bits_of p)) = of_bool (bits_of p ! k) * 2 ^ n + bits_value (read_at (Suc k) n (bits_of p))"
    using k bits_value_append [of "[bits_of p ! k]" "read_at (Suc k) n (bits_of p)"] l
    by (simp add: read_at_Suc bits_value_def [of "[_]"])
  then show ?case unfolding st using Suc.IH [of "off + 1"] Suc.prems u by (simp add: k_def algebra_simps)
qed (simp add: read_at_def)

lemma bits_value_value_bits: "n \<le> 64 \<Longrightarrow> bits_value (value_bits n v) = unat v mod 2 ^ n"
  by (simp add: value_bits_nat bits_value_nat_bits)

lemma bit_top: "0 < n \<Longrightarrow> u < 2 ^ n \<Longrightarrow> bit u (n - 1) \<longleftrightarrow> 2 ^ (n - 1) \<le> u" for u :: nat
proof -
  assume n: "0 < n" and u: "u < 2 ^ n"
  then have "u div 2 ^ (n - 1) < 2" by (cases n) (simp_all add: less_mult_imp_div_less)
  then have "odd (u div 2 ^ (n - 1)) \<longleftrightarrow> u div 2 ^ (n - 1) \<noteq> 0" by (cases "u div 2 ^ (n - 1)") auto
  then show ?thesis by (simp add: bit_iff_odd div_eq_0_iff not_less)
qed

lemma low_or_high: "unat u < 2 ^ n \<Longrightarrow> n < 64 \<Longrightarrow> u OR push_bit n (- 1) = word_of_int (int (unat u) - 2 ^ n)" for u :: u64
proof -
  assume u: "unat u < 2 ^ n" and n: "n < 64"
  have "u = take_bit n u" using u n by (simp add: word_unat_eq_iff unsigned_take_bit_eq take_bit_nat_eq_self)
  then have "\<not> bit u i" if "n \<le> i" for i using that by (metis bit_take_bit_iff not_less)
  then have d: "u OR push_bit n (- 1) = u + push_bit n (- 1)"
    by (intro disjunctive_add [symmetric]) (auto simp: bit_simps not_less)
  show ?thesis unfolding d by (simp add: push_bit_eq_mult)
qed

lemma sign_extend:
  assumes n: "0 < n" "n \<le> 64" and u: "unat u < 2 ^ n"
  shows "sint (if n < 64 \<and> u AND push_bit (n - 1) 1 \<noteq> 0 then u OR push_bit n (- 1) else u :: u64) = as_signed n (int (unat u))"
proof -
  have b: "u AND push_bit (n - 1) 1 \<noteq> 0 \<longleftrightarrow> 2 ^ (n - 1) \<le> unat u"
    using and_push_one [of "n - 1" u] bit_top [OF n(1) u] n by (simp add: ac_simps bit_unsigned_iff)
  have two: "(2 :: int) ^ n = 2 * 2 ^ (n - 1)" using n(1) by (cases n) simp_all
  have p: "(2 :: int) ^ (n - 1) \<le> 2 ^ 63" using n by (intro power_increasing) simp_all
  have ui: "int (unat u) < 2 ^ n" using u by (metis of_nat_less_iff of_nat_numeral of_nat_power)
  have s: "(int (unat u) < 2 ^ (n - 1)) = (\<not> 2 ^ (n - 1) \<le> unat u)"
    by (metis not_less of_nat_less_iff of_nat_numeral of_nat_power)
  show ?thesis
  proof (cases "2 ^ (n - 1) \<le> unat u")
    case True
    have w: "word_of_int (int (unat u) - 2 ^ n) = (if n < 64 then u OR push_bit n (- 1) else u)"
      using low_or_high [OF u] n by (auto simp: le_less)
    have "sint (word_of_int (int (unat u) - 2 ^ n) :: u64) = int (unat u) - 2 ^ n"
      using ui s True two p by (intro sint_of_int64) (auto simp: is_int64_def int_ranges)
    then show ?thesis using True b s w by (auto simp: as_signed_def)
  next
    case False
    have "- (2 ^ 63) \<le> int (unat u)" by (rule order_trans [of _ 0]) simp_all
    then have "is_int64 (int (unat u))" unfolding is_int64_def int_ranges using False s p by linarith
    then have "sint (word_of_int (int (unat u)) :: u64) = int (unat u)" by (rule sint_of_int64)
    then show ?thesis using False b s by (simp add: as_signed_def)
  qed
qed

lemma setUnsignedBitfield_bits:
  "n \<le> 64 \<Longrightarrow> unat off + n \<le> 8 * length p \<Longrightarrow> 8 * length p < 2 ^ 64 \<Longrightarrow>
   \<exists>q. setUnsignedBitfield p off n v = Some q \<and> length q = length p \<and> bits_of q = write_at (unat off) (value_bits n v) (bits_of p)"
  unfolding setUnsignedBitfield_def by (rule setUnsigned_loop_ok)

lemma getUnsignedBitfield_bits:
  "unat off + n \<le> 8 * length p \<Longrightarrow> 8 * length p < 2 ^ 64 \<Longrightarrow>
   getUnsignedBitfield p off n = Some (of_nat (bits_value (read_at (unat off) n (bits_of p))))"
  unfolding getUnsignedBitfield_def by (simp add: getUnsigned_loop_ok)

lemma bits_value_read: "bits_value (read_at k n bs) < 2 ^ n"
proof -
  have "bits_value (read_at k n bs) < 2 ^ length (read_at k n bs)" by (rule bits_value_less)
  also have "\<dots> \<le> 2 ^ n" by (rule power_increasing) (simp_all add: read_at_def)
  finally show ?thesis .
qed

lemma getSignedBitfield_bits:
  assumes "0 < n" "n \<le> 64" "unat off + n \<le> 8 * length p" "8 * length p < 2 ^ 64"
  shows "getSignedBitfield p off n = Some (as_signed n (int (bits_value (read_at (unat off) n (bits_of p)))))"
proof -
  define x where "x = bits_value (read_at (unat off) n (bits_of p))"
  have "x < 2 ^ n" unfolding x_def by (rule bits_value_read)
  moreover have "(2 :: nat) ^ n \<le> 2 ^ 64" using assms(2) by (intro power_increasing) simp_all
  ultimately have u: "unat (of_nat x :: u64) = x" by (simp add: unat_of_nat)
  then show ?thesis
    using getUnsignedBitfield_bits [OF assms(3,4)] sign_extend [OF assms(1,2), of "of_nat x"] \<open>x < 2 ^ n\<close>
    by (simp add: getSignedBitfield_def flip: x_def)
qed

text \<open>
  Claim C14. Writing an integer of \<open>n\<close> bits at any bit offset inside the string succeeds, keeps the length of
  the string, and changes exactly the \<open>n\<close> bits from the offset on. Reading the field back gives the value
  modulo \<open>2^n\<close>, or the value itself when it is signed and fits the field, and every field that does not
  overlap it reads as before.
\<close>

theorem bitfield_roundtrip:
  assumes "0 < n" "n \<le> 64" "unat off + n \<le> 8 * length p" "8 * length p < 2 ^ 64"
  shows "\<exists>q. setUnsignedBitfield p off n v = Some q \<and> length q = length p \<and>
      bits_of q = write_at (unat off) (value_bits n v) (bits_of p) \<and>
      getUnsignedBitfield q off n = Some (of_nat (unat v mod 2 ^ n)) \<and>
      (\<forall>x. v = word_of_int x \<and> - (2 ^ (n - 1)) \<le> x \<and> x < 2 ^ (n - 1) \<longrightarrow>
         setSignedBitfield p off n x = Some q \<and> getSignedBitfield q off n = Some x) \<and>
      (\<forall>off' m. unat off' + m \<le> 8 * length p \<and> (unat off' + m \<le> unat off \<or> unat off + n \<le> unat off') \<longrightarrow>
         getUnsignedBitfield q off' m = getUnsignedBitfield p off' m)"
proof -
  obtain q where q: "setUnsignedBitfield p off n v = Some q" "length q = length p"
      "bits_of q = write_at (unat off) (value_bits n v) (bits_of p)"
    using setUnsignedBitfield_bits [OF assms(2-4)] by blast
  have r: "read_at (unat off) n (bits_of q) = value_bits n v" using q(3) assms(3) by (simp add: buf_simps)
  have "getUnsignedBitfield q off n = Some (of_nat (unat v mod 2 ^ n))"
    using getUnsignedBitfield_bits [of off n q] assms q(2) r by (simp add: bits_value_value_bits)
  moreover have "setSignedBitfield p off n x = Some q \<and> getSignedBitfield q off n = Some x"
    if x: "v = word_of_int x" "- (2 ^ (n - 1)) \<le> x" "x < 2 ^ (n - 1)" for x
  proof -
    have "int (unat v mod 2 ^ n) = x mod 2 ^ 64 mod 2 ^ n" using x(1) by (simp add: zmod_int unsigned_of_int take_bit_eq_mod)
    also have "\<dots> = x mod 2 ^ n" using assms(2) by (intro mod_mod_cancel le_imp_power_dvd) simp
    finally show ?thesis
      using q x as_signed_mod [of n x] assms r getSignedBitfield_bits [of n off q]
      by (simp add: setSignedBitfield_def bits_value_value_bits)
  qed
  moreover have "getUnsignedBitfield q off' m = getUnsignedBitfield p off' m"
    if "unat off' + m \<le> 8 * length p" "unat off' + m \<le> unat off \<or> unat off + n \<le> unat off'" for off' m
    using that assms q by (simp add: getUnsignedBitfield_bits read_write_other)
  ultimately show ?thesis using q by blast
qed

theorem bitfield_roundtrip_witness:
  "\<exists>q. setSignedBitfield [0xFF, 0, 0xFF] 5 12 (- 7) = Some q \<and> getSignedBitfield q 5 12 = Some (- 7) \<and>
     getUnsignedBitfield q 0 5 = getUnsignedBitfield [0xFF, 0, 0xFF] 0 5"
  using bitfield_roundtrip [of 12 5 "[0xFF, 0, 0xFF]" "word_of_int (- 7)"] by fastforce

section \<open>Overflow\<close>

text \<open>
  What a field with the range from \<open>mn\<close> to \<open>mx\<close> is to hold when the result is \<open>s\<close>: the answer and the limit. The
  answer under WRAP is that of the code, 1 at either end; the comment of the functions says -1 for an underflow.
\<close>

definition overflow_spec :: "(int \<Rightarrow> int) \<Rightarrow> int \<Rightarrow> int \<Rightarrow> owtype \<Rightarrow> int \<Rightarrow> int \<times> int option" where
  "overflow_spec wrap mn mx ow s =
     (if mn \<le> s \<and> s \<le> mx then (0, None)
      else case ow of BFOVERFLOW_WRAP \<Rightarrow> (1, Some (wrap s))
        | BFOVERFLOW_SAT \<Rightarrow> if s > mx then (1, Some mx) else (- 1, Some mn)
        | BFOVERFLOW_FAIL \<Rightarrow> (if s > mx then 1 else - 1, None))"

lemma push_bit_one_minus: "push_bit n 1 - 1 = (word_of_int (2 ^ n - 1) :: u64)"
  by (simp add: push_bit_eq_mult)

lemma and_not_high: "w AND NOT (push_bit n (- 1)) = take_bit n w" for w :: u64
  by (rule bit_word_eqI) (auto simp: bit_simps)

lemma take_bit_word_of_int: "n \<le> 64 \<Longrightarrow> take_bit n (word_of_int s :: u64) = word_of_int (s mod 2 ^ n)"
  by (rule bit_word_eqI) (auto simp: bit_simps take_bit_eq_mod [symmetric])

lemma pow63: "n \<le> 63 \<Longrightarrow> (2 :: int) ^ n \<le> 2 ^ 63"
  by (rule power_increasing) simp_all

lemma uint_of_int64: "0 \<le> y \<Longrightarrow> y < 2 ^ 64 \<Longrightarrow> uint (word_of_int y :: u64) = y"
  by (simp add: unsigned_of_int take_bit_int_eq_self)

lemma checkUnsigned_ok:
  assumes n: "n \<le> 63" and x: "0 \<le> x" "x < 2 ^ n" and i: "is_int64 incr"
  shows "checkUnsignedBitfieldOverflow (word_of_int x) incr n ow =
    map_prod id (map_option word_of_int) (overflow_spec (\<lambda>s. s mod 2 ^ n) 0 (2 ^ n - 1) ow (x + incr))"
proof -
  note p = pow63 [OF n]
  have mx: "sint (word_of_int (2 ^ n - 1) - word_of_int x :: u64) = 2 ^ n - 1 - x"
    using sint_of_int64 [of "2 ^ n - 1 - x"] x p by (simp add: is_int64_def int_ranges)
  have mn: "sint (- word_of_int x :: u64) = - x"
    using sint_of_int64 [of "- x"] x p by (simp add: is_int64_def int_ranges)
  have le: "\<not> (word_of_int x :: u64) > word_of_int (2 ^ n - 1)"
    unfolding word_less_def using x p uint_of_int64 [of x] uint_of_int64 [of "2 ^ n - 1"] by (simp del: of_int_diff)
  have w: "(word_of_int x + word_of_int incr :: u64) AND NOT (push_bit n (- 1)) = word_of_int ((x + incr) mod 2 ^ n)"
    using n take_bit_word_of_int [of n "x + incr"] by (simp only: and_not_high wi_hom_add)
  show ?thesis
    unfolding checkUnsignedBitfieldOverflow_def Let_def push_bit_one_minus w mx mn overflow_spec_def
    using n le mx x by (cases ow) (auto simp: push_bit_one_minus)
qed

lemma wrap_signed_ok: "0 < n \<Longrightarrow> n \<le> 64 \<Longrightarrow> sint (wrap_signed n (word_of_int s)) = as_signed n (s mod 2 ^ n)"
proof -
  assume n: "0 < n" "n \<le> 64"
  define c where "c = (word_of_int s :: u64)"
  have t: "take_bit n c = word_of_int (s mod 2 ^ n)" using take_bit_word_of_int [OF n(2)] by (simp add: c_def)
  have u: "int (unat (take_bit n c)) = s mod 2 ^ n"
  proof -
    have "s mod 2 ^ n < 2 ^ n" by simp
    also have "(2 :: int) ^ n \<le> 2 ^ 64" using n(2) by (rule power_increasing) simp
    finally have "s mod 2 ^ n < 2 ^ 64" .
    then show ?thesis unfolding t by (simp add: unsigned_of_int take_bit_int_eq_self)
  qed
  then have l: "unat (take_bit n c) < 2 ^ n"
    by (metis of_nat_less_iff of_nat_numeral of_nat_power pos_mod_bound zero_less_numeral zero_less_power)
  have b: "take_bit n c AND push_bit (n - 1) 1 \<noteq> 0 \<longleftrightarrow> c AND push_bit (n - 1) 1 \<noteq> 0"
    using and_push_one [of "n - 1" c] and_push_one [of "n - 1" "take_bit n c"] n by (simp add: ac_simps bit_take_bit_iff)
  have o: "take_bit n c OR push_bit n (- 1) = c OR push_bit n (- 1)" by (rule bit_word_eqI) (auto simp: bit_simps)
  have "wrap_signed n c = (if n < 64 \<and> take_bit n c AND push_bit (n - 1) 1 \<noteq> 0 then take_bit n c OR push_bit n (- 1) else take_bit n c)"
    unfolding wrap_signed_def b o and_not_high using n(2) by (auto simp: take_bit_word_eq_self)
  then show ?thesis using sign_extend [OF n l] u by (simp add: c_def)
qed

lemma checkSigned_ok:
  assumes n: "0 < n" "n \<le> 64" and x: "- (2 ^ (n - 1)) \<le> x" "x < 2 ^ (n - 1)" and i: "is_int64 incr"
  shows "checkSignedBitfieldOverflow x incr n ow =
    overflow_spec (\<lambda>s. as_signed n (s mod 2 ^ n)) (- (2 ^ (n - 1))) (2 ^ (n - 1) - 1) ow (x + incr)"
proof -
  define m where "m = (2 :: int) ^ (n - 1)"
  have p: "m \<le> 2 ^ 63" using pow63 [of "n - 1"] n by (simp add: m_def)
  have w: "sint (wrap_signed n (word_of_int x + word_of_int incr)) = as_signed n ((x + incr) mod 2 ^ n)"
    using wrap_signed_ok [OF n, of "x + incr"] by simp
  have mx: "(if n = 64 then INT64_MAX else 2 ^ (n - 1) - 1) = m - 1" by (simp add: m_def int_ranges)
  define A where "A = sint (word_of_int (m - 1) - word_of_int x :: u64)"
  define B where "B = sint (word_of_int (- (m - 1) - 1 - x) :: u64)"
  have Ai: "A = m - 1 - x" if "is_int64 (m - 1 - x)" using sint_of_int64 [OF that] unfolding A_def wi_hom_sub .
  have Bi: "B = - m - x" if "is_int64 (- (m - 1) - 1 - x)" using sint_of_int64 [OF that] unfolding B_def by simp
  have xm: "- m \<le> x" "x < m" "- (2 ^ 63) \<le> incr" "incr \<le> 2 ^ 63 - 1"
    using x i by (simp_all add: m_def is_int64_def int_ranges)
  have m64: "m = 2 ^ 63" if "n = 64" using that by (simp add: m_def)
  have m62: "m \<le> 2 ^ 62" if "n \<noteq> 64"
    unfolding m_def using that n by (intro power_increasing) simp_all
  have hi: "(x > m - 1 \<or> (n \<noteq> 64 \<and> incr > A) \<or> (x \<ge> 0 \<and> incr > 0 \<and> incr > A)) \<longleftrightarrow> x + incr > m - 1"
  proof (cases "0 \<le> x \<or> n \<noteq> 64")
    case True
    have "A = m - 1 - x" by (rule Ai, unfold is_int64_def int_ranges) (use xm p m62 True in force)
    then show ?thesis using True xm(1-2) by linarith
  next
    case False
    then show ?thesis using m64 xm by linarith
  qed
  have lo: "(x < - (m - 1) - 1 \<or> (n \<noteq> 64 \<and> incr < B) \<or> (x < 0 \<and> incr < 0 \<and> incr < B)) \<longleftrightarrow> x + incr < - m"
  proof (cases "x < 0 \<or> n \<noteq> 64")
    case True
    have "B = - m - x" by (rule Bi, unfold is_int64_def int_ranges) (use xm p m62 True in force)
    then show ?thesis using True xm(1-2) by linarith
  next
    case False
    then show ?thesis using m64 xm by linarith
  qed
  have f: "(if m - 1 < y then a else if y < - m then b else c) = (if - m \<le> y \<and> y \<le> m - 1 then c else if y > m - 1 then a else b)"
    for y and a b c :: "int \<times> int option"
    using p m_def by auto
  show ?thesis
    unfolding checkSignedBitfieldOverflow_def Let_def mx w unfolding A_def [symmetric] B_def [symmetric] unfolding hi lo f
    unfolding overflow_spec_def m_def [symmetric] by (cases ow) simp_all
qed

text \<open>
  Claim C17. With a value that fits a field of \<open>n\<close> bits and any 64-bit increment, the overflow checks compute
  without overflowing themselves: they answer 0 exactly when the sum fits the field. Otherwise the limit is
  the sum modulo \<open>2^n\<close> (in two's complement for signed fields) under WRAP, the nearer end of the range under
  SAT, and none under FAIL. The answer is 1 for an overflow, and for an underflow -1 under SAT and FAIL. Under
  WRAP it is 1 for an underflow as well, where the comment of the functions promises -1.
\<close>

theorem bitfield_overflow_exact:
  assumes "0 < n" "is_int64 incr"
  shows "(n \<le> 63 \<and> 0 \<le> x \<and> x < 2 ^ n \<longrightarrow>
      checkUnsignedBitfieldOverflow (word_of_int x) incr n ow =
        map_prod id (map_option word_of_int) (overflow_spec (\<lambda>s. s mod 2 ^ n) 0 (2 ^ n - 1) ow (x + incr))) \<and>
    (n \<le> 64 \<and> - (2 ^ (n - 1)) \<le> x \<and> x < 2 ^ (n - 1) \<longrightarrow>
      checkSignedBitfieldOverflow x incr n ow =
        overflow_spec (\<lambda>s. as_signed n (s mod 2 ^ n)) (- (2 ^ (n - 1))) (2 ^ (n - 1) - 1) ow (x + incr))"
  using checkUnsigned_ok [of n x incr ow] checkSigned_ok [of n x incr ow] assms by simp

theorem bitfield_overflow_exact_witness:
  "checkUnsignedBitfieldOverflow 250 10 8 BFOVERFLOW_WRAP = (1, Some 4) \<and>
   checkSignedBitfieldOverflow 120 10 8 BFOVERFLOW_WRAP = (1, Some (- 126))"
  using bitfield_overflow_exact [of 8 10 250 BFOVERFLOW_WRAP] bitfield_overflow_exact [of 8 10 120 BFOVERFLOW_WRAP]
  by (simp add: overflow_spec_def is_int64_def int_ranges as_signed_def)

text \<open>
  Claim C38. BITFIELD SET checks the new value with an increment of 0. For a signed field of fewer than 64 bits a
  value above the range saturates to the maximum and a value just below the range to the minimum, but a
  value of at most \<open>2^(n-1) - 1 - 2^63\<close>, where the difference to the maximum leaves 64 bits, is
  reported as an overflow and saturates to the \<^emph>\<open>maximum\<close>.
\<close>

theorem bitfield_set_saturates:
  assumes "0 < n" "n < 64" "is_int64 x"
  shows "checkSignedBitfieldOverflow x 0 n BFOVERFLOW_SAT =
    (if x > 2 ^ (n - 1) - 1 \<or> x \<le> 2 ^ (n - 1) - 1 - 2 ^ 63 then (1, Some (2 ^ (n - 1) - 1))
     else if x < - (2 ^ (n - 1)) then (- 1, Some (- (2 ^ (n - 1))))
     else (0, None))"
proof -
  define m where "m = (2 :: int) ^ (n - 1)"
  have m: "1 \<le> m" "m \<le> 2 ^ 62" using assms power_increasing [of "n - 1" 62 "2 :: int"] by (simp_all add: m_def)
  have n: "n \<noteq> 64" using assms by simp
  define A where "A = sint (word_of_int (m - 1) - word_of_int x :: u64)"
  define B where "B = sint (word_of_int (- (m - 1) - 1 - x) :: u64)"
  have x: "- (2 ^ 63) \<le> x" "x \<le> 2 ^ 63 - 1" using assms(3) by (simp_all add: is_int64_def int_ranges)
  have A: "A = m - 1 - x" if "m - 1 - 2 ^ 63 < x" "x \<le> m - 1"
    using that m sint_of_int64 [of "m - 1 - x"] unfolding A_def wi_hom_sub is_int64_def int_ranges by simp
  have A': "A < 0" if "x \<le> m - 1 - 2 ^ 63"
  proof -
    have e: "(word_of_int (m - 1) - word_of_int x :: u64) = word_of_int (m - 1 - x - 2 ^ 64)" by simp
    have "is_int64 (m - 1 - x - 2 ^ 64)" unfolding is_int64_def int_ranges using that x m by simp
    then have "A = m - 1 - x - 2 ^ 64" unfolding A_def e by (rule sint_of_int64)
    then show ?thesis using x m by simp
  qed
  have B: "B = - m - x" if "m - 1 - 2 ^ 63 < x" "x \<le> m - 1"
    using that x m sint_of_int64 [of "- (m - 1) - 1 - x"] unfolding B_def is_int64_def int_ranges by simp
  show ?thesis
    unfolding checkSignedBitfieldOverflow_def Let_def if_not_P [OF n] m_def [symmetric] A_def [symmetric] B_def [symmetric]
    using A A' B n m by auto
qed

theorem bitfield_set_saturates_witness:
  "checkSignedBitfieldOverflow (- 200) 0 8 BFOVERFLOW_SAT = (- 1, Some (- 128)) \<and>
   checkSignedBitfieldOverflow INT64_MIN 0 8 BFOVERFLOW_SAT = (1, Some 127)"
  using bitfield_set_saturates [of 8 "- 200"] bitfield_set_saturates [of 8 INT64_MIN] by (simp add: is_int64_def int_ranges)

end
