(* ===== verification/Spec2Isabelle.thy ===== *)
theory Spec2Isabelle
  imports Key_Types Adlist String_Util Lzf Bitops
begin

text \<open>
  Verification of the data structures of Redis 7.0.0 and of the set and hash commands built on them.
  All file names below are under \<^verbatim>\<open>src/redis-7.0.0/src/\<close>.

  \<^bold>\<open>The program.\<close> A Redis server keeps a keyspace: a map of keys to objects. A set is kept as a sorted
  array of integers (\<^verbatim>\<open>intset.c\<close>) while it is small and all elements are integers, and as a hash table
  (\<^verbatim>\<open>dict.c\<close>) otherwise. A hash is kept as one packed block of bytes (\<^verbatim>\<open>listpack.c\<close>) while it is small,
  and as a hash table otherwise. \<^verbatim>\<open>t_set.c\<close> and \<^verbatim>\<open>t_hash.c\<close> hold the two object types, with the conversions
  between the encodings, and the commands of the clients. Both read and print numbers with \<^verbatim>\<open>util.c\<close> and
  \<^verbatim>\<open>sds.c\<close>. \<^verbatim>\<open>adlist.c\<close> is the linked list used across the server. \<^verbatim>\<open>bitops.c\<close> has the bit functions behind the
  bitmap commands, and \<^verbatim>\<open>lzf_c.c\<close> and \<^verbatim>\<open>lzf_d.c\<close> the compression of strings in dumps and long lists.

  \<^bold>\<open>Interfaces.\<close>
  \<^item> \<open>Prelude\<close>: lemma collections, types of bytes and words, bytes of numbers, lemmas on lists.
  \<^item> \<open>Refinement\<close>: the locale \<open>machine_refinement\<close>. A machine whose operations keep an invariant and act
    on the abstraction as the specified operations do refines the specification over all sequences.
  \<^item> \<open>Set_Interface\<close> and \<open>Map_Interface\<close>: the locales \<open>set_impl\<close> and \<open>map_impl\<close>, sublocales of the one
    before: laws of an implementation of a finite set and of a finite map. \<open>set_impl\<close> is interpreted by
    \<open>Intset\<close> and \<open>Set_Object\<close>, and \<open>map_impl\<close> by \<open>Dict\<close> and \<open>Hash_Object\<close>.
  \<^item> \<open>Listpack_Api\<close>: the locale \<open>string_list\<close>, what the hash type relies on of a packed list of strings, with
    lemmas on lists of alternating fields and values; interpreted by the listpack.

  \<^bold>\<open>Components.\<close> An operation of the model has the name of the C function. A struct is a record, a
  pointer into a buffer is an offset, a failed assertion or panic is \<open>None\<close>.
  \<^item> \<open>Intset\<close> (\<^verbatim>\<open>intset.c\<close>): the header and the packed bytes in the encoding of 2, 4 or 8 bytes per element;
    32-bit lengths wrap. Shown: the simulation of a finite set, the binary search, the upgrade in place,
    the validation of untrusted bytes, and how much of a tail of any length \<^verbatim>\<open>intsetMoveTail\<close> moves when its
    byte count wraps.
  \<^item> \<open>Decimal\<close> (\<^verbatim>\<open>util.c\<close>, \<^verbatim>\<open>sds.c\<close>): printing and reading 64-bit integers. Shown: \<^verbatim>\<open>string2ll\<close> accepts exactly
    the notation that \<^verbatim>\<open>ll2string\<close> prints.
  \<^item> \<open>String_Util\<close> (\<^verbatim>\<open>util.c\<close>): \<^verbatim>\<open>stringmatchlen\<close> against a reference of parsed patterns, which has its own
    definitions of letters, case and ranges, and \<^verbatim>\<open>memtoull\<close> against a table of the units. Matching without
    regard to case differs from the usual reading in classes (\<open>nocase_classes\<close>).
  \<^item> \<open>Dict\<close> (\<^verbatim>\<open>dict.c\<close>): two tables of chains with incremental rehashing from one to the other. Shown: the
    simulation of a finite map with rehashing between any two calls, and that rehashing ends.
  \<^item> \<open>Scan_Cursor\<close> and \<open>Dict_Traverse\<close> (\<^verbatim>\<open>dict.c\<close>): the cursor that counts on reversed bits, \<^verbatim>\<open>dictScan\<close> and the
    iterators. Shown: a scan reports every key that stays, whatever resizing happens between the calls.
  \<^item> \<open>Listpack\<close>, \<open>Listpack_List\<close> and \<open>Listpack_Valid\<close> (\<^verbatim>\<open>listpack.c\<close>): the encodings of elements, the walks in
    both directions, insertion, deletion, search, merging, validation. A listpack represents a list of
    strings (\<open>represents\<close>); every operation is shown to act on that list, with null returned exactly when
    the size does not fit into 32 bits. Bytes that pass the deep validation are safe to walk.
  \<^item> \<open>Set_Object\<close>, \<open>Set_Commands\<close> and \<open>Set_Server\<close> (\<^verbatim>\<open>t_set.c\<close>): the set type, the commands on the keyspace with
    their replies, notifications and the counter of changes, and their correctness.
  \<^item> \<open>Hash_Object\<close>, \<open>Hash_Commands\<close> (\<^verbatim>\<open>t_hash.c\<close>): the hash type and its commands. Shown: the simulation of a
    finite map for all configured limits, where the check of the size in \<^verbatim>\<open>hashTypeTryConversion\<close> is what keeps a
    listpack in its 32 bits. \<^verbatim>\<open>HINCRBY\<close> and \<^verbatim>\<open>HINCRBYFLOAT\<close> do not make that check (\<open>hashTypeSet_no_room\<close>).
  \<^item> \<open>Keyspace_Server\<close>: the hash commands on the keyspace, and one server that executes set and hash commands
    (\<open>runs_to\<close>): in every reachable state all objects are well-formed and not empty, and every command
    returns. A run contains every modelled command, but not the step of \<^verbatim>\<open>HINCRBYFLOAT\<close> that leaves an empty
    hash (\<open>spoils\<close>); that step has a theorem of its own.
  \<^item> \<open>Key_Types\<close>: commands refuse keys of other types, change the type of no key, and leave every object of
    another type as it is, with the destinations of \<^verbatim>\<open>STORE\<close> commands as the exception.
  \<^item> \<open>Adlist\<close> (\<^verbatim>\<open>adlist.c\<close>): nodes in a store from pointers to nodes. A null or freed pointer that is followed
    makes the call \<open>None\<close>; it is shown that this never happens, and that the list acts as a list of values.
  \<^item> \<open>Lzf\<close> (\<^verbatim>\<open>lzf_c.c\<close>, \<^verbatim>\<open>lzf_d.c\<close>): the compressor with its hash table of pointers, and the decompressor. An access
    outside of a buffer makes the call \<open>None\<close>. Compressed texts are described by the relation \<open>lzf_stream\<close>.
    Shown: the round trip for every content of the uninitialised table, and that decompressing any bytes
    is safe.
  \<^item> \<open>Bitops\<close> (\<^verbatim>\<open>bitops.c\<close>): the functions on bits below the commands, against the list of the bits of a
    string. Shown: counting and finding bits for every alignment, the round trip of integers at any bit
    offset, and what the overflow checks of \<^verbatim>\<open>BITFIELD\<close> decide and answer (1 and not -1 for an underflow that
    wraps, unlike their comment), with the values for which saturation goes to the wrong end.

  \<^bold>\<open>Parameters.\<close> The hash function and the comparison of a dict (\<open>dictType\<close>), the configured limits and
  whether resizing is allowed (\<open>set_env\<close>, \<open>hash_env\<close>), the pointers that the allocator returns, whether
  \<^verbatim>\<open>char\<close> is signed, whether \<^verbatim>\<open>strtoull\<close> sets \<^verbatim>\<open>EINVAL\<close> on an empty number, and the arithmetic of
  \<^verbatim>\<open>long double\<close>, the alignment of a bitmap, and the address of the input and the first contents of the
  hash table of the compressor. Allocation does not fail: \<^verbatim>\<open>zmalloc\<close> ends the process when it does.

  \<^bold>\<open>Bounds and fuel.\<close> The commands on sets assume fewer than \<open>2 ^ 29\<close> elements in a set that grows, since the
  integer set counts its bytes in 32 bits; those on hashes assume at most \<open>2 ^ 60\<close> fields, so that sizes of tables fit into
  64 bits. The theorems on the hash commands that write, and on runs of the server, assume limits of the small encoding
  with \<open>7 + (entries + 1) * (2 * value + 28) < 2 ^ 32\<close> (\<open>hash_env_ok\<close>), for which a listpack cannot reach 4 GB; the
  default limits, 512 and 64, are far below, but \<^verbatim>\<open>config.c\<close> allows all values. The hash object itself needs no such limit. The
  counters of \<^verbatim>\<open>HGETALL\<close>, \<^verbatim>\<open>HKEYS\<close> and \<^verbatim>\<open>HVALS\<close> are 32-bit integers: the first returns below \<open>2 ^ 30\<close> fields and the others
  below \<open>2 ^ 31\<close>, and from there on the model has no result. Two other counters of type \<^verbatim>\<open>int\<close> are natural numbers: positions in
  an integer set, which differ from \<open>2 ^ 31\<close> elements on, outside of the bound above, and the limit of empty visits
  in \<^verbatim>\<open>dictRehash\<close>, which differs when ten times the requested number of steps overflows; the server requests 1 or 100. The
  \<^verbatim>\<open>qsort\<close> of the sets by size is a stable sort, while C leaves the order of sets of equal size open; the results are
  sets that do not depend on it.
  Lengths of patterns and of matched strings fit an \<^verbatim>\<open>int\<close>. A compressed input has two bytes or more, and a bitmap fewer than \<open>2 ^ 64\<close> bits. Loops are structural or have a termination proof, with these exceptions, which have fuel.
  \<^verbatim>\<open>dictScan\<close> has as many rounds as the larger table has buckets, and \<open>scan_large_spec\<close> shows that they
  are enough. Iterating over a set or a hash has one round more than there are entries, or one for each
  byte of a listpack; an entry has more than one byte. Loops over a linked list have one round more than
  its length. The theorems state that the calls return, and so that the fuel is enough. The search of
  \<^verbatim>\<open>intset.c\<close> is a \<open>while\<close> loop, shown to end.

  \<^bold>\<open>Not modelled.\<close> Random choice (\<^verbatim>\<open>SPOP\<close>, \<^verbatim>\<open>SRANDMEMBER\<close>, \<^verbatim>\<open>HRANDFIELD\<close>, the sampling functions of \<^verbatim>\<open>dict.c\<close> and
  \<^verbatim>\<open>listpack.c\<close>): its claims are about distributions. \<^verbatim>\<open>SSCAN\<close> and \<^verbatim>\<open>HSCAN\<close>, and the rewriting of commands for
  replicas. Expiry, lazy freeing, replication, persistence, clustering, scripting, modules and access
  control, which are about time, files, processes and sockets. The other data types (strings, lists,
  sorted sets, streams), so also the bitmap commands around the functions of \<open>Bitops\<close>, and the
  structures only they use (\<^verbatim>\<open>quicklist.c\<close>, \<^verbatim>\<open>ziplist.c\<close>, \<^verbatim>\<open>rax.c\<close>): an object of another type is an opaque value of the keyspace. The Rails application around the server has no
  algorithms of its own.
\<close>

end
